(* ===== verification/Resh_Prelude.thy ===== *)
theory Resh_Prelude
  imports Main "HOL-Library.Word" "HOL-Library.Sublist" "HOL-Library.Monad_Syntax"
begin

text \<open>
  What every component of the development shares: bytes and byte strings, the slice
  expressions and the search functions of Go's package bytes that the sources call,
  the wrap-around of Go's fixed-width integers, the values an operation can end with,
  and the interface of an incremental parser (\<open>incremental\<close>) with the lemmas every
  parser of the program inherits from it.

  Conventions. A value of Go's type byte is an \<open>8 word\<close> and a \<open>[]byte\<close> or a string
  is a list of them. An index that Go reports as -1 is \<open>None\<close>. A computation that can
  end in a run-time panic has an option type and \<open>None\<close> is the panic, so Go's implicit
  propagation of panics is \<open>Option.bind\<close>. Go's int and int64 are \<open>int\<close> with the
  wrap-around \<open>i64\<close> written out at every operation that can overflow; uint32 and
  uint16 are \<open>32 word\<close> and \<open>16 word\<close>.
\<close>

unbundle bit_operations_syntax

section \<open>Bytes and literals\<close>

type_synonym byte = "8 word"
type_synonym bytes = "byte list"
type_synonym u16 = "16 word"
type_synonym u32 = "32 word"

named_theorems lit_simps \<open>evaluation of byte-string literals\<close>

definition bs :: "string \<Rightarrow> bytes" where
  [lit_simps]: "bs s = map of_char s"

definition crlf :: bytes where
  "crlf = [13, 10]"

lemma length_crlf [simp]: "length crlf = 2"
  by (simp add: crlf_def)

lemma length_bs [simp]: "length (bs s) = length s"
  by (simp add: bs_def)

lemma crlf_not_Nil [simp]: "crlf \<noteq> []"
  by (simp add: crlf_def)

section \<open>Fixed-width integers\<close>

definition i64 :: "int \<Rightarrow> int" where
  "i64 x = signed_take_bit 63 x"

abbreviation fits64 :: "int \<Rightarrow> bool" where
  "fits64 x \<equiv> - (2 ^ 63) \<le> x \<and> x < 2 ^ 63"

lemma i64_id: "fits64 x \<Longrightarrow> i64 x = x"
  by (simp add: i64_def signed_take_bit_int_eq_self)

lemma i64_range: "fits64 (i64 x)"
  using signed_take_bit_int_greater_eq_minus_exp [of 63 x] signed_take_bit_int_less_exp [of 63 x]
  by (simp add: i64_def)

lemma i64_overflow:
  assumes "2 ^ 63 \<le> x" and "x < 2 ^ 64"
  shows "i64 x = x - 2 ^ 64"
proof -
  have "(x + 2 ^ 63) mod 2 ^ 64 = ((x - 2 ^ 63) + 2 ^ 64) mod 2 ^ 64" by (simp add: add.commute)
  also have "\<dots> = (x - 2 ^ 63) mod 2 ^ 64" by (rule mod_add_self2)
  also have "\<dots> = x - 2 ^ 63" using assms by (simp add: mod_pos_pos_trivial)
  finally show ?thesis by (simp add: i64_def signed_take_bit_eq_take_bit_shift take_bit_eq_mod)
qed

section \<open>Slices\<close>

text \<open>
  The expression \<open>xs[lo:hi]\<close>. Go accepts an upper bound up to the capacity of the
  slice; the model takes the capacity to be the length, so that reading past the end
  of the data counts as a panic too.
\<close>

definition gslice :: "'a list \<Rightarrow> int \<Rightarrow> int \<Rightarrow> 'a list option" where
  "gslice xs lo hi =
     (if 0 \<le> lo \<and> lo \<le> hi \<and> hi \<le> int (length xs)
      then Some (take (nat (hi - lo)) (drop (nat lo) xs)) else None)"

definition gat :: "'a list \<Rightarrow> int \<Rightarrow> 'a option" where
  "gat xs i = (if 0 \<le> i \<and> i < int (length xs) then Some (xs ! nat i) else None)"

text \<open>Writing the bytes \<open>new\<close> over \<open>xs\<close> from position \<open>pos\<close> on.\<close>

definition overwrite :: "'a list \<Rightarrow> nat \<Rightarrow> 'a list \<Rightarrow> 'a list" where
  "overwrite xs pos new = take pos xs @ new @ drop (pos + length new) xs"

lemma length_overwrite [simp]:
  "pos + length new \<le> length xs \<Longrightarrow> length (overwrite xs pos new) = length xs"
  by (simp add: overwrite_def)

lemma overwrite_append:
  "pos + length new \<le> length xs \<Longrightarrow> overwrite (xs @ ys) pos new = overwrite xs pos new @ ys"
  by (simp add: overwrite_def)

lemma drop_overwrite:
  "pos + length new \<le> k \<Longrightarrow> k \<le> length xs \<Longrightarrow> drop k (overwrite xs pos new) = drop k xs"
  by (simp add: overwrite_def)

lemma overwrite_middle [simp]:
  "length new = length ys \<Longrightarrow> overwrite (xs @ ys @ zs) (length xs) new = xs @ new @ zs"
  by (simp add: overwrite_def)

lemma gslice_nat [simp]:
  "gslice xs (int i) (int j) = (if i \<le> j \<and> j \<le> length xs then Some (take (j - i) (drop i xs)) else None)"
  by (auto simp: gslice_def simp flip: of_nat_diff)

lemma gat_nat [simp]: "gat xs (int i) = (if i < length xs then Some (xs ! i) else None)"
  by (auto simp: gat_def)

lemma gslice_uint [simp]:
  "gslice xs (uint a) (int j) =
     (if unat a \<le> j \<and> j \<le> length xs then Some (take (j - unat a) (drop (unat a) xs)) else None)"
  using gslice_nat [of xs "unat a" j] by simp

lemma gslice_uint2 [simp]:
  "gslice xs (uint a) (uint b) =
     (if unat a \<le> unat b \<and> unat b \<le> length xs then Some (take (unat b - unat a) (drop (unat a) xs)) else None)"
  using gslice_nat [of xs "unat a" "unat b"] by simp

lemma gslice_0_uint [simp]:
  "gslice xs 0 (uint b) = (if unat b \<le> length xs then Some (take (unat b) xs) else None)"
  using gslice_nat [of xs 0 "unat b"] by simp

lemma gat_uint [simp]: "gat xs (uint a) = (if unat a < length xs then Some (xs ! unat a) else None)"
  using gat_nat [of xs "unat a"] by simp

lemma gslice_inverted: "hi < lo \<Longrightarrow> gslice xs lo hi = None"
  by (simp add: gslice_def)

lemma gslice_Some_iff:
  "gslice xs lo hi = Some ys \<longleftrightarrow>
     0 \<le> lo \<and> lo \<le> hi \<and> hi \<le> int (length xs) \<and> ys = take (nat (hi - lo)) (drop (nat lo) xs)"
  by (auto simp: gslice_def)

lemma gslice_append:
  "gslice xs lo hi = Some zs \<Longrightarrow> gslice (xs @ ys) lo hi = Some zs"
  by (auto simp: gslice_def split: if_splits)

lemma gat_append: "gat xs i = Some x \<Longrightarrow> gat (xs @ ys) i = Some x"
  by (auto simp: gat_def nth_append nat_less_iff split: if_splits)

lemma drop_drop_le: "k \<le> n \<Longrightarrow> drop (n - k) (drop k xs) = drop n xs"
  by (simp only: drop_drop le_add_diff_inverse2)

lemma drop_prefix: "xs = a @ b \<Longrightarrow> length a = n \<Longrightarrow> drop n xs = b"
  by auto

lemma take_drop_middle: "xs = a @ b @ c \<Longrightarrow> length a = n \<Longrightarrow> take (length b) (drop n xs) = b"
  by auto

section \<open>Searching (bytes.Index, IndexByte, LastIndexByte, Cut)\<close>

fun bindex :: "'a list \<Rightarrow> 'a list \<Rightarrow> nat option" where
  "bindex sep [] = (if sep = [] then Some 0 else None)"
| "bindex sep (x # xs) =
     (if prefix sep (x # xs) then Some 0 else map_option Suc (bindex sep xs))"

definition index_byte :: "'a \<Rightarrow> 'a list \<Rightarrow> nat option" where
  "index_byte c xs = bindex [c] xs"

definition last_index_byte :: "'a \<Rightarrow> 'a list \<Rightarrow> nat option" where
  "last_index_byte c xs = map_option (\<lambda>i. length xs - 1 - i) (index_byte c (rev xs))"

text \<open>\<open>before, after, found = bytes.Cut(s, sep)\<close>, without the flag.\<close>

definition cut :: "'a list \<Rightarrow> 'a list \<Rightarrow> 'a list \<times> 'a list" where
  "cut sep xs = (case bindex sep xs of
       None \<Rightarrow> (xs, [])
     | Some i \<Rightarrow> (take i xs, drop (i + length sep) xs))"

lemma bindex_correct:
  assumes "bindex sep xs = Some i"
  shows "i + length sep \<le> length xs \<and> take (length sep) (drop i xs) = sep
      \<and> (\<forall>j<i. \<not> prefix sep (drop j xs))"
  using assms
proof (induction sep xs arbitrary: i rule: bindex.induct)
  case (1 sep)
  then show ?case by (simp split: if_splits)
next
  case (2 sep x xs)
  show ?case
  proof (cases "prefix sep (x # xs)")
    case True
    with "2.prems" have i: "i = 0" by simp
    from True obtain zs where "x # xs = sep @ zs" by (auto simp: prefix_def)
    then show ?thesis using i
      by (metis add_0 append_eq_conv_conj drop0 le_add1 length_append not_less0)
  next
    case False
    with "2.prems" obtain k where k: "bindex sep xs = Some k" "i = Suc k" by auto
    show ?thesis
    proof (intro conjI allI impI)
      show "i + length sep \<le> length (x # xs)" "take (length sep) (drop i (x # xs)) = sep"
        using "2.IH" [OF False k(1)] k(2) by auto
      fix j assume "j < i"
      then show "\<not> prefix sep (drop j (x # xs))"
        using "2.IH" [OF False k(1)] k(2) False by (cases j) auto
    qed
  qed
qed

lemma bindex_bound: "bindex sep xs = Some i \<Longrightarrow> i + length sep \<le> length xs"
  using bindex_correct by blast

lemma bindex_at: "bindex sep xs = Some i \<Longrightarrow> take (length sep) (drop i xs) = sep"
  using bindex_correct by blast

lemma bindex_least: "bindex sep xs = Some i \<Longrightarrow> j < i \<Longrightarrow> \<not> prefix sep (drop j xs)"
  using bindex_correct by blast

lemma bindex_SomeI:
  assumes "prefix sep (drop i xs)" and "i \<le> length xs" and "\<And>j. j < i \<Longrightarrow> \<not> prefix sep (drop j xs)"
  shows "bindex sep xs = Some i"
  using assms
proof (induction sep xs arbitrary: i rule: bindex.induct)
  case (1 sep)
  then show ?case by simp
next
  case (2 sep x xs)
  show ?case
  proof (cases i)
    case 0
    with "2.prems" show ?thesis by simp
  next
    case (Suc k)
    with "2.prems"(3) [of 0] have nf: "\<not> prefix sep (x # xs)" by simp
    have "bindex sep xs = Some k"
    proof (rule "2.IH" [OF nf])
      fix j assume "j < k"
      with "2.prems"(3) [of "Suc j"] Suc show "\<not> prefix sep (drop j xs)" by simp
    qed (use "2.prems" Suc in auto)
    with nf Suc show ?thesis by simp
  qed
qed

lemma bindex_NoneD: "bindex sep xs = None \<Longrightarrow> \<not> prefix sep (drop i xs)"
proof (induction sep xs arbitrary: i rule: bindex.induct)
  case (1 sep)
  then show ?case by (auto split: if_splits)
next
  case (2 sep x xs)
  then show ?case by (cases i) (auto split: if_splits)
qed

lemma bindex_exists:
  assumes "prefix sep (drop n xs)" and "n \<le> length xs"
  shows "\<exists>i. bindex sep xs = Some i \<and> i \<le> n"
proof (cases "bindex sep xs")
  case None
  with assms bindex_NoneD [of sep xs n] show ?thesis by simp
next
  case (Some i)
  with assms bindex_least [OF Some, of n] show ?thesis by fastforce
qed

lemma bindex_append:
  "bindex sep xs = Some i \<Longrightarrow> bindex sep (xs @ ys) = Some i"
proof (induction sep xs arbitrary: i rule: bindex.induct)
  case (1 sep)
  then show ?case by (cases ys) (auto split: if_splits)
next
  case (2 sep x xs)
  show ?case
  proof (cases "prefix sep (x # xs)")
    case True
    then have "prefix sep ((x # xs) @ ys)" by (rule prefix_prefix)
    with True "2.prems" show ?thesis by simp
  next
    case False
    with "2.prems" obtain k where k: "bindex sep xs = Some k" "i = Suc k" by auto
    have "k + length sep \<le> length xs" using k(1) by (rule bindex_bound)
    then have "length sep \<le> length (x # xs)" by simp
    then have "\<not> prefix sep ((x # xs) @ ys)"
      using False by (meson prefix_length_prefix prefixI)
    with "2.IH" [OF False k(1)] k(2) show ?thesis by simp
  qed
qed

lemma bindex_split:
  assumes "bindex sep xs = Some i"
  shows "xs = take i xs @ sep @ drop (i + length sep) xs"
proof -
  from bindex_at [OF assms] have "sep @ drop (i + length sep) xs = drop i xs"
    by (metis add.commute append_take_drop_id drop_drop)
  then show ?thesis by simp
qed

text \<open>The first CRLF of a line that holds no carriage return is its terminator.\<close>

lemma bindex_crlf_line:
  assumes "13 \<notin> set xs"
  shows "bindex crlf (xs @ crlf @ ys) = Some (length xs)"
  using assms by (induction xs) (auto simp: crlf_def)

lemma index_byte_none: "index_byte c xs = None \<longleftrightarrow> c \<notin> set xs"
  unfolding index_byte_def by (induction xs) auto

lemma index_byte_first: "c \<notin> set xs \<Longrightarrow> index_byte c (xs @ c # ys) = Some (length xs)"
  unfolding index_byte_def by (induction xs) auto

lemma index_byte_bound: "index_byte c xs = Some i \<Longrightarrow> i < length xs \<and> xs ! i = c \<and> c \<notin> set (take i xs)"
  unfolding index_byte_def by (induction xs arbitrary: i) (auto split: if_splits)

lemma last_index_byte_last:
  assumes "c \<notin> set ys"
  shows "last_index_byte c (xs @ c # ys) = Some (length xs)"
proof -
  have "index_byte c (rev (xs @ c # ys)) = Some (length ys)"
    using index_byte_first [of c "rev ys" "rev xs"] assms by simp
  then show ?thesis by (simp add: last_index_byte_def)
qed

lemma last_index_byte_bound: "last_index_byte c xs = Some i \<Longrightarrow> i < length xs"
  by (auto simp: last_index_byte_def dest!: index_byte_bound)

lemma last_index_byte_none: "last_index_byte c xs = None \<longleftrightarrow> c \<notin> set xs"
  by (simp add: last_index_byte_def index_byte_none)

section \<open>Incremental parsers\<close>

text \<open>
  A connection appends what it reads to an input buffer and calls its parser on the
  whole buffer again. A parser is a function of its own state and of the buffer; it
  returns its next state, the buffer (which it may have changed in place) and the
  error, if any. One error value (\<open>errWaitMore\<close>) asks for more input. Three laws make
  the cut of the stream into reads irrelevant: calling the parser again after it has
  asked for more is the same as calling it the first time with the longer buffer
  (\<open>resume\<close>), and a verdict that has been reached does not depend on bytes that
  follow (\<open>stable\<close>, \<open>panic_stable\<close>).
\<close>

type_synonym ('s, 'e) parser = "'s \<Rightarrow> bytes \<Rightarrow> ('s \<times> bytes \<times> 'e option) option"

text \<open>The reads of a connection: append a chunk, parse, stop unless more is asked for.\<close>

fun feed :: "('s, 'e) parser \<Rightarrow> 'e \<Rightarrow> 's \<Rightarrow> bytes \<Rightarrow> bytes list \<Rightarrow>
    ('s \<times> bytes \<times> 'e option) option" where
  "feed p w s buf [] = Some (s, buf, Some w)"
| "feed p w s buf (c # cs) =
     (case p s (buf @ c) of
        None \<Rightarrow> None
      | Some (s', buf', e) \<Rightarrow>
          if e = Some w then feed p w s' buf' cs else Some (s', buf' @ concat cs, e))"

locale incremental =
  fixes step :: "('s, 'e) parser" and wait :: 'e and inv :: "'s \<Rightarrow> bytes \<Rightarrow> bool"
  assumes inv_append: "inv s xs \<Longrightarrow> inv s (xs @ ys)"
    and inv_step: "inv s xs \<Longrightarrow> step s xs = Some (s', xs', Some wait) \<Longrightarrow> inv s' xs'"
    and resume: "inv s xs \<Longrightarrow> step s xs = Some (s', xs', Some wait) \<Longrightarrow>
                   step s' (xs' @ ys) = step s (xs @ ys)"
    and stable: "inv s xs \<Longrightarrow> step s xs = Some (s', xs', e) \<Longrightarrow> e \<noteq> Some wait \<Longrightarrow>
                   step s (xs @ ys) = Some (s', xs' @ ys, e)"
    and panic_stable: "inv s xs \<Longrightarrow> step s xs = None \<Longrightarrow> step s (xs @ ys) = None"
begin

text \<open>However the stream is cut, the parser ends as it does on the whole stream.\<close>

lemma feed_whole:
  assumes "inv s buf" and "cs \<noteq> []"
  shows "feed step wait s buf cs = step s (buf @ concat cs)"
  using assms
proof (induction cs arbitrary: s buf)
  case Nil
  then show ?case by simp
next
  case (Cons c cs)
  have inv: "inv s (buf @ c)" using Cons.prems(1) by (rule inv_append)
  show ?case
  proof (cases "step s (buf @ c)")
    case None
    with panic_stable [OF inv, of "concat cs"] show ?thesis by simp
  next
    case (Some r)
    obtain s' buf' e where r: "r = (s', buf', e)" by (cases r)
    show ?thesis
    proof (cases "e = Some wait")
      case False
      with Some r stable [OF inv, of s' buf' e "concat cs"] show ?thesis by auto
    next
      case True
      note st = Some [unfolded r True]
      show ?thesis
      proof (cases "cs = []")
        case True
        with st show ?thesis by simp
      next
        case False
        with Cons.IH [OF inv_step [OF inv st]] have
          "feed step wait s' buf' cs = step s' (buf' @ concat cs)" by simp
        with resume [OF inv st, of "concat cs"] st show ?thesis by simp
      qed
    qed
  qed
qed

lemma feed_segmentation:
  assumes "inv s []" and "concat cs = concat ds" and "cs \<noteq> []" and "ds \<noteq> []"
  shows "feed step wait s [] cs = feed step wait s [] ds"
  using assms by (simp add: feed_whole)

end

section \<open>Codecs\<close>

text \<open>
  The interface of a self-delimiting encoding: a decoder that returns the value and
  the number of bytes it used reads back what the encoder wrote, whatever follows.
\<close>

fun decode_all :: "(bytes \<Rightarrow> ('a \<times> nat) option) \<Rightarrow> nat \<Rightarrow> bytes \<Rightarrow> 'a list option" where
  "decode_all dec 0 xs = Some []"
| "decode_all dec (Suc n) xs =
     (case dec xs of
        None \<Rightarrow> None
      | Some (a, k) \<Rightarrow> map_option (Cons a) (decode_all dec n (drop k xs)))"

locale codec =
  fixes enc :: "'a \<Rightarrow> bytes" and dec :: "bytes \<Rightarrow> ('a \<times> nat) option" and wf :: "'a \<Rightarrow> bool"
  assumes dec_enc: "wf a \<Longrightarrow> dec (enc a @ rest) = Some (a, length (enc a))"
begin

lemma decode_all_concat:
  "list_all wf as \<Longrightarrow> decode_all dec (length as) (concat (map enc as) @ rest) = Some as"
  by (induction as) (auto simp: dec_enc)

lemma enc_prefix_free:
  assumes "wf a" and "wf b" and "enc a @ r = enc b @ s"
  shows "a = b \<and> r = s"
proof -
  have "Some (a, length (enc a)) = Some (b, length (enc b))"
    using dec_enc [OF assms(1), of r] dec_enc [OF assms(2), of s] assms(3) by simp
  then have "a = b" by simp
  with assms(3) show ?thesis by simp
qed

end

end
