(* ===== verification/Go_Strconv.thy ===== *)
theory Go_Strconv
  imports Resh_Prelude
begin

text \<open>
  The functions of Go's package strconv that the sources call: \<open>ParseInt(s, 10, 64)\<close>,
  \<open>Atoi\<close> (the same function on a 64-bit platform), and \<open>AppendInt(dst, v, base)\<close>,
  which appends \<open>format_int base v\<close>. A parsed value comes with its error, because
  callers that drop the error still use the value (the bounds of int64 on a range error,
  0 on a syntax error).
\<close>

datatype num_err = ErrSyntax | ErrRange

definition is_digit :: "byte \<Rightarrow> bool" where
  "is_digit c \<longleftrightarrow> 48 \<le> c \<and> c \<le> 57"

fun parse_digits :: "int \<Rightarrow> bytes \<Rightarrow> num_err + int" where
  "parse_digits n [] = Inr n"
| "parse_digits n (c # cs) =
     (if \<not> is_digit c then Inl ErrSyntax
      else let n' = n * 10 + uint (c - 48) in
        if n' > 2 ^ 64 - 1 then Inl ErrRange else parse_digits n' cs)"

definition parse_uint :: "bytes \<Rightarrow> num_err + int" where
  "parse_uint s = (if s = [] then Inl ErrSyntax else parse_digits 0 s)"

definition sign_of :: "bytes \<Rightarrow> bool \<times> bytes" where
  "sign_of s = (case s of
       [] \<Rightarrow> (False, [])
     | c # cs \<Rightarrow> if c = 43 then (False, cs) else if c = 45 then (True, cs) else (False, s))"

definition parse_int :: "bytes \<Rightarrow> int \<times> num_err option" where
  "parse_int s =
     (let (neg, ds) = sign_of s in
      case (if s = [] then Inl ErrSyntax else parse_uint ds) of
        Inl ErrSyntax \<Rightarrow> (0, Some ErrSyntax)
      | Inl ErrRange \<Rightarrow> (if neg then - (2 ^ 63) else 2 ^ 63 - 1, Some ErrRange)
      | Inr un \<Rightarrow>
          if \<not> neg \<and> un \<ge> 2 ^ 63 then (2 ^ 63 - 1, Some ErrRange)
          else if neg \<and> un > 2 ^ 63 then (- (2 ^ 63), Some ErrRange)
          else (if neg then - un else un, None))"

definition atoi :: "bytes \<Rightarrow> int \<times> num_err option" where
  "atoi s = parse_int s"

definition digit_char :: "nat \<Rightarrow> byte" where
  "digit_char d = (if d < 10 then word_of_nat (48 + d) else word_of_nat (87 + d))"

function format_uint :: "nat \<Rightarrow> nat \<Rightarrow> bytes" where
  "format_uint b n =
     (if n < b \<or> b < 2 then [digit_char n] else format_uint b (n div b) @ [digit_char (n mod b)])"
  by pat_completeness auto
termination
  by (relation "measure snd") auto

declare format_uint.simps [simp del]

definition format_int :: "nat \<Rightarrow> int \<Rightarrow> bytes" where
  "format_int b v = (if v < 0 then 45 # format_uint b (nat (- v)) else format_uint b (nat v))"

section \<open>Digits\<close>

lemma is_digit_iff: "is_digit c \<longleftrightarrow> 48 \<le> unat c \<and> unat c \<le> 57"
  by (simp add: is_digit_def word_le_nat_alt)

lemma digit_char_small:
  assumes "d < 10"
  shows "is_digit (digit_char d)" and "uint (digit_char d - 48) = int d"
proof -
  have u: "unat (digit_char d) = 48 + d"
    using assms by (simp add: digit_char_def unat_of_nat del: of_nat_add)
  then show "is_digit (digit_char d)" using assms by (simp add: is_digit_iff)
  have "(48::byte) \<le> digit_char d" using u by (simp add: word_le_nat_alt)
  then have "unat (digit_char d - 48) = d" using u by (simp add: unat_sub)
  then show "uint (digit_char d - 48) = int d" by (metis of_nat_unat)
qed

lemma parse_digits_append:
  "parse_digits n (xs @ ys) = (case parse_digits n xs of Inl e \<Rightarrow> Inl e | Inr m \<Rightarrow> parse_digits m ys)"
  by (induction n xs rule: parse_digits.induct) (auto simp: Let_def)

lemma format_uint_digits: "c \<in> set (format_uint 10 n) \<Longrightarrow> is_digit c"
proof (induction "10::nat" n rule: format_uint.induct)
  case (1 n)
  show ?case
  proof (cases "n < 10")
    case True
    with "1.prems" show ?thesis by (simp add: format_uint.simps [of 10 n] digit_char_small)
  next
    case False
    with "1.prems" have "c \<in> set (format_uint 10 (n div 10)) \<or> c = digit_char (n mod 10)"
      by (auto simp: format_uint.simps [of 10 n])
    with False "1.hyps" show ?thesis by (auto simp: digit_char_small)
  qed
qed

lemma format_uint_not_Nil [simp]: "format_uint b n \<noteq> []"
  by (subst format_uint.simps) simp

lemma parse_digits_format: "n < 2 ^ 64 \<Longrightarrow> parse_digits 0 (format_uint 10 n) = Inr (int n)"
proof (induction "10::nat" n rule: format_uint.induct)
  case (1 n)
  show ?case
  proof (cases "n < 10")
    case True
    then show ?thesis by (simp add: format_uint.simps [of 10 n] digit_char_small)
  next
    case False
    have "parse_digits 0 (format_uint 10 (n div 10)) = Inr (int (n div 10))"
      using False "1.hyps" "1.prems" by auto
    moreover have "int (n div 10) * 10 + int (n mod 10) = int n" by presburger
    ultimately show ?thesis using False "1.prems"
      by (simp add: format_uint.simps [of 10 n] parse_digits_append digit_char_small Let_def del: of_nat_div of_nat_mod)
  qed
qed

lemma digit_not_sign: "is_digit c \<Longrightarrow> c \<noteq> 43 \<and> c \<noteq> 45 \<and> c \<noteq> 13 \<and> c \<noteq> 10"
  by (auto simp: is_digit_iff)

lemma sign_of_digits: "is_digit c \<Longrightarrow> sign_of (c # cs) = (False, c # cs)"
  by (simp add: sign_of_def digit_not_sign)

section \<open>Round trips\<close>

lemma parse_int_format_nat:
  assumes "n < 2 ^ 63"
  shows "parse_int (format_uint 10 n) = (int n, None)"
proof -
  obtain c cs where eq: "format_uint 10 n = c # cs" by (cases "format_uint 10 n") auto
  then have "is_digit c" using format_uint_digits [of c n] by simp
  moreover have "parse_uint (c # cs) = Inr (int n)"
    using parse_digits_format [of n] assms eq by (simp add: parse_uint_def)
  ultimately show ?thesis using assms by (simp add: parse_int_def eq sign_of_digits)
qed

lemma parse_int_format:
  assumes "fits64 v"
  shows "parse_int (format_int 10 v) = (v, None)"
proof (cases "v < 0")
  case False
  then show ?thesis using assms parse_int_format_nat [of "nat v"]
    by (simp add: format_int_def nat_less_iff)
next
  case True
  have "parse_uint (format_uint 10 (nat (- v))) = Inr (- v)"
    using assms True by (simp add: parse_uint_def parse_digits_format nat_less_iff)
  then show ?thesis using assms True
    by (simp add: format_int_def parse_int_def sign_of_def)
qed

lemma format_int_no_cr: "13 \<notin> set (format_int 10 v)"
  using format_uint_digits [of 13] by (auto simp: format_int_def is_digit_def)

lemma format_int_not_Nil [simp]: "format_int b v \<noteq> []"
  by (simp add: format_int_def)

lemma parse_digits_nonneg: "parse_digits n cs = Inr m \<Longrightarrow> 0 \<le> n \<Longrightarrow> 0 \<le> m"
  by (induction n cs rule: parse_digits.induct) (auto simp: Let_def split: if_splits)

lemma parse_uint_nonneg: "parse_uint s = Inr n \<Longrightarrow> 0 \<le> n"
  using parse_digits_nonneg [of 0 s n] by (auto simp: parse_uint_def split: if_splits)

lemma parse_int_fits: "fits64 (fst (parse_int s))"
  by (auto simp: parse_int_def Let_def dest: parse_uint_nonneg split: prod.split sum.split num_err.split)

text \<open>The length of a decimal number bounds the offsets a parser adds up.\<close>

lemma length_format_uint: "n < 10 ^ k \<Longrightarrow> 0 < k \<Longrightarrow> length (format_uint 10 n) \<le> k"
proof (induction "10::nat" n arbitrary: k rule: format_uint.induct)
  case (1 n)
  show ?case
  proof (cases "n < 10")
    case True
    with "1.prems" show ?thesis by (simp add: format_uint.simps [of 10 n])
  next
    case False
    with "1.prems" obtain j where k: "k = Suc j" "0 < j"
      by (metis One_nat_def Suc_pred bot_nat_0.not_eq_extremum power_one_right)
    with "1.prems" have "n div 10 < 10 ^ j" by (simp add: div_less_iff_less_mult mult.commute)
    with False "1.hyps" [of j] k have "length (format_uint 10 (n div 10)) \<le> j" by linarith
    with False k show ?thesis by (simp add: format_uint.simps [of 10 n])
  qed
qed

end
