(* ===== verification/Resh_Util.thy ===== *)
theory Resh_Util
  imports Go_Strconv
begin

text \<open>
  util.go: the error values of package resh, the reader of a RESP header line
  (\<open>readByteAndNumberCrLf\<close>), percent-decoding in place (\<open>UnescapeInplace\<close>) and the
  response recorder handed to net/http handlers. \<open>btos\<close> reinterprets bytes as a string
  without a copy; both are byte lists here, so it is the identity and does not appear.
\<close>

section \<open>Errors\<close>

text \<open>
  The error values the package makes; each \<open>fmt.Errorf\<close> is a constructor that
  carries the values the message prints.
\<close>

datatype go_error =
    ErrWaitMore
  | ErrNum num_err bytes
  | ErrTooManyArgs
  | ErrBulkHead byte
  | ErrBulkLen int
  | ErrBulkTail bytes
  | ErrFirstLine bytes
  | ErrPath bytes
  | ErrHeader bytes
  | ErrContentLength bytes
  | ErrStage int

section \<open>readByteAndNumberCrLf\<close>

definition readByteAndNumberCrLf :: "byte \<Rightarrow> bytes \<Rightarrow> (int \<times> nat \<times> go_error option) option" where
  "readByteAndNumberCrLf head inp =
     (if length inp < 4 then Some (0, 0, Some ErrWaitMore)
      else if inp ! 0 \<noteq> head then Some (0, 0, None)
      else case bindex crlf inp of
        None \<Rightarrow> Some (0, 0, Some ErrWaitMore)
      | Some idx \<Rightarrow> do {
          s \<leftarrow> gslice inp 1 (int idx);
          (case parse_int s of
             (v, Some e) \<Rightarrow> Some (0, 0, Some (ErrNum e s))
           | (v, None) \<Rightarrow> Some (v, idx + 2, None)) })"

section \<open>UnescapeInplace\<close>

definition hex_val :: "byte \<Rightarrow> nat option" where
  "hex_val c =
     (if 48 \<le> c \<and> c \<le> 57 then Some (unat c - 48)
      else if 97 \<le> c \<and> c \<le> 102 then Some (unat c - 87)
      else if 65 \<le> c \<and> c \<le> 70 then Some (unat c - 55)
      else None)"

text \<open>
  \<open>hex.Decode(dst[0:1], [p, q])\<close>: one byte is written if both digits are valid, and
  none otherwise, so the destination keeps its old byte \<open>d\<close>.
\<close>

definition hex_decode1 :: "byte \<Rightarrow> byte \<Rightarrow> byte \<Rightarrow> byte" where
  "hex_decode1 d p q = (case (hex_val p, hex_val q) of
       (Some a, Some b) \<Rightarrow> word_of_nat (a * 16 + b)
     | _ \<Rightarrow> d)"

function unescape_loop :: "bool \<Rightarrow> nat \<Rightarrow> nat \<Rightarrow> bytes \<Rightarrow> bytes \<times> nat" where
  "unescape_loop plusSpace i x s =
     (if i < length s then
        if s ! i = 37 then
          (if int i < int (length s) - 2
           then unescape_loop plusSpace (i + 3) (x + 1)
                  (s[x := hex_decode1 (s ! x) (s ! (i + 1)) (s ! (i + 2))])
           else unescape_loop plusSpace (i + 1) (x + 1) s)
        else if s ! i = 43 then
          unescape_loop plusSpace (i + 1) (x + 1) (s[x := (if plusSpace then 32 else 43)])
        else unescape_loop plusSpace (i + 1) (x + 1) (s[x := s ! i])
      else (s, x))"
  by pat_completeness auto
termination
  by (relation "measure (\<lambda>(p, i, x, s). length s - i)") auto

declare unescape_loop.simps [simp del]

text \<open>The bytes after the call, and the length \<open>x\<close> of the returned prefix \<open>s[:x]\<close>.\<close>

definition UnescapeInplace :: "bytes \<Rightarrow> bool \<Rightarrow> bytes \<times> nat" where
  "UnescapeInplace s plusSpace = unescape_loop plusSpace 0 0 s"

definition unescaped :: "bytes \<Rightarrow> bool \<Rightarrow> bytes" where
  "unescaped s plusSpace = (let (s', x) = UnescapeInplace s plusSpace in take x s')"

section \<open>netHTTPResponseWriter\<close>

record net_http_response_writer =
  rw_code :: int
  rw_header :: "(bytes \<times> bytes list) list option"
  rw_body :: bytes

definition StatusCode :: "net_http_response_writer \<Rightarrow> int" where
  "StatusCode w = (if rw_code w = 0 then 200 else rw_code w)"

definition rw_Header :: "net_http_response_writer \<Rightarrow>
    net_http_response_writer \<times> (bytes \<times> bytes list) list" where
  "rw_Header w = (case rw_header w of
       None \<Rightarrow> (w\<lparr>rw_header := Some []\<rparr>, [])
     | Some h \<Rightarrow> (w, h))"

definition WriteHeader :: "int \<Rightarrow> net_http_response_writer \<Rightarrow> net_http_response_writer" where
  "WriteHeader statusCode w = w\<lparr>rw_code := statusCode\<rparr>"

definition rw_Write :: "bytes \<Rightarrow> net_http_response_writer \<Rightarrow> net_http_response_writer \<times> nat" where
  "rw_Write p w = (w\<lparr>rw_body := rw_body w @ p\<rparr>, length p)"

section \<open>Header lines\<close>

lemma head_not_cr_index:
  assumes "inp ! 0 \<noteq> 13" and "bindex crlf inp = Some idx"
  shows "1 \<le> idx"
proof (rule ccontr)
  assume "\<not> 1 \<le> idx"
  then have "idx = 0" by simp
  with bindex_at [OF assms(2)] have "take 2 inp = crlf" by simp
  then have "inp ! 0 = 13" by (cases inp; simp add: crlf_def)
  with assms(1) show False by simp
qed

lemma readByteAndNumberCrLf_total:
  assumes "head \<noteq> 13"
  shows "readByteAndNumberCrLf head inp \<noteq> None"
proof (cases "bindex crlf inp")
  case None
  then show ?thesis by (simp add: readByteAndNumberCrLf_def)
next
  case (Some idx)
  have "inp ! 0 = head \<Longrightarrow> 1 \<le> idx" using head_not_cr_index Some assms by blast
  moreover have "idx + 2 \<le> length inp" using bindex_bound [OF Some] by simp
  ultimately show ?thesis using Some
    by (auto simp: readByteAndNumberCrLf_def gslice_def split: prod.splits option.splits)
qed

lemma readByteAndNumberCrLf_append:
  assumes "readByteAndNumberCrLf head inp = Some (v, w, e)" and "e \<noteq> Some ErrWaitMore"
  shows "readByteAndNumberCrLf head (inp @ rest) = Some (v, w, e)"
proof -
  have len: "4 \<le> length inp" using assms by (auto simp: readByteAndNumberCrLf_def split: if_splits)
  then have nth0: "(inp @ rest) ! 0 = inp ! 0" by (cases inp) auto
  show ?thesis
  proof (cases "inp ! 0 = head")
    case False
    with assms len nth0 show ?thesis by (simp add: readByteAndNumberCrLf_def)
  next
    case True
    with assms len obtain idx where idx: "bindex crlf inp = Some idx"
      by (cases "bindex crlf inp") (auto simp: readByteAndNumberCrLf_def)
    have "gslice inp 1 (int idx) \<noteq> None"
      using assms(1) len True idx by (auto simp: readByteAndNumberCrLf_def split: bind_splits)
    then obtain s where s: "gslice inp 1 (int idx) = Some s" by auto
    show ?thesis
      using assms(1) len True nth0 idx s bindex_append [OF idx] gslice_append [OF s]
      by (simp add: readByteAndNumberCrLf_def)
  qed
qed

lemma readByteAndNumberCrLf_line:
  assumes "fits64 v" and "head \<noteq> 13"
  shows "readByteAndNumberCrLf head (head # format_int 10 v @ crlf @ rest)
           = Some (v, length (format_int 10 v) + 3, None)"
proof -
  let ?n = "length (format_int 10 v)"
  have "bindex crlf ((head # format_int 10 v) @ crlf @ rest) = Some (Suc ?n)"
    using bindex_crlf_line [of "head # format_int 10 v" rest] assms(2) format_int_no_cr by simp
  moreover have "gslice (head # format_int 10 v @ crlf @ rest) 1 (int (Suc ?n)) = Some (format_int 10 v)"
    using gslice_nat [of "head # format_int 10 v @ crlf @ rest" 1 "Suc ?n"] by simp
  moreover have "1 \<le> ?n" by (simp add: Suc_leI)
  ultimately show ?thesis
    using parse_int_format [OF assms(1)] by (simp add: readByteAndNumberCrLf_def)
qed

text \<open>What a success means: the bytes used are the head byte, a number and CRLF.\<close>

lemma readByteAndNumberCrLf_success:
  assumes "readByteAndNumberCrLf head inp = Some (v, w, None)" and "0 < w"
  shows "3 \<le> w" and "w \<le> length inp" and "inp ! 0 = head" and "fits64 v"
    and "take 2 (drop (w - 2) inp) = crlf"
proof -
  from assms obtain idx s where idx: "bindex crlf inp = Some idx" "gslice inp 1 (int idx) = Some s"
    and v: "parse_int s = (v, None)" "w = idx + 2" and h: "inp ! 0 = head"
    by (auto simp: readByteAndNumberCrLf_def split: if_splits option.splits prod.splits bind_splits)
  show "inp ! 0 = head" by (rule h)
  show "3 \<le> w" using idx(2) v(2) by (auto simp: gslice_def split: if_splits)
  show "w \<le> length inp" using bindex_bound [OF idx(1)] v(2) by simp
  show "fits64 v" using parse_int_fits [of s] v(1) by simp
  show "take 2 (drop (w - 2) inp) = crlf" using bindex_at [OF idx(1)] v(2) by simp
qed

section \<open>Percent-decoding in place\<close>

text \<open>
  The reference decoder reads the original bytes only. An escape that is cut short
  by the end, or whose digits are not hexadecimal, yields the byte that stands in the
  original at the position being written.
\<close>

fun unescape_ref :: "bool \<Rightarrow> bytes \<Rightarrow> bytes \<Rightarrow> bytes" where
  "unescape_ref ps orig [] = []"
| "unescape_ref ps orig (c # cs) =
     (if c = 37 then
        (case cs of
           h # l # r \<Rightarrow> hex_decode1 (hd orig) h l # unescape_ref ps (tl orig) r
         | _ \<Rightarrow> hd orig # unescape_ref ps (tl orig) cs)
      else (if c = 43 \<and> ps then 32 else c) # unescape_ref ps (tl orig) cs)"

lemma unescape_loop_ref:
  assumes "x \<le> i" and "i \<le> length s" and "unescape_loop ps i x s = (s', x')"
  shows "length s' = length s \<and> x \<le> x' \<and> x' \<le> length s
    \<and> take x' s' = take x s @ unescape_ref ps (drop x s) (drop i s)"
  using assms
proof (induction ps i x s rule: unescape_loop.induct)
  case (1 ps i x s)
  note eq = unescape_loop.simps [of ps i x s]
  show ?case
  proof (cases "i < length s")
    case False
    with "1.prems" eq show ?thesis by simp
  next
    case True
    then have dr: "drop i s = s ! i # drop (i + 1) s" by (simp add: Cons_nth_drop_Suc)
    have x: "x < length s" using True "1.prems" by simp
    have step: "take x' s' = take x s @ unescape_ref ps (drop x s) (drop i s)"
      if "take x' s' = take (x + 1) (s[x := b]) @ unescape_ref ps (drop (x + 1) (s[x := b])) (drop j (s[x := b]))"
        and "unescape_ref ps (drop x s) (drop i s) = b # unescape_ref ps (drop (x + 1) s) (drop j s)"
        and "x < j" for b j
      using that x by (simp add: take_Suc_conv_app_nth)
    have hd: "hd (drop x s) = s ! x" and tl: "tl (drop x s) = drop (x + 1) s"
      using x by (simp_all add: hd_drop_conv_nth tl_drop drop_Suc)
    show ?thesis
    proof (cases "s ! i = 37")
      case esc: True
      show ?thesis
      proof (cases "int i < int (length s) - 2")
        case long: True
        let ?b = "hex_decode1 (s ! x) (s ! (i + 1)) (s ! (i + 2))"
        have "drop (i + 1) s = s ! (i + 1) # s ! (i + 2) # drop (i + 3) s"
          using long Cons_nth_drop_Suc [of "i + 1" s] Cons_nth_drop_Suc [of "i + 2" s]
          by (simp add: numeral_3_eq_3)
        then have ref: "unescape_ref ps (drop x s) (drop i s) = ?b # unescape_ref ps (drop (x + 1) s) (drop (i + 3) s)"
          using dr esc hd tl by simp
        have rec: "unescape_loop ps (i + 3) (x + 1) (s[x := ?b]) = (s', x')"
          using "1.prems"(3) eq True esc long by simp
        have ih: "length s' = length s \<and> x + 1 \<le> x' \<and> x' \<le> length s \<and> take x' s' =
            take (x + 1) (s[x := ?b]) @ unescape_ref ps (drop (x + 1) (s[x := ?b])) (drop (i + 3) (s[x := ?b]))"
          using "1.IH"(1) [OF True esc long _ _ rec] "1.prems"(1) long by simp
        have "take x' s' = take x s @ unescape_ref ps (drop x s) (drop i s)"
          by (rule step [OF _ ref]) (use ih "1.prems"(1) in auto)
        with ih show ?thesis by simp
      next
        case short: False
        then have "drop (i + 1) s = [] \<or> (\<exists>h. drop (i + 1) s = [h])"
          using True by (cases "drop (i + 1) s"; cases "tl (drop (i + 1) s)") (auto dest: arg_cong [of _ _ length])
        then have ref: "unescape_ref ps (drop x s) (drop i s) = s ! x # unescape_ref ps (drop (x + 1) s) (drop (i + 1) s)"
          using dr esc hd tl by (elim disjE exE) simp_all
        have rec: "unescape_loop ps (i + 1) (x + 1) s = (s', x')"
          using "1.prems"(3) eq True esc short by simp
        have ih: "length s' = length s \<and> x + 1 \<le> x' \<and> x' \<le> length s \<and> take x' s' =
            take (x + 1) s @ unescape_ref ps (drop (x + 1) s) (drop (i + 1) s)"
          using "1.IH"(2) [OF True esc short _ _ rec] "1.prems"(1) True by simp
        have "take x' s' = take x s @ unescape_ref ps (drop x s) (drop i s)"
          by (rule step [OF _ ref]) (use ih "1.prems"(1) in auto)
        with ih show ?thesis by simp
      qed
    next
      case lit: False
      let ?b = "if s ! i = 43 \<and> ps then 32 else s ! i"
      have ref: "unescape_ref ps (drop x s) (drop i s) = ?b # unescape_ref ps (drop (x + 1) s) (drop (i + 1) s)"
        using dr lit tl by simp
      have rec: "unescape_loop ps (i + 1) (x + 1) (s[x := ?b]) = (s', x')"
        using "1.prems"(3) eq True lit by (cases "s ! i = 43"; cases ps) simp_all
      have ih: "length s' = length s \<and> x + 1 \<le> x' \<and> x' \<le> length s \<and> take x' s' =
            take (x + 1) (s[x := ?b]) @ unescape_ref ps (drop (x + 1) (s[x := ?b])) (drop (i + 1) (s[x := ?b]))"
        using "1.IH"(3,4) [OF True lit] "1.prems"(1) True rec by (cases "s ! i = 43"; cases ps) simp_all
      have "take x' s' = take x s @ unescape_ref ps (drop x s) (drop i s)"
        by (rule step [OF _ ref]) (use ih "1.prems"(1) in auto)
      with ih show ?thesis by simp
    qed
  qed
qed

lemma UnescapeInplace_shape:
  assumes "UnescapeInplace s ps = (s', x)"
  shows "length s' = length s" and "x \<le> length s" and "take x s' = unescape_ref ps s s"
  using unescape_loop_ref [of 0 0 s ps s' x] assms by (simp_all add: UnescapeInplace_def)

section \<open>Percent-encoding (url.QueryEscape)\<close>

definition unreserved :: "byte \<Rightarrow> bool" where
  "unreserved c \<longleftrightarrow> (48 \<le> c \<and> c \<le> 57) \<or> (65 \<le> c \<and> c \<le> 90) \<or> (97 \<le> c \<and> c \<le> 122)
     \<or> c = 45 \<or> c = 95 \<or> c = 46 \<or> c = 126"

definition upper_hex :: "nat \<Rightarrow> byte" where
  "upper_hex d = (if d < 10 then word_of_nat (48 + d) else word_of_nat (55 + d))"

definition escape_byte :: "byte \<Rightarrow> bytes" where
  "escape_byte c =
     (if c = 32 then [43]
      else if unreserved c then [c]
      else [37, upper_hex (unat c div 16), upper_hex (unat c mod 16)])"

definition QueryEscape :: "bytes \<Rightarrow> bytes" where
  "QueryEscape s = concat (map escape_byte s)"

lemma hex_val_upper_hex: "d < 16 \<Longrightarrow> hex_val (upper_hex d) = Some d"
proof -
  have "\<forall>d \<in> set [0..<16]. hex_val (upper_hex d) = Some d" by code_simp
  then show "d < 16 \<Longrightarrow> hex_val (upper_hex d) = Some d" by simp
qed

lemma hex_decode1_upper_hex:
  "hex_decode1 d (upper_hex (unat c div 16)) (upper_hex (unat c mod 16)) = (c :: byte)"
proof -
  have "unat c < 2 ^ LENGTH(8)" by (rule unsigned_less)
  then have "hex_val (upper_hex (unat c div 16)) = Some (unat c div 16)"
    and "hex_val (upper_hex (unat c mod 16)) = Some (unat c mod 16)"
    by (simp_all add: hex_val_upper_hex less_mult_imp_div_less)
  then show ?thesis by (simp add: hex_decode1_def)
qed

lemma unescape_ref_QueryEscape: "unescape_ref True orig (QueryEscape s) = s"
proof (induction s arbitrary: orig)
  case Nil
  then show ?case by (simp add: QueryEscape_def)
next
  case (Cons c s)
  have "unreserved c \<Longrightarrow> c \<noteq> 37 \<and> c \<noteq> 43" by (auto simp: unreserved_def)
  with Cons [of "tl orig"] show ?case
    by (auto simp: QueryEscape_def escape_byte_def hex_decode1_upper_hex)
qed

end
