(* ===== verification/HTTP_Request.thy ===== *)
theory HTTP_Request
  imports Resh_Util
begin

text \<open>
  http.go, the request side: the struct \<open>HTTP\<close>, the parser of the request line and of
  the header lines (\<open>HTTP.parse\<close>), and the accessors that scan the request again
  (\<open>Method\<close>, \<open>Body\<close>, \<open>ForeachHeader\<close>, \<open>GetHeader\<close>, \<open>ForeachQuery\<close>, \<open>URL\<close>).
  The parser and two of the accessors change the request bytes in place, so each
  returns the struct with its bytes as they are afterwards. The field \<open>Conn\<close> is the
  connection the listener passes beside the request; \<open>qmap\<close> caches the pairs
  \<open>ForeachQuery\<close> yields in a third-party map. \<open>RequestMaxBytes\<close> (a variable of the
  package) and \<open>url.Parse\<close> (used for a target that does not start with a slash) are
  arguments.
\<close>

section \<open>The request\<close>

record http =
  http_host :: bytes
  http_path :: bytes
  http_data :: bytes
  qStart :: u16
  qEnd :: u16
  hdrLen :: u32
  bodyLen :: u32
  wsUpgrade :: bool
  chunked :: bool
  chkbuf :: bytes

definition new_http :: http where
  "new_http = \<lparr>http_host = [], http_path = [], http_data = [], qStart = 0, qEnd = 0,
     hdrLen = 0, bodyLen = 0, wsUpgrade = False, chunked = False, chkbuf = []\<rparr>"

type_synonym url_parser = "bytes \<Rightarrow> (bytes \<times> bytes) option"

section \<open>Library functions used by the parser\<close>

text \<open>
  The UTF-8 encodings of the code points that \<open>unicode.IsSpace\<close> accepts, which
  \<open>bytes.TrimSpace\<close> strips at both ends.
\<close>

definition space_runes :: "bytes list" where
  "space_runes =
     [[9], [10], [11], [12], [13], [32], [0xC2, 0x85], [0xC2, 0xA0], [0xE1, 0x9A, 0x80],
      [0xE2, 0x80, 0x80], [0xE2, 0x80, 0x81], [0xE2, 0x80, 0x82], [0xE2, 0x80, 0x83],
      [0xE2, 0x80, 0x84], [0xE2, 0x80, 0x85], [0xE2, 0x80, 0x86], [0xE2, 0x80, 0x87],
      [0xE2, 0x80, 0x88], [0xE2, 0x80, 0x89], [0xE2, 0x80, 0x8A], [0xE2, 0x80, 0xA8],
      [0xE2, 0x80, 0xA9], [0xE2, 0x80, 0xAF], [0xE2, 0x81, 0x9F], [0xE3, 0x80, 0x80]]"

definition lead_space :: "bytes list \<Rightarrow> bytes \<Rightarrow> nat" where
  "lead_space rs s = (case find (\<lambda>r. prefix r s) rs of None \<Rightarrow> 0 | Some r \<Rightarrow> length r)"

function trim_left :: "bytes list \<Rightarrow> bytes \<Rightarrow> bytes" where
  "trim_left rs s =
     (let k = lead_space rs s in if 0 < k \<and> s \<noteq> [] then trim_left rs (drop k s) else s)"
  by pat_completeness auto
termination
  by (relation "measure (\<lambda>(rs, s). length s)") auto

declare trim_left.simps [simp del]

definition TrimSpace :: "bytes \<Rightarrow> bytes" where
  "TrimSpace s = rev (trim_left (map rev space_runes) (rev (trim_left space_runes s)))"

definition to_lower :: "byte \<Rightarrow> byte" where
  "to_lower c = (if 65 \<le> c \<and> c \<le> 90 then c - 65 + 97 else c)"

definition to_upper :: "byte \<Rightarrow> byte" where
  "to_upper c = (if 97 \<le> c \<and> c \<le> 122 then c - 97 + 65 else c)"

text \<open>
  \<open>strings.EqualFold(s, t)\<close> for an ASCII \<open>t\<close>: equal up to ASCII case, and the two
  code points outside ASCII that fold to a letter, U+017F (to s) and U+212A (to k).
\<close>

fun EqualFold :: "bytes \<Rightarrow> bytes \<Rightarrow> bool" where
  "EqualFold s [] \<longleftrightarrow> s = []"
| "EqualFold s (c # cs) \<longleftrightarrow>
     (s \<noteq> [] \<and> to_lower (hd s) = to_lower c \<and> EqualFold (tl s) cs)
     \<or> (to_lower c = 115 \<and> prefix [0xC5, 0xBF] s \<and> EqualFold (drop 2 s) cs)
     \<or> (to_lower c = 107 \<and> prefix [0xE2, 0x84, 0xAA] s \<and> EqualFold (drop 3 s) cs)"

section \<open>HTTP.parse\<close>

text \<open>The query part of the target \<open>uri\<close>, which lies between the two spaces.\<close>

definition mark_query :: "http \<Rightarrow> nat \<Rightarrow> nat \<Rightarrow> bytes \<Rightarrow> http \<times> bytes" where
  "mark_query r idx0 idx1 uri =
     (case index_byte 63 uri of
        Some q \<Rightarrow> (r\<lparr>qStart := word_of_nat (idx0 + 1 + q + 1), qEnd := word_of_nat idx1\<rparr>, take q uri)
      | None \<Rightarrow> (r, uri))"

text \<open>A target that is not a path is an absolute URI.\<close>

definition resolve_target :: "url_parser \<Rightarrow> http \<Rightarrow> nat \<Rightarrow> http \<times> go_error option" where
  "resolve_target url_parse r n =
     (if \<not> prefix (bs ''/'') (http_path r) then
        (case url_parse (http_path r) of
           None \<Rightarrow> (r, Some (ErrPath (take n (http_data r))))
         | Some (p, h) \<Rightarrow> (r\<lparr>http_path := p, http_host := h\<rparr>, None))
      else (r, None))"

text \<open>The request line: \<open>line\<close> is the first line of the data.\<close>

definition parse_first_line :: "url_parser \<Rightarrow> http \<Rightarrow> bytes \<Rightarrow> http \<times> go_error option" where
  "parse_first_line url_parse r line =
     (case (index_byte 32 line, last_index_byte 32 line) of
        (Some idx0, Some idx1) \<Rightarrow>
          if idx0 = idx1 \<or> int idx1 > 0xffff then (r, Some (ErrFirstLine line))
          else
            (let (r1, uri) = mark_query r idx0 idx1 (take (idx1 - (idx0 + 1)) (drop (idx0 + 1) line));
                 (uri', x) = UnescapeInplace uri False
             in resolve_target url_parse
                  (r1\<lparr>http_data := overwrite (http_data r1) (idx0 + 1) uri', http_path := take x uri'\<rparr>)
                  (length line))
      | _ \<Rightarrow> (r, Some (ErrFirstLine line)))"

text \<open>The headers the server itself looks at.\<close>

definition apply_header :: "int \<Rightarrow> http \<Rightarrow> bytes \<Rightarrow> bytes \<Rightarrow> http \<times> go_error option" where
  "apply_header RequestMaxBytes r key value =
     (if key = bs ''upgrade'' then (r\<lparr>wsUpgrade := EqualFold value (bs ''websocket'')\<rparr>, None)
      else if key = bs ''host'' then (r\<lparr>http_host := value\<rparr>, None)
      else if key = bs ''content-length'' then
        (case atoi value of (cl, e) \<Rightarrow>
           if cl > RequestMaxBytes \<or> cl < 0 \<or> e \<noteq> None
           then (r, Some (ErrContentLength value))
           else (r\<lparr>bodyLen := word_of_int cl\<rparr>, None))
      else (r, None))"

text \<open>A header line that starts at \<open>start\<close>; its key is put in lower case in place.\<close>

definition parse_header_line :: "int \<Rightarrow> http \<Rightarrow> nat \<Rightarrow> bytes \<Rightarrow> http \<times> go_error option" where
  "parse_header_line RequestMaxBytes r start line =
     (case index_byte 58 line of
        None \<Rightarrow> (r, Some (ErrHeader line))
      | Some idx \<Rightarrow>
          if idx < 1 then (r, Some (ErrHeader line))
          else
            (let key = map to_lower (take idx line)
             in apply_header RequestMaxBytes (r\<lparr>http_data := overwrite (http_data r) start key\<rparr>)
                  key (TrimSpace (drop (idx + 1) line))))"

definition parse_line :: "url_parser \<Rightarrow> int \<Rightarrow> http \<Rightarrow> nat \<Rightarrow> bytes \<Rightarrow> http \<times> go_error option" where
  "parse_line url_parse RequestMaxBytes r start line =
     (if start = 0 then parse_first_line url_parse r line
      else parse_header_line RequestMaxBytes r start line)"

lemma mark_query_shape:
  assumes "mark_query r idx0 idx1 uri = (r1, uri1)"
  shows "http_data r1 = http_data r" and "length uri1 \<le> length uri"
  using assms by (auto simp: mark_query_def split: option.splits)

lemma resolve_target_data:
  "resolve_target url_parse r n = (r', e) \<Longrightarrow> http_data r' = http_data r"
  by (auto simp: resolve_target_def split: if_splits option.splits)

lemma parse_first_line_data:
  assumes "parse_first_line url_parse r line = (r', e)" and "length line \<le> k" and "k \<le> length (http_data r)"
  shows "length (http_data r') = length (http_data r) \<and> drop k (http_data r') = drop k (http_data r)"
proof (cases "\<exists>idx0 idx1. index_byte 32 line = Some idx0 \<and> last_index_byte 32 line = Some idx1
    \<and> \<not> (idx0 = idx1 \<or> int idx1 > 0xffff)")
  case False
  with assms show ?thesis by (auto simp: parse_first_line_def split: option.splits if_splits)
next
  case True
  then obtain idx0 idx1 where idx: "index_byte 32 line = Some idx0" "last_index_byte 32 line = Some idx1"
      "\<not> (idx0 = idx1 \<or> int idx1 > 0xffff)" by blast
  define uri where "uri = take (idx1 - (idx0 + 1)) (drop (idx0 + 1) line)"
  obtain r1 uri1 where u1: "mark_query r idx0 idx1 uri = (r1, uri1)" by fastforce
  obtain uri2 x where u2: "UnescapeInplace uri1 False = (uri2, x)" by fastforce
  have b: "idx0 < length line" "idx1 < length line"
    using index_byte_bound [OF idx(1)] last_index_byte_bound [OF idx(2)] by simp_all
  have "length uri2 \<le> length uri"
    using UnescapeInplace_shape(1) [OF u2] mark_query_shape(2) [OF u1] by simp
  also have "\<dots> \<le> length line - (idx0 + 1)" using b by (simp add: uri_def)
  finally have "idx0 + 1 + length uri2 \<le> k" using assms(2) b by linarith
  moreover have "http_data r' = overwrite (http_data r) (idx0 + 1) uri2"
    using assms(1) idx u1 u2 mark_query_shape(1) [OF u1]
    by (auto simp: parse_first_line_def Let_def uri_def dest: resolve_target_data)
  ultimately show ?thesis using assms(3) by (simp add: drop_overwrite)
qed

lemma apply_header_data:
  "apply_header maxb r key value = (r', e) \<Longrightarrow> http_data r' = http_data r"
  by (auto simp: apply_header_def split: if_splits prod.splits)

lemma parse_header_line_data:
  assumes "parse_header_line maxb r start line = (r', e)" and "start + length line \<le> k" and "k \<le> length (http_data r)"
  shows "length (http_data r') = length (http_data r) \<and> drop k (http_data r') = drop k (http_data r)"
proof (cases "index_byte 58 line")
  case None
  with assms show ?thesis by (simp add: parse_header_line_def)
next
  case (Some idx)
  let ?key = "map to_lower (take idx line)"
  have "idx < length line" using index_byte_bound [OF Some] by simp
  then have "start + length ?key \<le> k" using assms(2) by simp
  moreover have "http_data r' = http_data r \<or> http_data r' = overwrite (http_data r) start ?key"
    using assms(1) Some by (auto simp: parse_header_line_def Let_def split: if_splits dest!: apply_header_data)
  ultimately show ?thesis using assms(3) by (auto simp: drop_overwrite)
qed

lemma parse_line_data:
  assumes "parse_line url_parse maxb r start line = (r', e)" and "start + length line \<le> k" and "k \<le> length (http_data r)"
  shows "length (http_data r') = length (http_data r) \<and> drop k (http_data r') = drop k (http_data r)"
proof (cases "start = 0")
  case True
  with assms show ?thesis using parse_first_line_data [of url_parse r line r' e k] by (simp add: parse_line_def)
next
  case False
  with assms show ?thesis using parse_header_line_data [of maxb r start line r' e k] by (simp add: parse_line_def)
qed

text \<open>
  The loop over the lines. An index of -1 makes the slice \<open>r.data[start : start+idx]\<close>
  end before it starts, which is a panic.
\<close>

function parse_loop :: "url_parser \<Rightarrow> int \<Rightarrow> http \<Rightarrow> nat \<Rightarrow> (http \<times> go_error option) option" where
  "parse_loop url_parse RequestMaxBytes r start =
     (if start < length (http_data r) then
        (case bindex crlf (drop start (http_data r)) of
           None \<Rightarrow> None
         | Some idx \<Rightarrow>
             if idx = 0 then Some (r, None)
             else
               (case parse_line url_parse RequestMaxBytes r start (take idx (drop start (http_data r))) of
                  (r', Some e) \<Rightarrow> Some (r', Some e)
                | (r', None) \<Rightarrow> parse_loop url_parse RequestMaxBytes r' (start + idx + 2)))
      else Some (r, None))"
  by pat_completeness auto
termination
proof (relation "measure (\<lambda>(u, m, r, start). length (http_data r) - start)")
  fix u :: url_parser and m r start idx r' and z :: "go_error option"
  assume a: "start < length (http_data r)" "bindex crlf (drop start (http_data r)) = Some idx" "idx \<noteq> 0"
    "(r', z) = parse_line u m r start (take idx (drop start (http_data r)))"
  have "length (http_data r') = length (http_data r)"
    using parse_line_data [OF a(4) [symmetric], of "length (http_data r)"] a(1) bindex_bound [OF a(2)] by simp
  with a show "((u, m, r', start + idx + 2), u, m, r, start) \<in> measure (\<lambda>(u, m, r, start). length (http_data r) - start)"
    by auto
qed auto

declare parse_loop.simps [simp del]

definition http_parse :: "url_parser \<Rightarrow> int \<Rightarrow> http \<Rightarrow> (http \<times> go_error option) option" where
  "http_parse url_parse RequestMaxBytes r =
     parse_loop url_parse RequestMaxBytes (r\<lparr>hdrLen := word_of_nat (length (http_data r))\<rparr>) 0"

section \<open>Accessors\<close>

text \<open>\<open>Method\<close> puts the first word in upper case in place; without a space it panics.\<close>

definition Method :: "http \<Rightarrow> (http \<times> bytes) option" where
  "Method r = (case index_byte 32 (http_data r) of
       None \<Rightarrow> None
     | Some i \<Rightarrow>
         (let m = map to_upper (take i (http_data r))
          in Some (r\<lparr>http_data := overwrite (http_data r) 0 m\<rparr>, m)))"

definition Body :: "http \<Rightarrow> bytes option" where
  "Body r = gslice (http_data r) (int (length (http_data r)) - uint (bodyLen r))
     (int (length (http_data r)))"

text \<open>
  \<open>ForeachHeader\<close> with a callback \<open>f\<close> that updates a state and says whether to go on.
  On the first line an index of -1 only moves \<open>start\<close>; later it is a panic.
\<close>

function foreach_header :: "(bytes \<Rightarrow> bytes \<Rightarrow> 's \<Rightarrow> 's \<times> bool) \<Rightarrow> bytes \<Rightarrow> nat \<Rightarrow> 's \<Rightarrow> 's option" where
  "foreach_header f data start st =
     (if start < length data then
        (case bindex crlf (drop start data) of
           None \<Rightarrow> if start = 0 then foreach_header f data (start + 1) st else None
         | Some idx \<Rightarrow>
             if idx = 0 then Some st
             else if start = 0 then foreach_header f data (start + idx + 2) st
             else
               (let line = take idx (drop start data) in
                case index_byte 58 line of
                  None \<Rightarrow> foreach_header f data (start + idx + 2) st
                | Some i \<Rightarrow>
                    if 0 < i then
                      (case f (take i line) (TrimSpace (drop (i + 1) line)) st of
                         (st', go) \<Rightarrow>
                           if go then foreach_header f data (start + idx + 2) st' else Some st')
                    else foreach_header f data (start + idx + 2) st))
      else Some st)"
  by pat_completeness auto
termination
  by (relation "measure (\<lambda>(f, data, start, st). length data - start)") auto

declare foreach_header.simps [simp del]

definition ForeachHeader :: "(bytes \<Rightarrow> bytes \<Rightarrow> 's \<Rightarrow> 's \<times> bool) \<Rightarrow> http \<Rightarrow> 's \<Rightarrow> 's option" where
  "ForeachHeader f r st = foreach_header f (http_data r) 0 st"

definition GetHeader :: "http \<Rightarrow> bytes \<Rightarrow> bytes option" where
  "GetHeader r key =
     ForeachHeader (\<lambda>k v value. if k = key then (v, False) else (value, True)) r []"

text \<open>
  \<open>ForeachQuery\<close> decodes every key and value in place and passes them to the callback,
  so a call yields the pairs and the query bytes as they are afterwards.
\<close>

function foreach_query :: "bytes \<Rightarrow> bytes \<times> (bytes \<times> bytes) list" where
  "foreach_query query =
     (if query = [] then ([], [])
      else
        (let (part, rest) = cut [38] query;
             (key, val) = cut [61] part;
             (key', kx) = UnescapeInplace key True;
             (val', vx) = UnescapeInplace val True;
             (rest', ps) = foreach_query rest
         in (key' @ take (length part - length key - length val) [61] @ val'
               @ take (length query - length part - length rest) [38] @ rest',
             (take kx key', take vx val') # ps)))"
  by pat_completeness auto
termination
  by (relation "measure length") (auto simp: cut_def split: option.splits prod.splits)

declare foreach_query.simps [simp del]

definition ForeachQuery :: "http \<Rightarrow> (http \<times> (bytes \<times> bytes) list) option" where
  "ForeachQuery r =
     (if qStart r = 0 then Some (r, [])
      else do {
        query \<leftarrow> gslice (http_data r) (uint (qStart r)) (uint (qEnd r));
        let (query', ps) = foreach_query query
        in Some (r\<lparr>http_data := overwrite (http_data r) (unat (qStart r)) query'\<rparr>, ps) })"

text \<open>\<open>URL\<close>: host, path and the raw query rebuilt from the decoded pairs.\<close>

definition http_URL :: "http \<Rightarrow> (http \<times> bytes \<times> bytes \<times> bytes) option" where
  "http_URL r = do {
     (r', ps) \<leftarrow> ForeachQuery r;
     Some (r', http_host r, http_path r,
       concat (map (\<lambda>(k, v). QueryEscape k @ bs ''='' @ QueryEscape v @ bs ''&'') ps)) }"

section \<open>The parser returns on every request head\<close>

text \<open>
  A request head ends with an empty line. \<open>head_end d start\<close>: the scanner at
  \<open>start\<close> is before the last two CRLFs, or at the last one.
\<close>

definition head_end :: "bytes \<Rightarrow> nat \<Rightarrow> bool" where
  "head_end d start \<longleftrightarrow> 4 \<le> length d \<and> drop (length d - 4) d = crlf @ crlf
     \<and> (start \<le> length d - 4 \<or> start = length d - 2)"

lemma head_end_at_end:
  assumes "head_end d (length d - 2)"
  shows "bindex crlf (drop (length d - 2) d) = Some 0"
proof -
  have tail: "drop (length d - 4) d = crlf @ crlf" and n: "4 \<le> length d"
    using assms by (simp_all add: head_end_def)
  have "drop (length d - 2) d = drop 2 (drop (length d - 4) d)"
  proof -
    have "length d - 2 - (length d - 4) = 2" using n by simp
    then show ?thesis using drop_drop_le [of "length d - 4" "length d - 2" d] by (simp only:)
  qed
  then have "drop (length d - 2) d = drop 2 (crlf @ crlf)" unfolding tail .
  then show ?thesis by (simp add: crlf_def)
qed

lemma head_end_next:
  assumes "head_end d start" and "start < length d"
  obtains idx where "bindex crlf (drop start d) = Some idx"
    and "idx = 0 \<or> head_end d (start + idx + 2)"
proof (cases "start = length d - 2")
  case True
  with assms head_end_at_end that show ?thesis by simp
next
  case False
  with assms have le: "start \<le> length d - 4" and tail: "drop (length d - 4) d = crlf @ crlf"
    and n: "4 \<le> length d" by (auto simp: head_end_def)
  let ?n = "length d - 4 - start"
  have "drop ?n (drop start d) = crlf @ crlf" using tail drop_drop_le [OF le, of d] by simp
  then have "prefix crlf (drop ?n (drop start d))" by simp
  then obtain idx where idx: "bindex crlf (drop start d) = Some idx" "idx \<le> ?n"
    using bindex_exists [of crlf ?n "drop start d"] by (metis diff_le_mono2 diff_right_commute diff_le_self length_drop)
  have "start + idx + 2 \<noteq> length d - 3"
  proof
    assume eq: "start + idx + 2 = length d - 3"
    then have k: "length d - 4 = start + idx + 1" and k': "start + idx \<le> length d" using n by simp_all
    have "take 2 (drop (start + idx) d) = crlf"
      using bindex_at [OF idx(1)] by (simp add: add.commute)
    then have "take 2 (drop (start + idx) d) ! 1 = 10" by (simp add: crlf_def)
    then have "d ! (length d - 4) = 10" using k' by (simp add: k)
    moreover have "hd (drop (length d - 4) d) = 13" using tail by (simp add: crlf_def)
    ultimately show False using n by (simp add: hd_drop_conv_nth)
  qed
  with idx le n tail have "head_end d (start + idx + 2)" by (auto simp: head_end_def)
  with idx that show ?thesis by blast
qed

lemma head_end_cong:
  assumes "head_end d start" and "length d' = length d" and "drop k d' = drop k d" and "k \<le> length d - 4"
  shows "head_end d' start"
proof -
  have "drop (length d - 4) d' = drop (length d - 4 - k) (drop k d')"
    by (rule drop_drop_le [OF assms(4), symmetric])
  also have "\<dots> = drop (length d - 4) d" unfolding assms(3) by (rule drop_drop_le [OF assms(4)])
  finally show ?thesis using assms by (simp add: head_end_def)
qed

lemma parse_loop_total:
  "head_end (http_data r) start \<Longrightarrow>
     \<exists>r' e. parse_loop u m r start = Some (r', e) \<and> length (http_data r') = length (http_data r)"
proof (induction u m r start rule: parse_loop.induct)
  case (1 u m r start)
  let ?d = "http_data r"
  show ?case
  proof (cases "start < length ?d")
    case False
    then show ?thesis by (simp add: parse_loop.simps [of u m r start])
  next
    case True
    obtain idx where idx: "bindex crlf (drop start ?d) = Some idx"
      and nxt: "idx = 0 \<or> head_end ?d (start + idx + 2)"
      using head_end_next [OF "1.prems" True] .
    show ?thesis
    proof (cases "idx = 0")
      case True
      with \<open>start < length ?d\<close> idx show ?thesis by (simp add: parse_loop.simps [of u m r start])
    next
      case False
      obtain r' e where pl: "parse_line u m r start (take idx (drop start ?d)) = (r', e)" by fastforce
      have bnd: "start + idx + 2 \<le> length ?d" using bindex_bound [OF idx] True by simp
      have len: "length (http_data r') = length ?d"
        using parse_line_data [OF pl, of "length ?d"] bnd by simp
      show ?thesis
      proof (cases e)
        case (Some err)
        with True idx False pl len show ?thesis by (simp add: parse_loop.simps [of u m r start])
      next
        case None
        have "start + idx + 2 \<le> length ?d - 4 \<or> start + idx + 2 = length ?d - 2"
          using nxt False by (simp add: head_end_def)
        then have "start + idx \<le> length ?d - 4" using bnd "1.prems" by (auto simp: head_end_def)
        then have "head_end (http_data r') (start + idx + 2)"
          using head_end_cong [of ?d "start + idx + 2" "http_data r'" "start + idx"] nxt False len
            parse_line_data [OF pl, of "start + idx"] bnd by simp
        with "1.IH" [OF True idx False] pl None len True idx False show ?thesis
          by (auto simp: parse_loop.simps [of u m r start])
      qed
    qed
  qed
qed

lemma http_parse_total:
  assumes "4 \<le> length (http_data r)" and "drop (length (http_data r) - 4) (http_data r) = crlf @ crlf"
  shows "\<exists>r' e. http_parse u m r = Some (r', e) \<and> length (http_data r') = length (http_data r)"
  using parse_loop_total [of "r\<lparr>hdrLen := word_of_nat (length (http_data r))\<rparr>" 0 u m] assms
  by (simp add: http_parse_def head_end_def)

section \<open>Requests as lists of lines\<close>

text \<open>
  The reference view of a request head: a list of non-empty lines without a carriage
  return, each followed by CRLF, and an empty line. \<open>parse_headers\<close> folds over the
  header lines without looking at offsets.
\<close>

definition plain_line :: "bytes \<Rightarrow> bool" where
  "plain_line l \<longleftrightarrow> l \<noteq> [] \<and> 13 \<notin> set l"

definition lines_text :: "bytes list \<Rightarrow> bytes" where
  "lines_text ls = concat (map (\<lambda>l. l @ crlf) ls)"

definition header_pair :: "bytes \<Rightarrow> (bytes \<times> bytes) option" where
  "header_pair l = (case index_byte 58 l of
       None \<Rightarrow> None
     | Some i \<Rightarrow> if i < 1 then None
                  else Some (map to_lower (take i l), TrimSpace (drop (i + 1) l)))"

definition lower_line :: "bytes \<Rightarrow> bytes" where
  "lower_line l = (case index_byte 58 l of
       None \<Rightarrow> l | Some i \<Rightarrow> map to_lower (take i l) @ drop i l)"

fun parse_headers :: "int \<Rightarrow> http \<Rightarrow> bytes list \<Rightarrow> http \<times> go_error option" where
  "parse_headers m r [] = (r, None)"
| "parse_headers m r (l # ls) =
     (case header_pair l of
        None \<Rightarrow> (r, Some (ErrHeader l))
      | Some (k, v) \<Rightarrow>
          (case apply_header m r k v of
             (r', Some e) \<Rightarrow> (r', Some e)
           | (r', None) \<Rightarrow> parse_headers m r' ls))"

lemma lines_text_simps [simp]:
  "lines_text [] = []" "lines_text (l # ls) = l @ crlf @ lines_text ls"
  by (simp_all add: lines_text_def)

lemma apply_header_set_data:
  "apply_header m (r\<lparr>http_data := d\<rparr>) k v =
     ((fst (apply_header m r k v))\<lparr>http_data := d\<rparr>, snd (apply_header m r k v))"
  by (simp add: apply_header_def split: prod.split)

lemma length_lower_line [simp]: "length (lower_line l) = length l"
  by (auto simp: lower_line_def split: option.splits dest: index_byte_bound)

lemma to_lower_eq_cr: "to_lower c = 13 \<longleftrightarrow> c = 13"
proof -
  have "c = 237" if "c - 65 + 97 = 13"
  proof -
    have "c = (c - 65 + 97) - 32" by simp
    also have "\<dots> = 237" unfolding that by simp
    finally show ?thesis .
  qed
  then show ?thesis by (auto simp: to_lower_def)
qed

lemma to_lower_eq_colon: "to_lower c = 58 \<longleftrightarrow> c = 58"
proof -
  have "c = 26" if "c - 65 + 97 = 58"
  proof -
    have "c = (c - 65 + 97) - 32" by simp
    also have "\<dots> = 26" unfolding that by simp
    finally show ?thesis .
  qed
  then show ?thesis by (auto simp: to_lower_def)
qed

lemma cr_in_map_to_lower: "13 \<in> set (map to_lower xs) \<longleftrightarrow> 13 \<in> set xs"
  by (simp add: image_iff) (metis to_lower_eq_cr)

lemma plain_lower_line: "plain_line l \<Longrightarrow> plain_line (lower_line l)"
proof -
  assume l: "plain_line l"
  have "13 \<notin> set (lower_line l)"
    using l cr_in_map_to_lower by (auto simp: plain_line_def lower_line_def simp del: set_map split: option.splits
        dest: in_set_takeD in_set_dropD)
  moreover have "lower_line l \<noteq> []"
    using l length_lower_line [of l] by (auto simp: plain_line_def simp del: length_lower_line)
  ultimately show ?thesis by (simp add: plain_line_def)
qed

lemma parse_header_line_pair:
  assumes "http_data r = pre @ l @ rest"
  shows "parse_header_line m r (length pre) l =
    (case header_pair l of
       None \<Rightarrow> (r, Some (ErrHeader l))
     | Some (k, v) \<Rightarrow> ((fst (apply_header m r k v))\<lparr>http_data := pre @ lower_line l @ rest\<rparr>,
                     snd (apply_header m r k v)))"
proof (cases "index_byte 58 l")
  case None
  then show ?thesis by (simp add: parse_header_line_def header_pair_def)
next
  case (Some i)
  have "i < length l" using index_byte_bound [OF Some] by simp
  then have "overwrite (pre @ l @ rest) (length pre) (map to_lower (take i l)) = pre @ lower_line l @ rest"
    using Some by (simp add: overwrite_def lower_line_def)
  then show ?thesis using Some assms
    by (simp add: parse_header_line_def header_pair_def Let_def apply_header_set_data)
qed

lemma parse_headers_set_data:
  "parse_headers m (r\<lparr>http_data := d\<rparr>) ls =
     ((fst (parse_headers m r ls))\<lparr>http_data := d\<rparr>, snd (parse_headers m r ls))"
proof (induction ls arbitrary: r)
  case Nil
  then show ?case by simp
next
  case (Cons l ls)
  show ?case
  proof (cases "header_pair l")
    case None
    then show ?thesis by simp
  next
    case (Some kv)
    obtain k v where kv: "kv = (k, v)" by fastforce
    obtain r' e where a: "apply_header m r k v = (r', e)" by fastforce
    with Some kv Cons [of r'] show ?thesis by (cases e) (simp_all add: apply_header_set_data)
  qed
qed

text \<open>The scanner over offsets computes the fold over the header lines.\<close>

lemma parse_loop_headers:
  assumes "list_all plain_line ls" and "http_data r = pre @ lines_text ls @ crlf" and "pre \<noteq> []"
  shows "\<exists>d. parse_loop u m r (length pre) =
      Some ((fst (parse_headers m r ls))\<lparr>http_data := d\<rparr>, snd (parse_headers m r ls))
    \<and> length d = length (http_data r)
    \<and> (snd (parse_headers m r ls) = None \<longrightarrow> d = pre @ lines_text (map lower_line ls) @ crlf)"
  using assms
proof (induction ls arbitrary: r pre)
  case Nil
  then have "bindex crlf (drop (length pre) (http_data r)) = Some 0" by (simp add: crlf_def)
  then have "parse_loop u m r (length pre) = Some (r, None)"
    using Nil by (simp add: parse_loop.simps [of u m r "length pre"])
  then show ?case using Nil.prems(2) by (auto intro: exI [of _ "http_data r"])
next
  case (Cons l ls)
  let ?rest = "crlf @ lines_text ls @ crlf"
  have l: "l \<noteq> []" "13 \<notin> set l" using Cons.prems(1) by (simp_all add: plain_line_def)
  have d: "http_data r = pre @ l @ ?rest" using Cons.prems(2) by simp
  have idx: "bindex crlf (drop (length pre) (http_data r)) = Some (length l)"
    using d bindex_crlf_line [OF l(2)] by simp
  have line: "take (length l) (drop (length pre) (http_data r)) = l" using d by simp
  have start: "length pre < length (http_data r)" using d by simp
  note step = parse_loop.simps [of u m r "length pre"]
  have pl: "parse_line u m r (length pre) l = parse_header_line m r (length pre) l"
    using Cons.prems(3) by (simp add: parse_line_def)
  show ?case
  proof (cases "header_pair l")
    case None
    then have "parse_loop u m r (length pre) = Some (r, Some (ErrHeader l))"
      using step start idx line l(1) pl parse_header_line_pair [OF d] by simp
    with None show ?thesis by (auto intro: exI [of _ "http_data r"])
  next
    case (Some kv)
    obtain k v where kv: "kv = (k, v)" by fastforce
    obtain r1 e where a: "apply_header m r k v = (r1, e)" by fastforce
    let ?d1 = "pre @ lower_line l @ ?rest"
    have h: "parse_header_line m r (length pre) l = (r1\<lparr>http_data := ?d1\<rparr>, e)"
      using parse_header_line_pair [OF d] Some kv a by simp
    show ?thesis
    proof (cases e)
      case (Some err)
      then have "parse_loop u m r (length pre) = Some (r1\<lparr>http_data := ?d1\<rparr>, Some err)"
        using step start idx line l(1) pl h by simp
      with Some \<open>header_pair l = Some kv\<close> kv a d show ?thesis by auto
    next
      case None
      let ?r2 = "r1\<lparr>http_data := ?d1\<rparr>" and ?pre = "pre @ lower_line l @ crlf"
      have rec: "parse_loop u m r (length pre) = parse_loop u m ?r2 (length ?pre)"
        using step start idx line l(1) pl h None by simp
      have "\<exists>d. parse_loop u m ?r2 (length ?pre) =
          Some ((fst (parse_headers m ?r2 ls))\<lparr>http_data := d\<rparr>, snd (parse_headers m ?r2 ls))
        \<and> length d = length (http_data ?r2)
        \<and> (snd (parse_headers m ?r2 ls) = None \<longrightarrow> d = ?pre @ lines_text (map lower_line ls) @ crlf)"
        by (rule Cons.IH) (use Cons.prems(1) in simp_all)
      with rec show ?thesis using Some kv a None d
        by (auto simp: parse_headers_set_data)
    qed
  qed
qed


section \<open>A request line with its headers\<close>

definition request_head :: "bytes \<Rightarrow> bytes \<Rightarrow> bytes \<Rightarrow> bytes list \<Rightarrow> bytes" where
  "request_head meth target version hdrs =
     lines_text ((meth @ 32 # target @ 32 # version) # hdrs) @ crlf"

text \<open>The path and the marks of the query that a target determines.\<close>

definition target_path :: "bytes \<Rightarrow> bytes" where
  "target_path t = (case index_byte 63 t of None \<Rightarrow> t | Some q \<Rightarrow> take q t)"

definition target_request :: "bytes \<Rightarrow> bytes \<Rightarrow> nat \<Rightarrow> http" where
  "target_request meth t n = new_http\<lparr>
     hdrLen := word_of_nat n,
     http_path := unescape_ref False (target_path t) (target_path t),
     qStart := (case index_byte 63 t of None \<Rightarrow> 0 | Some q \<Rightarrow> word_of_nat (length meth + 2 + q)),
     qEnd := (case index_byte 63 t of None \<Rightarrow> 0 | Some q \<Rightarrow> word_of_nat (length meth + 1 + length t))\<rparr>"

text \<open>The head as the parser leaves it: the path decoded and the keys of the headers in lower case, in place.\<close>

definition decoded_line :: "bytes \<Rightarrow> bytes \<Rightarrow> bytes \<Rightarrow> bytes" where
  "decoded_line meth t version = (let p = fst (UnescapeInplace (target_path t) False)
     in meth @ 32 # p @ drop (length p) t @ 32 # version)"

definition decoded_head :: "bytes \<Rightarrow> bytes \<Rightarrow> bytes \<Rightarrow> bytes list \<Rightarrow> bytes" where
  "decoded_head meth t version hdrs = decoded_line meth t version @ crlf @ lines_text (map lower_line hdrs) @ crlf"

lemma mark_query_path: "snd (mark_query r i j t) = target_path t"
  by (simp add: mark_query_def target_path_def split: option.split)

lemma parse_first_line_request:
  assumes "32 \<notin> set meth" and "32 \<notin> set version" and "int (length meth + 1 + length t) \<le> 0xffff"
    and "http_data r = (meth @ 32 # t @ 32 # version) @ rest"
    and "UnescapeInplace (target_path t) False = (p, x)"
  shows "parse_first_line u r (meth @ 32 # t @ 32 # version) =
    resolve_target u ((fst (mark_query r (length meth) (length meth + 1 + length t) t))
       \<lparr>http_data := meth @ 32 # (p @ drop (length p) t @ 32 # version) @ rest, http_path := take x p\<rparr>)
      (length (meth @ 32 # t @ 32 # version))"
proof -
  let ?line = "meth @ 32 # t @ 32 # version" and ?i0 = "length meth" and ?i1 = "length meth + 1 + length t"
  have i0: "index_byte 32 ?line = Some ?i0" by (rule index_byte_first) (rule assms(1))
  have i1: "last_index_byte 32 ?line = Some ?i1"
    using last_index_byte_last [OF assms(2), of "meth @ 32 # t"] by simp
  have uri: "take (?i1 - (?i0 + 1)) (drop (?i0 + 1) ?line) = t" by simp
  obtain r1 where mq: "mark_query r ?i0 ?i1 t = (r1, target_path t)"
    using mark_query_path [of r ?i0 ?i1 t] by (metis prod.collapse)
  have "length p \<le> length t"
    using UnescapeInplace_shape(1) [OF assms(5)] by (simp add: target_path_def split: option.splits)
  then have "overwrite (http_data r) (?i0 + 1) p = meth @ 32 # (p @ drop (length p) t @ 32 # version) @ rest"
    using assms(4) by (simp add: overwrite_def)
  then show ?thesis
    using i0 i1 uri mq assms(3,5) mark_query_shape(1) [OF mq]
    by (simp add: parse_first_line_def Let_def)
qed

lemma http_parse_request_head:
  assumes "32 \<notin> set meth" and "13 \<notin> set meth" and "13 \<notin> set t"
    and "32 \<notin> set version" and "13 \<notin> set version"
    and "int (length meth + 1 + length t) \<le> 0xffff" and "list_all plain_line hdrs"
    and "prefix (bs ''/'') (unescape_ref False (target_path t) (target_path t))"
  shows "\<exists>d. http_parse u m (new_http\<lparr>http_data := request_head meth t version hdrs\<rparr>) =
      (let (r', e) = parse_headers m (target_request meth t (length (request_head meth t version hdrs))) hdrs
       in Some (r'\<lparr>http_data := d\<rparr>, e)) \<and>
      (snd (parse_headers m (target_request meth t (length (request_head meth t version hdrs))) hdrs) = None \<longrightarrow>
         d = decoded_head meth t version hdrs)"
proof -
  define line where "line = meth @ 32 # t @ 32 # version"
  define head where "head = request_head meth t version hdrs"
  define r where "r = new_http\<lparr>http_data := head, hdrLen := word_of_nat (length head)\<rparr>"
  define rest where "rest = crlf @ lines_text hdrs @ crlf"
  obtain p x where px: "UnescapeInplace (target_path t) False = (p, x)" by fastforce
  note path = UnescapeInplace_shape(3) [OF px]
  define line' where "line' = meth @ 32 # p @ drop (length p) t @ 32 # version"
  define r1 where "r1 = target_request meth t (length head)"
  have d: "http_data r = line @ rest"
    by (simp add: r_def head_def request_head_def line_def rest_def)
  have len: "length line' = length line"
    using UnescapeInplace_shape(1) [OF px] by (simp add: target_path_def line_def line'_def split: option.splits)
  have "parse_first_line u r line = resolve_target u (r1\<lparr>http_data := line' @ rest\<rparr>) (length line)"
    using parse_first_line_request [OF assms(1,4,6) _ px, of r rest u] path d
    by (simp add: line_def line'_def r_def r1_def target_request_def mark_query_def new_http_def split: option.splits)
  then have fl: "parse_line u m r 0 line = (r1\<lparr>http_data := line' @ rest\<rparr>, None)"
    using assms(8) by (simp add: parse_line_def resolve_target_def r1_def target_request_def)
  have "bindex crlf (http_data r) = Some (length line)"
    unfolding d rest_def using assms by (intro bindex_crlf_line) (auto simp: line_def)
  moreover have "take (length line) (http_data r) = line" "0 < length (http_data r)" "length line \<noteq> 0"
    by (simp_all add: d line_def)
  ultimately have "parse_loop u m r 0 = parse_loop u m (r1\<lparr>http_data := line' @ rest\<rparr>) (length (line' @ crlf))"
    using fl len by (subst parse_loop.simps) simp
  moreover have "decoded_head meth t version hdrs = (line' @ crlf) @ lines_text (map lower_line hdrs) @ crlf"
    using px by (simp add: decoded_head_def decoded_line_def line'_def)
  ultimately show ?thesis
    using parse_loop_headers [OF assms(7), of "r1\<lparr>http_data := line' @ rest\<rparr>" "line' @ crlf" u m]
    by (auto simp: parse_headers_set_data http_parse_def r_def r1_def head_def rest_def split: prod.split)
qed

section \<open>Scanning the headers\<close>

fun fold_headers :: "(bytes \<Rightarrow> bytes \<Rightarrow> 's \<Rightarrow> 's \<times> bool) \<Rightarrow> (bytes \<times> bytes) list \<Rightarrow> 's \<Rightarrow> 's" where
  "fold_headers f [] st = st"
| "fold_headers f ((k, v) # kvs) st =
     (case f k v st of (st', go) \<Rightarrow> if go then fold_headers f kvs st' else st')"

text \<open>The pairs of lines that hold a colon after their first byte.\<close>

definition raw_pair :: "bytes \<Rightarrow> (bytes \<times> bytes) option" where
  "raw_pair l = (case index_byte 58 l of
       None \<Rightarrow> None
     | Some i \<Rightarrow> if 0 < i then Some (take i l, TrimSpace (drop (i + 1) l)) else None)"

lemma foreach_header_lines:
  assumes "list_all plain_line ls" and "d = pre @ lines_text ls @ crlf @ body" and "pre \<noteq> []"
  shows "foreach_header f d (length pre) st = Some (fold_headers f (List.map_filter raw_pair ls) st)"
  using assms
proof (induction ls arbitrary: pre st)
  case Nil
  then have "bindex crlf (drop (length pre) d) = Some 0" and "length pre < length d"
    by (simp_all add: crlf_def)
  then show ?case by (subst foreach_header.simps) (simp add: map_filter_simps)
next
  case (Cons l ls)
  have l: "l \<noteq> []" "13 \<notin> set l" using Cons.prems(1) by (simp_all add: plain_line_def)
  have d: "d = pre @ l @ crlf @ lines_text ls @ crlf @ body" using Cons.prems(2) by simp
  have idx: "bindex crlf (drop (length pre) d) = Some (length l)"
    using d bindex_crlf_line [OF l(2)] by simp
  have line: "take (length l) (drop (length pre) d) = l" using d by simp
  have IH: "foreach_header f d (length pre + length l + 2) st' =
      Some (fold_headers f (List.map_filter raw_pair ls) st')" for st'
    using Cons.IH [of "pre @ l @ crlf" st'] Cons.prems(1) d by simp
  have start: "length pre < length d" "length pre \<noteq> 0" using d Cons.prems(3) by simp_all
  show ?case
    using start idx line l(1) IH
    by (auto simp: foreach_header.simps [of f d "length pre" st] raw_pair_def [of l] map_filter_simps Let_def
        split: option.split prod.split)
qed

lemma lower_line_pair:
  assumes "header_pair l = Some kv"
  shows "raw_pair (lower_line l) = Some kv"
proof -
  obtain i where i: "index_byte 58 l = Some i" "1 \<le> i" "kv = (map to_lower (take i l), TrimSpace (drop (i + 1) l))"
    using assms by (auto simp: header_pair_def split: option.splits if_splits)
  have b: "i < length l" "l ! i = 58" using index_byte_bound [OF i(1)] by auto
  have n: "58 \<notin> set (map to_lower (take i l))"
    using index_byte_bound [OF i(1)] by (simp add: image_iff) (metis to_lower_eq_colon)
  have "lower_line l = map to_lower (take i l) @ 58 # drop (i + 1) l"
    using i(1) b by (simp add: lower_line_def Cons_nth_drop_Suc [symmetric])
  then have "index_byte 58 (lower_line l) = Some (length (map to_lower (take i l)))"
    using index_byte_first [OF n] by simp
  then show ?thesis using i b by (simp add: raw_pair_def lower_line_def)
qed

lemma fold_headers_find:
  "fold_headers (\<lambda>k v value. if k = key then (v, False) else (value, True)) kvs w =
     (case map_of kvs key of None \<Rightarrow> w | Some v \<Rightarrow> v)"
  by (induction kvs) auto

text \<open>On the head of an accepted request the two accessors see the header lines in order, with keys in lower case.\<close>

lemma header_pairs_lower:
  "snd (parse_headers m r ls) = None \<Longrightarrow> List.map_filter raw_pair (map lower_line ls) = List.map_filter header_pair ls"
proof (induction ls arbitrary: r)
  case (Cons l ls)
  obtain k v where p: "header_pair l = Some (k, v)" using Cons.prems by (cases "header_pair l") auto
  obtain r' where "snd (parse_headers m r' ls) = None"
    using Cons.prems p by (auto split: prod.splits option.splits)
  then show ?case using Cons.IH p lower_line_pair [OF p] by (simp add: map_filter_simps)
qed simp

lemma ForeachHeader_request:
  assumes "http_data h = decoded_head meth t version hdrs @ body" and "13 \<notin> set (decoded_line meth t version)"
    and "list_all plain_line hdrs" and "snd (parse_headers m r hdrs) = None"
  shows "ForeachHeader f h st = Some (fold_headers f (List.map_filter header_pair hdrs) st)"
proof -
  let ?l = "decoded_line meth t version" and ?ls = "map lower_line hdrs"
  have d: "http_data h = (?l @ crlf) @ lines_text ?ls @ crlf @ body" using assms(1) by (simp add: decoded_head_def)
  have n: "?l \<noteq> []" by (simp add: decoded_line_def Let_def)
  have ls: "list_all plain_line ?ls" using assms(3) by (auto simp: list_all_iff plain_lower_line)
  have "bindex crlf (http_data h) = Some (length ?l)" using bindex_crlf_line [OF assms(2)] d by simp
  then have "ForeachHeader f h st = foreach_header f (http_data h) (length (?l @ crlf)) st"
    unfolding ForeachHeader_def using n d by (subst foreach_header.simps) simp
  then show ?thesis using foreach_header_lines [OF ls d, of f st] header_pairs_lower [OF assms(4)] by simp
qed

lemma GetHeader_request:
  assumes "http_data h = decoded_head meth t version hdrs @ body" and "13 \<notin> set (decoded_line meth t version)"
    and "list_all plain_line hdrs" and "snd (parse_headers m r hdrs) = None"
  shows "GetHeader h key = Some (case map_of (List.map_filter header_pair hdrs) key of None \<Rightarrow> [] | Some v \<Rightarrow> v)"
  unfolding GetHeader_def ForeachHeader_request [OF assms] fold_headers_find ..

section \<open>The announced body length\<close>

lemma apply_header_body:
  assumes "apply_header m r k v = (r', e)" and "m < 2 ^ 32" and "uint (bodyLen r) \<le> m"
  shows "uint (bodyLen r') \<le> m" and "hdrLen r' = hdrLen r"
proof -
  have "uint (word_of_int cl :: u32) \<le> m" if "cl \<le> m" "0 \<le> cl" for cl
    using that assms(2) by (simp add: uint_word_of_int)
  then show "uint (bodyLen r') \<le> m" using assms
    by (auto simp: apply_header_def split: if_splits prod.splits)
  show "hdrLen r' = hdrLen r" using assms(1)
    by (auto simp: apply_header_def split: if_splits prod.splits)
qed

lemma resolve_target_lens:
  "resolve_target u r n = (r', e) \<Longrightarrow> bodyLen r' = bodyLen r \<and> hdrLen r' = hdrLen r"
  by (auto simp: resolve_target_def split: if_splits option.splits)

lemma mark_query_lens:
  "mark_query r i j t = (r', t') \<Longrightarrow> bodyLen r' = bodyLen r \<and> hdrLen r' = hdrLen r"
  by (auto simp: mark_query_def split: option.splits)

lemma parse_line_body:
  assumes "parse_line u m r start line = (r', e)" and "m < 2 ^ 32" and "uint (bodyLen r) \<le> m"
  shows "uint (bodyLen r') \<le> m \<and> hdrLen r' = hdrLen r"
proof (cases "start = 0")
  case True
  then have "bodyLen r' = bodyLen r \<and> hdrLen r' = hdrLen r" using assms(1)
    by (auto simp: parse_line_def parse_first_line_def Let_def split: option.splits if_splits prod.splits
        dest!: resolve_target_lens mark_query_lens)
  with assms show ?thesis by simp
next
  case False
  then show ?thesis using assms apply_header_body [OF _ assms(2)]
    by (auto simp: parse_line_def parse_header_line_def Let_def split: option.splits if_splits)
qed

lemma parse_loop_body:
  "m < 2 ^ 32 \<Longrightarrow> uint (bodyLen r) \<le> m \<Longrightarrow> parse_loop u m r start = Some (r', e) \<Longrightarrow>
     uint (bodyLen r') \<le> m \<and> hdrLen r' = hdrLen r"
proof (induction u m r start rule: parse_loop.induct)
  case (1 u m r start)
  show ?case
  proof (cases "\<exists>idx. start < length (http_data r) \<and> bindex crlf (drop start (http_data r)) = Some idx \<and> idx \<noteq> 0")
    case False
    with "1.prems" show ?thesis
      by (auto simp: parse_loop.simps [of u m r start] split: if_splits option.splits)
  next
    case True
    then obtain idx where idx: "start < length (http_data r)"
      "bindex crlf (drop start (http_data r)) = Some idx" "idx \<noteq> 0" by blast
    obtain r1 e1 where pl: "parse_line u m r start (take idx (drop start (http_data r))) = (r1, e1)" by fastforce
    note body = parse_line_body [OF pl "1.prems"(1,2)]
    show ?thesis
    proof (cases e1)
      case None
      with "1.prems"(3) idx pl have "parse_loop u m r1 (start + idx + 2) = Some (r', e)"
        by (simp add: parse_loop.simps [of u m r start])
      with "1.IH" [OF idx pl [symmetric] None] "1.prems"(1) body show ?thesis by simp
    next
      case (Some x)
      with "1.prems"(3) idx pl body show ?thesis
        by (auto simp: parse_loop.simps [of u m r start])
    qed
  qed
qed

lemma http_parse_body:
  assumes "m < 2 ^ 32" and "uint (bodyLen r) \<le> m" and "http_parse u m r = Some (r', e)"
  shows "uint (bodyLen r') \<le> m" and "hdrLen r' = word_of_nat (length (http_data r))"
  using parse_loop_body [of m "r\<lparr>hdrLen := word_of_nat (length (http_data r))\<rparr>" u 0 r' e] assms
  by (simp_all add: http_parse_def)

end
