(* ===== verification/Resp_Format.thy ===== *)
theory Resp_Format
  imports Go_Strconv
begin

text \<open>
  The RESP protocol as a reference: its values, their wire encoding, and which values the
  encoding is defined for. The server's parser, the server's reply writers, the client's
  command writer and the client's reader are all related to this encoding.
\<close>

datatype resp =
    RSimple bytes
  | RErr bytes
  | RInt int
  | RBulk bytes
  | RNull
  | RArray "resp list"

definition resp_line :: "byte \<Rightarrow> bytes \<Rightarrow> bytes" where
  "resp_line head s = head # s @ crlf"

definition resp_bulk :: "bytes \<Rightarrow> bytes" where
  "resp_bulk s = 36 # format_int 10 (int (length s)) @ crlf @ s @ crlf"

fun resp_enc :: "resp \<Rightarrow> bytes" where
  "resp_enc (RSimple s) = resp_line 43 s"
| "resp_enc (RErr s) = resp_line 45 s"
| "resp_enc (RInt v) = resp_line 58 (format_int 10 v)"
| "resp_enc (RBulk s) = resp_bulk s"
| "resp_enc RNull = resp_line 36 (format_int 10 (- 1))"
| "resp_enc (RArray vs) = resp_line 42 (format_int 10 (int (length vs))) @ concat (map resp_enc vs)"

text \<open>
  Simple strings and errors cannot contain a carriage return, integers have 64 bits, and
  lengths stay below \<open>2^62\<close>.
\<close>

fun resp_wf :: "resp \<Rightarrow> bool" where
  "resp_wf (RSimple s) \<longleftrightarrow> 13 \<notin> set s"
| "resp_wf (RErr s) \<longleftrightarrow> 13 \<notin> set s"
| "resp_wf (RInt v) \<longleftrightarrow> fits64 v"
| "resp_wf (RBulk s) \<longleftrightarrow> int (length s) < 2 ^ 62"
| "resp_wf RNull \<longleftrightarrow> True"
| "resp_wf (RArray vs) \<longleftrightarrow> int (length vs) < 2 ^ 62 \<and> list_all resp_wf vs"

text \<open>A command is an array of bulk strings.\<close>

definition resp_command :: "bytes list \<Rightarrow> bytes" where
  "resp_command args = 42 # format_int 10 (int (length args)) @ crlf @ concat (map resp_bulk args)"

lemma resp_command_array: "resp_command args = resp_enc (RArray (map RBulk args))"
  by (simp add: resp_command_def resp_line_def o_def)

lemma resp_enc_not_Nil [simp]: "resp_enc v \<noteq> []"
  by (cases v) (simp_all add: resp_line_def resp_bulk_def)

lemma bindex_resp_line: "13 \<notin> set s \<Longrightarrow> head \<noteq> 13 \<Longrightarrow> bindex crlf (resp_line head s @ rest) = Some (Suc (length s))"
  using bindex_crlf_line [of "head # s" rest] by (simp add: resp_line_def)

lemma resp_bulk_line: "resp_bulk s = resp_line 36 (format_int 10 (int (length s))) @ s @ crlf"
  by (simp add: resp_bulk_def resp_line_def)

lemma length_resp_line [simp]: "length (resp_line head s) = Suc (Suc (Suc (length s)))"
  by (simp add: resp_line_def)

lemma resp_line_not_Nil [simp]: "resp_line head s \<noteq> []"
  by (simp add: resp_line_def)

lemma hd_resp_line [simp]: "hd (resp_line head s @ rest) = head"
  by (simp add: resp_line_def)

end
