(* ===== verification/Server_State.thy ===== *)
theory Server_State
  imports HTTP_Request Resp_Format
begin

text \<open>
  state.go and the request side of redis.go: the parser of the server's connections.
  \<open>process\<close> looks at the first byte, reads a RESP array of bulk strings or an HTTP
  request from the input buffer, and keeps its progress in a \<open>serverReadState\<close>, so that
  it can be called again when more input has arrived.
\<close>

section \<open>State\<close>

record redis =
  redis_data :: bytes
  redis_read :: u32
  nargs :: u16
  ai :: "(u32 \<times> u32) list"

definition new_redis :: redis where
  "new_redis = \<lparr>redis_data = [], redis_read = 0, nargs = 0, ai = []\<rparr>"

record server_read_state =
  stage :: int
  srs_redis :: "redis option"
  srs_http :: "http option"

definition new_srs :: server_read_state where
  "new_srs = \<lparr>stage = 0, srs_redis = None, srs_http = None\<rparr>"

section \<open>The bulk strings of a command (stage 1)\<close>

text \<open>
  The bulk string whose header used \<open>w\<close> bytes and announced \<open>len\<close>. The sums stay far
  from the bounds of int: the read offset is a uint32, the length of a bulk string is
  below \<open>2^32\<close> and at least \<open>-2^63\<close>, and \<open>w\<close> is at most the length of the buffer. A
  negative length is not refused.
\<close>

definition accept_bulk :: "redis \<Rightarrow> bytes \<Rightarrow> nat \<Rightarrow> int \<Rightarrow> (redis \<times> go_error option) option" where
  "accept_bulk r inp w len =
     (let x = uint (redis_read r) + int w + len
      in if int (length inp) < x + 2 then Some (r, Some ErrWaitMore)
         else do {
           c \<leftarrow> gat inp x;
           d \<leftarrow> gat inp (x + 1);
           if c \<noteq> 13 \<or> d \<noteq> 10 then do {
             tail \<leftarrow> gslice inp x (x + 2);
             Some (r, Some (ErrBulkTail tail)) }
           else Some (r\<lparr>ai := ai r @ [(redis_read r + word_of_nat w, word_of_int len)],
                        redis_read := redis_read r + word_of_int (int w + len + 2)\<rparr>, None) })"

text \<open>One turn of the loop.\<close>

definition read_bulk :: "redis \<Rightarrow> bytes \<Rightarrow> (redis \<times> go_error option) option" where
  "read_bulk r inp = do {
     rest \<leftarrow> gslice inp (uint (redis_read r)) (int (length inp));
     (len, w, err) \<leftarrow> readByteAndNumberCrLf 36 rest;
     (case err of
        Some e \<Rightarrow> Some (r, Some e)
      | None \<Rightarrow>
          if w = 0 then do {
            b \<leftarrow> gat inp (uint (redis_read r));
            Some (r, Some (ErrBulkHead b)) }
          else if len > 2 ^ 32 - 1 then Some (r, Some (ErrBulkLen len))
          else accept_bulk r inp w len) }"

lemma accept_bulk_ai:
  "accept_bulk r inp w len = Some (r', None) \<Longrightarrow> length (ai r') = Suc (length (ai r)) \<and> nargs r' = nargs r"
  by (auto simp: accept_bulk_def Let_def split: bind_splits if_splits)

lemma read_bulk_ai: "read_bulk r inp = Some (r', None) \<Longrightarrow> length (ai r') = Suc (length (ai r)) \<and> nargs r' = nargs r"
  by (auto simp: read_bulk_def split: bind_splits option.splits if_splits dest: accept_bulk_ai)

function read_bulks :: "redis \<Rightarrow> bytes \<Rightarrow> (redis \<times> go_error option) option" where
  "read_bulks r inp =
     (if int (length (ai r)) < uint (nargs r) then
        (case read_bulk r inp of
           None \<Rightarrow> None
         | Some (r', Some e) \<Rightarrow> Some (r', Some e)
         | Some (r', None) \<Rightarrow> read_bulks r' inp)
      else Some (r, None))"
  by pat_completeness auto
termination
  by (relation "measure (\<lambda>(r, inp). nat (uint (nargs r) - int (length (ai r))))") (auto dest: read_bulk_ai)

declare read_bulks.simps [simp del]

definition process_redis :: "server_read_state \<Rightarrow> bytes \<Rightarrow>
    (server_read_state \<times> bytes \<times> go_error option) option" where
  "process_redis s inp = do {
     r \<leftarrow> srs_redis s;
     (r', err) \<leftarrow> read_bulks r inp;
     (case err of
        Some e \<Rightarrow> Some (s\<lparr>srs_redis := Some r'\<rparr>, inp, Some e)
      | None \<Rightarrow> do {
          d \<leftarrow> gslice inp 0 (uint (redis_read r'));
          Some (s\<lparr>srs_redis := Some (r'\<lparr>redis_data := d\<rparr>), stage := 999\<rparr>, inp, None) }) }"

section \<open>HTTP requests (stages 6 and 7)\<close>

definition process_body :: "server_read_state \<Rightarrow> bytes \<Rightarrow>
    (server_read_state \<times> bytes \<times> go_error option) option" where
  "process_body s inp = do {
     h \<leftarrow> srs_http s;
     let sz = uint (hdrLen h + bodyLen h)
     in if int (length inp) < sz then Some (s, inp, Some ErrWaitMore)
        else Some (s\<lparr>srs_http := Some (h\<lparr>http_data := take (nat sz) inp\<rparr>), stage := 999\<rparr>, inp, None) }"

text \<open>
  \<open>http.parse\<close> changes the head in place, so the buffer after the call is the head as
  the parser left it, followed by what was behind it.
\<close>

definition process_head :: "url_parser \<Rightarrow> int \<Rightarrow> server_read_state \<Rightarrow> bytes \<Rightarrow>
    (server_read_state \<times> bytes \<times> go_error option) option" where
  "process_head url_parse RequestMaxBytes s inp =
     (case bindex (crlf @ crlf) inp of
        None \<Rightarrow> Some (s, inp, Some ErrWaitMore)
      | Some idx \<Rightarrow> do {
          h \<leftarrow> srs_http s;
          (h', err) \<leftarrow> http_parse url_parse RequestMaxBytes (h\<lparr>http_data := take (idx + 4) inp\<rparr>);
          (let s' = s\<lparr>srs_http := Some h'\<rparr>;
               inp' = http_data h' @ drop (idx + 4) inp
           in case err of
                Some e \<Rightarrow> Some (s', inp', Some e)
              | None \<Rightarrow>
                  if bodyLen h' = 0 then Some (s'\<lparr>stage := 8\<rparr>, inp', None)
                  else process_body (s'\<lparr>stage := 7\<rparr>) inp') })"

section \<open>process\<close>

definition process_stage :: "url_parser \<Rightarrow> int \<Rightarrow> server_read_state \<Rightarrow> bytes \<Rightarrow>
    (server_read_state \<times> bytes \<times> go_error option) option" where
  "process_stage url_parse RequestMaxBytes s inp =
     (if stage s = 1 then process_redis s inp
      else if stage s = 6 then process_head url_parse RequestMaxBytes s inp
      else if stage s = 7 then process_body s inp
      else if stage s = 999 then Some (s, inp, None)
      else Some (s, inp, Some (ErrStage (stage s))))"

text \<open>Stage 0 decides between the protocols and jumps back to the switch.\<close>

definition process :: "url_parser \<Rightarrow> int \<Rightarrow> server_read_state \<Rightarrow> bytes \<Rightarrow>
    (server_read_state \<times> bytes \<times> go_error option) option" where
  "process url_parse RequestMaxBytes s inp =
     (if stage s = 0 then do {
        (num, w, err) \<leftarrow> readByteAndNumberCrLf 42 inp;
        (case err of
           Some e \<Rightarrow> Some (s, inp, Some e)
         | None \<Rightarrow>
             if w = 0 then
               process_stage url_parse RequestMaxBytes (s\<lparr>srs_http := Some new_http, stage := 6\<rparr>) inp
             else if num > 65535 then Some (s, inp, Some ErrTooManyArgs)
             else
               process_stage url_parse RequestMaxBytes
                 (s\<lparr>srs_redis := Some (new_redis\<lparr>redis_read := word_of_nat w, nargs := word_of_int num\<rparr>),
                    stage := 1\<rparr>) inp) }
      else process_stage url_parse RequestMaxBytes s inp)"

section \<open>Reading the arguments (redis.go)\<close>

definition Len :: "redis \<Rightarrow> nat" where
  "Len r = length (ai r)"

text \<open>\<open>Get\<close>: the end of the slice is a uint32 sum. A negative index panics.\<close>

definition Get :: "redis \<Rightarrow> int \<Rightarrow> bytes option" where
  "Get r i =
     (if i < int (length (ai r)) then do {
        (start, len) \<leftarrow> gat (ai r) i;
        gslice (redis_data r) (uint start) (uint (start + len)) }
      else Some [])"

definition Str :: "redis \<Rightarrow> int \<Rightarrow> bytes option" where
  "Str r i = Get r i"

definition Int64 :: "redis \<Rightarrow> int \<Rightarrow> (int \<times> num_err option) option" where
  "Int64 r i = map_option parse_int (Str r i)"

definition Int64Default :: "redis \<Rightarrow> int \<Rightarrow> int \<Rightarrow> int option" where
  "Int64Default r i v = map_option (\<lambda>s. case parse_int s of (res, e) \<Rightarrow> if e \<noteq> None then v else res) (Str r i)"

section \<open>The parser does not depend on how the stream is cut\<close>

definition read_inv :: "redis \<Rightarrow> bytes \<Rightarrow> bool" where
  "read_inv r inp \<longleftrightarrow> unat (redis_read r) \<le> length inp"

text \<open>The cases of one turn of the loop, over the header that has been read.\<close>

lemma accept_bulk_cases:
  "accept_bulk r inp w len =
    (let x = uint (redis_read r) + int w + len in
     if int (length inp) < x + 2 then Some (r, Some ErrWaitMore)
     else if x < 0 then None
     else if inp ! nat x \<noteq> 13 \<or> inp ! nat (x + 1) \<noteq> 10
     then Some (r, Some (ErrBulkTail (take 2 (drop (nat x) inp))))
     else Some (r\<lparr>ai := ai r @ [(redis_read r + word_of_nat w, word_of_int len)],
                  redis_read := redis_read r + word_of_int (int w + len + 2)\<rparr>, None))"
proof -
  define x where "x = uint (redis_read r) + int w + len"
  show ?thesis
  proof (cases "int (length inp) < x + 2 \<or> x < 0")
    case True
    then show ?thesis
      unfolding accept_bulk_def Let_def x_def [symmetric] by (auto simp: gat_def)
  next
    case False
    then have "gat inp x = Some (inp ! nat x)" "gat inp (x + 1) = Some (inp ! nat (x + 1))"
      "gslice inp x (x + 2) = Some (take 2 (drop (nat x) inp))"
      by (auto simp: gat_def gslice_def)
    with False show ?thesis
      unfolding accept_bulk_def Let_def x_def [symmetric] by simp
  qed
qed

lemma read_bulk_cases:
  assumes "read_inv r inp"
    and "readByteAndNumberCrLf 36 (drop (unat (redis_read r)) inp) = Some (len, w, err)"
  shows "read_bulk r inp =
    (case err of
       Some e \<Rightarrow> Some (r, Some e)
     | None \<Rightarrow>
         if w = 0 then Some (r, Some (ErrBulkHead (inp ! unat (redis_read r))))
         else if len > 2 ^ 32 - 1 then Some (r, Some (ErrBulkLen len))
         else accept_bulk r inp w len)"
proof -
  have "w = 0 \<Longrightarrow> err = None \<Longrightarrow> unat (redis_read r) < length inp"
    using assms(2) by (auto simp: readByteAndNumberCrLf_def split: if_splits option.splits prod.splits bind_splits)
  then show ?thesis using assms
    by (cases err) (simp_all add: read_bulk_def read_inv_def)
qed

lemma accept_bulk_append:
  assumes "accept_bulk r inp w len \<noteq> Some (r, Some ErrWaitMore)"
  shows "accept_bulk r (inp @ ys) w len = accept_bulk r inp w len"
proof -
  define x where "x = uint (redis_read r) + int w + len"
  have len: "\<not> int (length inp) < x + 2" "\<not> int (length (inp @ ys)) < x + 2"
    using assms by (auto simp: accept_bulk_cases Let_def x_def split: if_splits)
  show ?thesis
  proof (cases "x < 0")
    case True
    with len show ?thesis unfolding accept_bulk_cases Let_def x_def [symmetric] by simp
  next
    case False
    then have "(inp @ ys) ! nat x = inp ! nat x" "(inp @ ys) ! nat (x + 1) = inp ! nat (x + 1)"
      "take 2 (drop (nat x) (inp @ ys)) = take 2 (drop (nat x) inp)"
      using len by (auto simp: nth_append)
    with False len show ?thesis unfolding accept_bulk_cases Let_def x_def [symmetric] by simp
  qed
qed

lemma read_bulk_header:
  obtains len w err where "readByteAndNumberCrLf 36 xs = Some (len, w, err)"
  using readByteAndNumberCrLf_total [of 36 xs] by (cases "readByteAndNumberCrLf 36 xs") auto

lemma read_bulk_append:
  assumes "read_inv r inp" and "read_bulk r inp \<noteq> Some (r, Some ErrWaitMore)"
  shows "read_bulk r (inp @ ys) = read_bulk r inp"
proof -
  let ?n = "unat (redis_read r)"
  have inv': "read_inv r (inp @ ys)" using assms(1) by (simp add: read_inv_def)
  obtain len w err where h: "readByteAndNumberCrLf 36 (drop ?n inp) = Some (len, w, err)"
    by (rule read_bulk_header)
  have "err \<noteq> Some ErrWaitMore"
    using assms(2) read_bulk_cases [OF assms(1) h] by auto
  then have h': "readByteAndNumberCrLf 36 (drop ?n (inp @ ys)) = Some (len, w, err)"
    using readByteAndNumberCrLf_append [OF h] assms(1) by (simp add: read_inv_def)
  have nz: "err = None \<Longrightarrow> w = 0 \<Longrightarrow> ?n < length inp"
    using h by (auto simp: readByteAndNumberCrLf_def split: if_splits option.splits prod.splits bind_splits)
  show ?thesis
  proof (cases "err = None \<and> w \<noteq> 0 \<and> \<not> len > 2 ^ 32 - 1")
    case False
    then show ?thesis
      using read_bulk_cases [OF assms(1) h] read_bulk_cases [OF inv' h'] nz
      by (cases err) (auto simp: nth_append)
  next
    case True
    then have "accept_bulk r inp w len \<noteq> Some (r, Some ErrWaitMore)"
      using assms(2) read_bulk_cases [OF assms(1) h] by auto
    then have "accept_bulk r (inp @ ys) w len = accept_bulk r inp w len" by (rule accept_bulk_append)
    with True show ?thesis
      unfolding read_bulk_cases [OF assms(1) h] read_bulk_cases [OF inv' h'] by simp
  qed
qed

lemma read_bulk_error: "read_bulk r inp = Some (r', Some e) \<Longrightarrow> r' = r"
proof -
  have "accept_bulk r inp w len = Some (r', Some e) \<Longrightarrow> r' = r" for w len
    by (auto simp: accept_bulk_cases Let_def split: if_splits)
  then show "read_bulk r inp = Some (r', Some e) \<Longrightarrow> r' = r"
    by (auto simp: read_bulk_def split: bind_splits option.splits if_splits)
qed

lemma read_bulk_inv:
  assumes "read_inv r inp" and "read_bulk r inp = Some (r', e)"
  shows "read_inv r' inp"
proof (cases e)
  case (Some err)
  with assms read_bulk_error show ?thesis by auto
next
  case None
  let ?n = "unat (redis_read r)"
  obtain len w err where h: "readByteAndNumberCrLf 36 (drop ?n inp) = Some (len, w, err)"
    by (rule read_bulk_header)
  let ?x = "uint (redis_read r) + int w + len"
  have r': "redis_read r' = redis_read r + word_of_int (int w + len + 2)"
    and x: "0 \<le> ?x" "?x + 2 \<le> int (length inp)"
    using assms(2) None read_bulk_cases [OF assms(1) h]
    by (auto simp: accept_bulk_cases Let_def split: option.splits if_splits)
  have "redis_read r' = word_of_int (?x + 2)" by (simp add: r')
  also have "\<dots> = word_of_nat (nat (?x + 2))" using x(1) by simp
  finally have "unat (redis_read r') = nat (?x + 2) mod 2 ^ 32" by (simp only: unat_of_nat) simp
  also have "\<dots> \<le> nat (?x + 2)" by simp
  also have "\<dots> \<le> length inp" using x by linarith
  finally show ?thesis by (simp add: read_inv_def)
qed

lemma read_bulks_append:
  assumes "read_inv r inp"
  shows "(read_bulks r inp = None \<longrightarrow> read_bulks r (inp @ ys) = None) \<and>
    (\<forall>r' e. read_bulks r inp = Some (r', e) \<longrightarrow> read_inv r' inp \<and>
       (if e = Some ErrWaitMore then read_bulks r' (inp @ ys) = read_bulks r (inp @ ys)
        else read_bulks r (inp @ ys) = Some (r', e)))"
  using assms
proof (induction r inp rule: read_bulks.induct)
  case (1 r inp)
  show ?case
  proof (cases "int (length (ai r)) < uint (nargs r) \<and> read_bulk r inp \<noteq> Some (r, Some ErrWaitMore)")
    case False
    show ?thesis
    proof (cases "int (length (ai r)) < uint (nargs r)")
      case True
      with False have "read_bulk r inp = Some (r, Some ErrWaitMore)" by simp
      with True have "read_bulks r inp = Some (r, Some ErrWaitMore)" by (subst read_bulks.simps) simp
      with "1.prems" show ?thesis by simp
    next
      case False
      then have "read_bulks r inp = Some (r, None)" "read_bulks r (inp @ ys) = Some (r, None)"
        by (subst read_bulks.simps, simp)+
      with "1.prems" show ?thesis by simp
    qed
  next
    case True
    note app = read_bulk_append [OF "1.prems" True [THEN conjunct2], of ys]
    show ?thesis
    proof (cases "read_bulk r inp")
      case None
      then have "read_bulks r inp = None" "read_bulks r (inp @ ys) = None"
        using True app by (subst read_bulks.simps, simp)+
      then show ?thesis by simp
    next
      case (Some res)
      obtain r' e where res: "res = (r', e)" by fastforce
      have inv: "read_inv r' inp" using read_bulk_inv [OF "1.prems"] Some res by simp
      show ?thesis
      proof (cases e)
        case None
        then have "read_bulks r inp = read_bulks r' inp" "read_bulks r (inp @ ys) = read_bulks r' (inp @ ys)"
          using True Some res app by (subst read_bulks.simps, simp)+
        with "1.IH" [OF True [THEN conjunct1] Some res [symmetric] None inv] show ?thesis by simp
      next
        case err: (Some x)
        with Some res True read_bulk_error [of r inp r' x] have "x \<noteq> ErrWaitMore" by auto
        moreover have "read_bulks r inp = Some (r', e)" "read_bulks r (inp @ ys) = Some (r', e)"
          using err True Some res app by (subst read_bulks.simps, simp)+
        ultimately show ?thesis using inv err by simp
      qed
    qed
  qed
qed

definition srs_inv :: "server_read_state \<Rightarrow> bytes \<Rightarrow> bool" where
  "srs_inv s inp \<longleftrightarrow>
     (stage s = 1 \<longrightarrow> (\<exists>r. srs_redis s = Some r \<and> read_inv r inp)) \<and>
     (stage s = 6 \<or> stage s = 7 \<longrightarrow> srs_http s \<noteq> None)"

text \<open>
  What the laws of an incremental parser ask of one call, as a relation between the
  parser's result \<open>p s xs\<close> on a buffer and its result on the extended buffer.
\<close>

definition extends :: "(server_read_state \<Rightarrow> bytes \<Rightarrow> (server_read_state \<times> bytes \<times> go_error option) option) \<Rightarrow>
    (server_read_state \<Rightarrow> bytes \<Rightarrow> (server_read_state \<times> bytes \<times> go_error option) option) \<Rightarrow>
    server_read_state \<Rightarrow> bytes \<Rightarrow> bytes \<Rightarrow> bool" where
  "extends p q s xs ys \<longleftrightarrow>
     (q s xs = None \<longrightarrow> q s (xs @ ys) = None) \<and>
     (\<forall>s' xs' e. q s xs = Some (s', xs', e) \<longrightarrow>
        (if e = Some ErrWaitMore
         then srs_inv s' xs' \<and> p s' (xs' @ ys) = q s (xs @ ys)
         else q s (xs @ ys) = Some (s', xs' @ ys, e)))"

lemma process_redis_extends:
  assumes "srs_inv s xs" and "stage s = 1"
  shows "extends process_redis process_redis s xs ys"
    and "\<And>s' xs' e. process_redis s xs = Some (s', xs', Some e) \<Longrightarrow> stage s' = 1"
proof -
  from assms obtain r where r: "srs_redis s = Some r" and inv: "read_inv r xs" by (auto simp: srs_inv_def)
  note app = read_bulks_append [OF inv, of ys]
  show "extends process_redis process_redis s xs ys"
  proof (cases "read_bulks r xs")
    case None
    with app r show ?thesis by (simp add: extends_def process_redis_def)
  next
    case (Some res)
    obtain r' e where res: "res = (r', e)" by fastforce
    with app Some have inv': "read_inv r' xs" and
      wait: "e = Some ErrWaitMore \<Longrightarrow> read_bulks r' (xs @ ys) = read_bulks r (xs @ ys)" and
      verdict: "e \<noteq> Some ErrWaitMore \<Longrightarrow> read_bulks r (xs @ ys) = Some (r', e)" by auto
    show ?thesis
    proof (cases e)
      case None
      have "gslice xs 0 (uint (redis_read r')) = Some (take (unat (redis_read r')) xs)"
        and "gslice (xs @ ys) 0 (uint (redis_read r')) = Some (take (unat (redis_read r')) xs)"
        using inv' by (simp_all add: read_inv_def)
      with None Some res r verdict show ?thesis
        by (simp add: extends_def process_redis_def)
    next
      case err: (Some x)
      show ?thesis
      proof (cases "x = ErrWaitMore")
        case True
        with err Some res r wait inv' assms(2) show ?thesis
          by (simp add: extends_def process_redis_def srs_inv_def)
      next
        case False
        with err Some res r verdict show ?thesis by (simp add: extends_def process_redis_def)
      qed
    qed
  qed
  show "\<And>s' xs' e. process_redis s xs = Some (s', xs', Some e) \<Longrightarrow> stage s' = 1"
    using assms(2) by (auto simp: process_redis_def split: bind_splits option.splits)
qed

lemma less_uint_iff: "int n < uint w \<longleftrightarrow> n < unat w"
  by (metis of_nat_less_iff of_nat_unat)

lemma process_body_extends:
  assumes "srs_inv s xs" and "stage s = 7"
  shows "extends process_body process_body s xs ys"
    and "\<And>s' xs' e. process_body s xs = Some (s', xs', Some e) \<Longrightarrow> s' = s"
  using assms
  by (auto simp: extends_def process_body_def srs_inv_def Let_def less_uint_iff simp flip: of_nat_add split: if_splits)

lemma parse_line_not_wait: "parse_line u m r start line = (r', e) \<Longrightarrow> e \<noteq> Some ErrWaitMore"
  by (auto simp: parse_line_def parse_first_line_def parse_header_line_def apply_header_def resolve_target_def Let_def
      split: if_splits option.splits prod.splits)

lemma parse_loop_not_wait: "parse_loop u m r start = Some (r', e) \<Longrightarrow> e \<noteq> Some ErrWaitMore"
proof (induction u m r start rule: parse_loop.induct)
  case (1 u m r start)
  then show ?case
    by (subst (asm) (2) parse_loop.simps)
      (auto split: if_splits option.splits prod.splits dest: parse_line_not_wait)
qed

lemma http_parse_not_wait: "http_parse u m r \<noteq> Some (r', Some ErrWaitMore)"
  using parse_loop_not_wait [of u m "r\<lparr>hdrLen := word_of_nat (length (http_data r))\<rparr>" 0 r' "Some ErrWaitMore"]
  by (auto simp: http_parse_def)

lemma process_head_wait:
  assumes "bindex (crlf @ crlf) xs = Some idx" and "srs_http s = Some h"
    and "http_parse u m (h\<lparr>http_data := take (idx + 4) xs\<rparr>) = Some (h', None)" and "bodyLen h' \<noteq> 0"
  shows "process_head u m s (xs @ ys) =
     process_body (s\<lparr>srs_http := Some h', stage := 7\<rparr>) (http_data h' @ drop (idx + 4) xs @ ys)"
proof -
  have "idx + 4 \<le> length xs" using bindex_bound [OF assms(1)] by simp
  then show ?thesis using assms bindex_append [OF assms(1), of ys] by (simp add: process_head_def Let_def)
qed

lemma process_head_extends:
  assumes "srs_inv s xs" and "stage s = 6"
  shows "extends (process_stage u m) (process_head u m) s xs ys"
proof (cases "bindex (crlf @ crlf) xs")
  case None
  then have "process_head u m s xs = Some (s, xs, Some ErrWaitMore)" by (simp add: process_head_def)
  with assms show ?thesis by (simp add: extends_def process_stage_def)
next
  case (Some idx)
  from assms obtain h where h: "srs_http s = Some h" by (auto simp: srs_inv_def)
  have len: "idx + 4 \<le> length xs" using bindex_bound [OF Some] by simp
  note idx = Some bindex_append [OF Some, of ys]
  let ?p = "http_parse u m (h\<lparr>http_data := take (idx + 4) xs\<rparr>)"
  show ?thesis
  proof (cases "\<exists>h'. ?p = Some (h', None) \<and> bodyLen h' \<noteq> 0")
    case False
    then show ?thesis using idx h len http_parse_not_wait
      by (cases ?p) (auto simp: extends_def process_head_def Let_def srs_inv_def process_stage_def split: option.splits)
  next
    case True
    then obtain h' where h': "?p = Some (h', None)" "bodyLen h' \<noteq> 0" by blast
    let ?s = "s\<lparr>srs_http := Some h', stage := 7\<rparr>" and ?xs = "http_data h' @ drop (idx + 4) xs"
    have inv: "srs_inv ?s ?xs" "stage ?s = 7" by (simp_all add: srs_inv_def)
    have eq: "process_head u m s xs = process_body ?s ?xs"
      "process_head u m s (xs @ ys) = process_body ?s (?xs @ ys)"
      using process_head_wait [OF Some h h', of "[]"] process_head_wait [OF Some h h', of ys] by simp_all
    show ?thesis
      using process_body_extends(1) [OF inv, of ys] process_body_extends(2) [OF inv] inv(2)
      unfolding extends_def eq by (auto simp: process_stage_def)
  qed
qed

lemma process_stage_extends:
  assumes "srs_inv s xs"
  shows "extends (process_stage u m) (process_stage u m) s xs ys"
proof -
  consider "stage s = 1" | "stage s = 6" | "stage s = 7" | "stage s \<notin> {1, 6, 7}" by blast
  then show ?thesis
  proof cases
    case 1
    with process_redis_extends(1) [OF assms 1, of ys] process_redis_extends(2) [OF assms 1] show ?thesis
      by (auto simp: extends_def process_stage_def)
  next
    case 2
    with process_head_extends [OF assms 2, of u m ys] show ?thesis
      by (auto simp: extends_def process_stage_def)
  next
    case 3
    with process_body_extends(1) [OF assms 3, of ys] process_body_extends(2) [OF assms 3] show ?thesis
      by (auto simp: extends_def process_stage_def)
  next
    case 4
    then show ?thesis by (auto simp: extends_def process_stage_def)
  qed
qed

lemma process_stage_not_0:
  "process_stage u m s xs = Some (s', xs', e) \<Longrightarrow> stage s \<noteq> 0 \<Longrightarrow> stage s' \<noteq> 0"
  by (auto simp: process_stage_def process_redis_def process_head_def process_body_def Let_def
      split: if_splits option.splits bind_splits)

text \<open>Stage 0, by the outcome of reading the first line.\<close>

definition enter :: "server_read_state \<Rightarrow> int \<Rightarrow> nat \<Rightarrow> server_read_state" where
  "enter s num w =
     (if w = 0 then s\<lparr>srs_http := Some new_http, stage := 6\<rparr>
      else s\<lparr>srs_redis := Some (new_redis\<lparr>redis_read := word_of_nat w, nargs := word_of_int num\<rparr>), stage := 1\<rparr>)"

lemma process_stage0:
  assumes "stage s = 0" and "readByteAndNumberCrLf 42 xs = Some (num, w, None)" and "w = 0 \<or> num \<le> 65535"
  shows "process u m s xs = process_stage u m (enter s num w) xs"
  using assms by (auto simp: process_def enter_def)

lemma enter_inv:
  assumes "readByteAndNumberCrLf 42 xs = Some (num, w, None)"
  shows "srs_inv (enter s num w) xs"
proof (cases "w = 0")
  case True
  then show ?thesis by (simp add: enter_def srs_inv_def)
next
  case False
  then have "w \<le> length xs" using readByteAndNumberCrLf_success(2) [OF assms] by simp
  moreover have "unat (word_of_nat w :: u32) \<le> w" by (simp add: unat_of_nat)
  ultimately show ?thesis using False by (simp add: enter_def srs_inv_def read_inv_def)
qed

lemma process_extends:
  assumes "srs_inv s xs"
  shows "extends (process u m) (process u m) s xs ys"
proof (cases "stage s = 0")
  case False
  then have "process u m s zs = process_stage u m s zs" for zs by (simp add: process_def)
  moreover have "process u m s' zs = process_stage u m s' zs"
    if "process_stage u m s xs = Some (s', xs', e)" for s' xs' e zs
    using process_stage_not_0 [OF that False] by (simp add: process_def)
  ultimately show ?thesis
    using process_stage_extends [OF assms, of u m ys] unfolding extends_def by (metis (no_types, lifting))
next
  case True
  obtain num w err where h: "readByteAndNumberCrLf 42 xs = Some (num, w, err)"
    using readByteAndNumberCrLf_total [of 42 xs] by (cases "readByteAndNumberCrLf 42 xs") auto
  show ?thesis
  proof (cases "err = None \<and> (w = 0 \<or> num \<le> 65535)")
    case False
    then show ?thesis using h True assms readByteAndNumberCrLf_append [OF h, of ys]
      by (cases err) (auto simp: extends_def process_def)
  next
    case ok: True
    then have h0: "readByteAndNumberCrLf 42 xs = Some (num, w, None)"
      and h1: "readByteAndNumberCrLf 42 (xs @ ys) = Some (num, w, None)"
      using h readByteAndNumberCrLf_append [OF h, of ys] by auto
    let ?s = "enter s num w"
    have eq: "process u m s xs = process_stage u m ?s xs" "process u m s (xs @ ys) = process_stage u m ?s (xs @ ys)"
      using process_stage0 [OF True h0] process_stage0 [OF True h1] ok by simp_all
    have "process u m s' zs = process_stage u m s' zs"
      if "process_stage u m ?s xs = Some (s', xs', e)" for s' xs' e zs
      using process_stage_not_0 [OF that] by (simp add: process_def enter_def split: if_splits)
    with process_stage_extends [OF enter_inv [OF h0, of s], of u m ys] eq show ?thesis
      unfolding extends_def by (metis (no_types, lifting))
  qed
qed

interpretation srs: incremental "process u m" ErrWaitMore srs_inv
proof unfold_locales
  fix s xs ys
  assume inv: "srs_inv s xs"
  then show "srs_inv s (xs @ ys)" by (auto simp: srs_inv_def read_inv_def)
  note ext = process_extends [OF inv, of u m, unfolded extends_def]
  show "process u m s xs = None \<Longrightarrow> process u m s (xs @ ys) = None" using ext [of ys] by simp
  fix s' xs' e
  show "process u m s xs = Some (s', xs', Some ErrWaitMore) \<Longrightarrow> srs_inv s' xs'"
    and "process u m s xs = Some (s', xs', Some ErrWaitMore) \<Longrightarrow> process u m s' (xs' @ ys) = process u m s (xs @ ys)"
    using ext [of ys] by auto
  show "process u m s xs = Some (s', xs', e) \<Longrightarrow> e \<noteq> Some ErrWaitMore \<Longrightarrow> process u m s (xs @ ys) = Some (s', xs' @ ys, e)"
    using ext [of ys] by auto
qed

text \<open>
  C6: however the bytes of a request are cut into reads, the connection's parser
  (\<open>serverReadState.process\<close>, called on the accumulated buffer after every read) ends
  with the same state, buffer and verdict as on the whole input at once.
\<close>

theorem process_segmentation:
  assumes "cs \<noteq> []"
  shows "feed (process url_parse RequestMaxBytes) ErrWaitMore new_srs [] cs
       = process url_parse RequestMaxBytes new_srs (concat cs)"
  using srs.feed_whole [of new_srs "[]" cs url_parse RequestMaxBytes] assms
  by (simp add: srs_inv_def new_srs_def)

theorem process_segmentation_witness:
  "feed (process (\<lambda>_. None) 1048576) ErrWaitMore new_srs [] [bs ''GET / HTTP/1.1'', crlf, crlf]
   = process (\<lambda>_. None) 1048576 new_srs (concat [bs ''GET / HTTP/1.1'', crlf, crlf])"
  by (rule process_segmentation) simp

section \<open>Commands\<close>

text \<open>\<open>located d off s\<close>: the argument \<open>s\<close> stands in \<open>d\<close> where \<open>off\<close> says.\<close>

definition located :: "bytes \<Rightarrow> u32 \<times> u32 \<Rightarrow> bytes \<Rightarrow> bool" where
  "located d off s \<longleftrightarrow> (case off of (start, len) \<Rightarrow>
     unat len = length s \<and> unat (start + len) = unat start + unat len
     \<and> unat start + length s \<le> length d \<and> take (length s) (drop (unat start) d) = s)"

lemma u32_of_nat: "n < 2 ^ 32 \<Longrightarrow> unat (word_of_nat n :: u32) = n"
  by (simp add: unat_of_nat)

lemma u32_of_unat: "unat w = n \<Longrightarrow> (w :: u32) = word_of_nat n"
  by auto

lemma read_bulk_one:
  assumes "unat (redis_read r) = length pre" and "length pre + length (resp_bulk s) < 2 ^ 32"
    and "inp = pre @ resp_bulk s @ rest"
  shows "\<exists>off. read_bulk r inp =
      Some (r\<lparr>ai := ai r @ [off], redis_read := word_of_nat (length pre + length (resp_bulk s))\<rparr>, None)
    \<and> located inp off s"
proof -
  define n where "n = length (format_int 10 (int (length s)))"
  have ls: "length (resp_bulk s) = n + 3 + length s + 2" by (simp add: resp_bulk_def n_def)
  have d: "inp = pre @ 36 # format_int 10 (int (length s)) @ crlf @ s @ crlf @ rest"
    by (simp add: assms(3) resp_bulk_def)
  have inv: "read_inv r inp" using assms(1) by (simp add: read_inv_def assms(3))
  have "fits64 (int (length s))" using assms(2) ls by simp
  then have h: "readByteAndNumberCrLf 36 (drop (unat (redis_read r)) inp) = Some (int (length s), n + 3, None)"
    using readByteAndNumberCrLf_line [of "int (length s)" 36 "s @ crlf @ rest"] assms(1) d
    by (simp add: n_def)
  let ?k = "length pre + n + 3 + length s"
  have rd: "redis_read r = word_of_nat (length pre)" using assms(1) by (rule u32_of_unat)
  have ui: "uint (redis_read r) = int (length pre)" using assms(1) by (metis of_nat_unat)
  have dk: "drop ?k inp = crlf @ rest"
    by (rule drop_prefix [of _ "pre @ 36 # format_int 10 (int (length s)) @ crlf @ s"]) (simp_all add: d n_def)
  have len: "?k + 2 \<le> length inp" unfolding d by (simp add: n_def)
  have nth: "inp ! ?k = 13" "inp ! (?k + 1) = 10"
    using dk len nth_drop [of ?k inp 0] nth_drop [of ?k inp 1] by (simp_all add: crlf_def)
  let ?off = "(word_of_nat (length pre + n + 3), word_of_nat (length s)) :: u32 \<times> u32"
  have "accept_bulk r inp (n + 3) (int (length s)) =
      Some (r\<lparr>ai := ai r @ [?off], redis_read := word_of_nat (length pre + length (resp_bulk s))\<rparr>, None)"
  proof -
    have x: "uint (redis_read r) + int (n + 3) + int (length s) = int ?k" by (simp add: ui)
    have nx: "nat (int ?k) = ?k" "nat (int ?k + 1) = ?k + 1" by linarith+
    have "word_of_nat (length pre) + word_of_int (int (n + 3) + int (length s) + 2)
        = (word_of_nat (length pre + length (resp_bulk s)) :: u32)" by (simp add: ls)
    with len nth show ?thesis
      unfolding accept_bulk_cases Let_def x nx by (simp add: rd)
  qed
  then have "read_bulk r inp =
      Some (r\<lparr>ai := ai r @ [?off], redis_read := word_of_nat (length pre + length (resp_bulk s))\<rparr>, None)"
    using assms(2) ls unfolding read_bulk_cases [OF inv h] by simp
  moreover have "located inp ?off s"
  proof -
    have b: "length pre + n + 3 + length s < 2 ^ 32" using assms(2) ls by simp
    have "unat (word_of_nat (length pre + n + 3) + word_of_nat (length s) :: u32) = length pre + n + 3 + length s"
      using u32_of_nat [OF b] by (simp add: add.assoc)
    moreover have "unat (word_of_nat (length pre + n + 3) :: u32) = length pre + n + 3"
      "unat (word_of_nat (length s) :: u32) = length s" using b by (intro u32_of_nat; simp)+
    moreover have "take (length s) (drop (length pre + n + 3) inp) = s"
      by (rule take_drop_middle [of _ "pre @ 36 # format_int 10 (int (length s)) @ crlf" _ "crlf @ rest"])
        (simp_all add: d n_def)
    ultimately show ?thesis using len by (simp add: located_def)
  qed
  ultimately show ?thesis by blast
qed

lemma read_bulks_command:
  assumes "unat (redis_read r) = length pre"
    and "length pre + length (concat (map resp_bulk args)) < 2 ^ 32"
    and "unat (nargs r) = length (ai r) + length args"
    and "inp = pre @ concat (map resp_bulk args) @ rest"
  shows "\<exists>offs. read_bulks r inp =
      Some (r\<lparr>ai := ai r @ offs,
              redis_read := word_of_nat (length pre + length (concat (map resp_bulk args)))\<rparr>, None)
    \<and> list_all2 (located inp) offs args"
  using assms
proof (induction args arbitrary: r pre)
  case Nil
  then have "uint (nargs r) = int (length (ai r))" by (metis add.right_neutral list.size(3) of_nat_unat)
  then have "read_bulks r inp = Some (r, None)" by (subst read_bulks.simps) simp
  moreover have "redis_read r = word_of_nat (length pre)" using Nil.prems(1) by (rule u32_of_unat)
  ultimately show ?case by (auto intro!: exI [of _ "[]"])
next
  case (Cons s args)
  let ?pre = "pre @ resp_bulk s" and ?tail = "concat (map resp_bulk args) @ rest"
  obtain off where rb: "read_bulk r inp =
      Some (r\<lparr>ai := ai r @ [off], redis_read := word_of_nat (length ?pre)\<rparr>, None)" and off: "located inp off s"
    using read_bulk_one [of r pre s inp ?tail] Cons.prems(1,2,4) by auto
  let ?r = "r\<lparr>ai := ai r @ [off], redis_read := word_of_nat (length ?pre)\<rparr>"
  have "length (ai r) < unat (nargs r)" using Cons.prems(3) by simp
  then have "int (length (ai r)) < uint (nargs r)" by (metis of_nat_less_iff of_nat_unat)
  then have step: "read_bulks r inp = read_bulks ?r inp"
    using rb by (subst read_bulks.simps) simp
  have "length ?pre < 2 ^ 32" using Cons.prems(2) by simp
  then have "unat (redis_read ?r) = length ?pre" using u32_of_nat [of "length ?pre"] by simp
  then obtain offs where "read_bulks ?r inp = Some (?r\<lparr>ai := ai ?r @ offs,
        redis_read := word_of_nat (length ?pre + length (concat (map resp_bulk args)))\<rparr>, None)"
      and offs: "list_all2 (located inp) offs args"
    using Cons.IH [of ?r ?pre] Cons.prems(2,3,4) by auto
  with step off show ?case by (intro exI [of _ "off # offs"]) (simp add: add.assoc)
qed

lemma Get_located:
  assumes "list_all2 (located d) (ai r) args" and "redis_data r = d" and "i < length args"
  shows "Get r (int i) = Some (args ! i)"
proof -
  obtain start len where off: "ai r ! i = (start, len)" by fastforce
  have i: "i < length (ai r)" using assms(1,3) by (simp add: list_all2_lengthD)
  have "located d (start, len) (args ! i)" using list_all2_nthD [OF assms(1) i] off by simp
  with i off assms(2) show ?thesis by (simp add: Get_def located_def)
qed

lemma length_resp_command: "4 \<le> length (resp_command args)"
  by (cases "format_int 10 (int (length args))") (simp_all add: resp_command_def)

lemma command_parsed:
  assumes "length args \<le> 65535" and "length (resp_command args) < 2 ^ 32"
  shows "\<exists>s r. process url_parse RequestMaxBytes new_srs (resp_command args @ rest)
        = Some (s, resp_command args @ rest, None)
    \<and> srs_http s = None \<and> srs_redis s = Some r \<and> redis_data r = resp_command args
    \<and> unat (redis_read r) = length (resp_command args) \<and> Len r = length args
    \<and> (\<forall>i < length args. Get r (int i) = Some (args ! i))"
proof -
  let ?cmd = "resp_command args" and ?n = "int (length args)"
  let ?w = "length (format_int 10 ?n) + 3"
  let ?pre = "42 # format_int 10 ?n @ crlf"
  have cmd: "?cmd = ?pre @ concat (map resp_bulk args)" by (simp add: resp_command_def)
  have pre: "length ?pre = ?w" by simp
  have h: "readByteAndNumberCrLf 42 (?cmd @ rest) = Some (?n, ?w, None)"
    using readByteAndNumberCrLf_line [of ?n 42 "concat (map resp_bulk args) @ rest"] assms(1)
    by (simp add: resp_command_def)
  define r where "r = new_redis\<lparr>redis_read := word_of_nat ?w, nargs := word_of_int ?n\<rparr>"
  have en: "enter new_srs ?n ?w = new_srs\<lparr>srs_redis := Some r, stage := 1\<rparr>"
    by (simp add: enter_def r_def)
  have w: "?w < 2 ^ 32" using assms(2) by (simp add: resp_command_def)
  have r: "unat (redis_read r) = length ?pre" unfolding r_def pre using u32_of_nat [OF w] by simp
  have n: "unat (nargs r) = length (ai r) + length args"
    using assms(1) by (simp add: r_def new_redis_def unat_of_nat)
  have len: "length ?pre + length (concat (map resp_bulk args)) < 2 ^ 32" using assms(2) cmd by simp
  define r' where "r' offs = r\<lparr>ai := ai r @ offs, redis_read := word_of_nat (length ?cmd)\<rparr>" for offs
  obtain offs where rb: "read_bulks r ?cmd = Some (r' offs, None)" and offs: "list_all2 (located ?cmd) offs args"
    using read_bulks_command [OF r len n, of ?cmd "[]"] cmd unfolding r'_def by auto
  have "read_inv r ?cmd" using r cmd by (simp add: read_inv_def)
  then have "read_bulks r (?cmd @ rest) = Some (r' offs, None)"
    using read_bulks_append [of r ?cmd rest] rb by auto
  moreover have rd: "unat (redis_read (r' offs)) = length ?cmd"
    using u32_of_nat [OF assms(2)] by (simp add: r'_def)
  ultimately have "process url_parse RequestMaxBytes new_srs (?cmd @ rest) =
      Some (new_srs\<lparr>srs_redis := Some (r' offs\<lparr>redis_data := ?cmd\<rparr>), stage := 999\<rparr>, ?cmd @ rest, None)"
    using process_stage0 [OF _ h, of new_srs url_parse RequestMaxBytes] en assms(1)
    by (simp add: new_srs_def process_stage_def process_redis_def)
  moreover have "Get (r' offs\<lparr>redis_data := ?cmd\<rparr>) (int i) = Some (args ! i)" if "i < length args" for i
    by (rule Get_located [where d = ?cmd])
      (use offs that in \<open>simp_all add: r'_def r_def new_redis_def\<close>)
  moreover have "Len (r' offs\<lparr>redis_data := ?cmd\<rparr>) = length args"
    using list_all2_lengthD [OF offs] by (simp add: Len_def r'_def r_def new_redis_def)
  ultimately show ?thesis using rd by (auto simp: new_srs_def)
qed

text \<open>
  C5: a command of at most 65535 arguments that is encoded as a RESP array of bulk strings
  is parsed whole, whatever follows it in the buffer: the parser stops exactly behind it,
  \<open>Len\<close> is the number of arguments, and \<open>Get\<close> returns each argument byte for byte.
\<close>

theorem process_command:
  assumes "length args \<le> 65535" and "length (resp_command args) < 2 ^ 32"
  shows "\<exists>s r. process url_parse RequestMaxBytes new_srs (resp_command args @ rest)
        = Some (s, resp_command args @ rest, None)
    \<and> srs_http s = None \<and> srs_redis s = Some r
    \<and> unat (redis_read r) = length (resp_command args) \<and> Len r = length args
    \<and> (\<forall>i < length args. Get r (int i) = Some (args ! i))"
  using command_parsed [OF assms] by blast

theorem process_command_witness:
  "\<exists>s r. process (\<lambda>_. None) 1048576 new_srs (resp_command [bs ''GET'', bs ''k''] @ bs ''*1'')
        = Some (s, resp_command [bs ''GET'', bs ''k''] @ bs ''*1'', None)
    \<and> srs_http s = None \<and> srs_redis s = Some r
    \<and> unat (redis_read r) = length (resp_command [bs ''GET'', bs ''k'']) \<and> Len r = 2
    \<and> Get r 0 = Some (bs ''GET'') \<and> Get r 1 = Some (bs ''k'')"
proof -
  have len: "length (resp_command [bs ''GET'', bs ''k'']) < 2 ^ 32"
    by (simp add: resp_command_def resp_bulk_def format_int_def format_uint.simps)
  show ?thesis
    using process_command [of "[bs ''GET'', bs ''k'']", OF _ len, of "\<lambda>_. None" 1048576 "bs ''*1''"]
    by (simp add: All_less_Suc numeral_2_eq_2 conj_commute [of "Get _ 1 = _"])
qed

section \<open>Absence of panics\<close>

lemma parse_int_nonneg: "45 \<notin> set s \<Longrightarrow> 0 \<le> fst (parse_int s)"
proof -
  assume "45 \<notin> set s"
  then have "\<not> fst (sign_of s)" by (cases s) (auto simp: sign_of_def)
  then show ?thesis
    by (auto simp: parse_int_def Let_def dest: parse_uint_nonneg split: prod.splits sum.splits num_err.splits)
qed

lemma readByteAndNumberCrLf_nonneg:
  assumes "readByteAndNumberCrLf head xs = Some (v, w, None)" and "45 \<notin> set xs"
  shows "0 \<le> v"
proof (cases "w = 0")
  case True
  with assms(1) show ?thesis
    by (auto simp: readByteAndNumberCrLf_def split: if_splits option.splits prod.splits bind_splits)
next
  case False
  then obtain idx s where s: "gslice xs 1 (int idx) = Some s" "parse_int s = (v, None)"
    using assms(1) by (auto simp: readByteAndNumberCrLf_def split: if_splits option.splits prod.splits bind_splits)
  then have "45 \<notin> set s"
    using assms(2) by (auto simp: gslice_Some_iff dest: in_set_takeD in_set_dropD)
  with parse_int_nonneg [of s] s(2) show ?thesis by simp
qed

lemma read_bulk_no_panic:
  assumes "read_inv r inp" and "45 \<notin> set inp"
  shows "read_bulk r inp \<noteq> None"
proof -
  obtain len w err where h: "readByteAndNumberCrLf 36 (drop (unat (redis_read r)) inp) = Some (len, w, err)"
    by (rule read_bulk_header)
  have "err = None \<Longrightarrow> 0 \<le> len"
    using readByteAndNumberCrLf_nonneg [of 36 "drop (unat (redis_read r)) inp" len w] h assms(2)
    by (auto dest: in_set_dropD)
  have "accept_bulk r inp w len \<noteq> None" if "err = None"
  proof -
    have "0 \<le> uint (redis_read r) + int w + len"
      using that \<open>err = None \<Longrightarrow> 0 \<le> len\<close> by (simp add: unsigned_greater_eq)
    then show ?thesis by (simp add: accept_bulk_cases Let_def not_less)
  qed
  then show ?thesis unfolding read_bulk_cases [OF assms(1) h] by (cases err) auto
qed

lemma read_bulks_no_panic: "read_inv r inp \<Longrightarrow> 45 \<notin> set inp \<Longrightarrow> read_bulks r inp \<noteq> None"
proof (induction r inp rule: read_bulks.induct)
  case (1 r inp)
  show ?case
  proof (cases "int (length (ai r)) < uint (nargs r)")
    case False
    then show ?thesis by (subst read_bulks.simps) simp
  next
    case True
    obtain r' e where rb: "read_bulk r inp = Some (r', e)"
      using read_bulk_no_panic [OF "1.prems"] by auto
    show ?thesis
    proof (cases e)
      case None
      with "1.IH" [OF True rb refl None read_bulk_inv [OF "1.prems"(1) rb] "1.prems"(2)] rb True show ?thesis
        by (subst read_bulks.simps) simp
    next
      case (Some x)
      with rb True show ?thesis by (subst read_bulks.simps) simp
    qed
  qed
qed

lemma head_parse_total:
  assumes "bindex (crlf @ crlf) inp = Some idx"
  shows "\<exists>h' e. http_parse u m (h\<lparr>http_data := take (idx + 4) inp\<rparr>) = Some (h', e) \<and> length (http_data h') = idx + 4"
    and "idx + 4 \<le> length inp"
proof -
  let ?d = "take (idx + 4) inp"
  show "idx + 4 \<le> length inp" using bindex_bound [OF assms] by simp
  then have len: "length ?d = idx + 4" by simp
  moreover have "drop idx ?d = crlf @ crlf"
    using bindex_at [OF assms] by (simp add: take_drop add.commute)
  ultimately show "\<exists>h' e. http_parse u m (h\<lparr>http_data := ?d\<rparr>) = Some (h', e) \<and> length (http_data h') = idx + 4"
    using http_parse_total [of "h\<lparr>http_data := ?d\<rparr>" u m] by auto
qed

lemma process_head_no_panic:
  assumes "srs_http s \<noteq> None"
  shows "process_head u m s inp \<noteq> None"
proof (cases "bindex (crlf @ crlf) inp")
  case None
  then show ?thesis by (simp add: process_head_def)
next
  case (Some idx)
  obtain h where h: "srs_http s = Some h" using assms by auto
  obtain h' e where "http_parse u m (h\<lparr>http_data := take (idx + 4) inp\<rparr>) = Some (h', e)"
    using head_parse_total(1) [OF Some, of u m h] by blast
  then show ?thesis using Some h
    by (simp add: process_head_def process_body_def Let_def split: option.split)
qed

text \<open>
  C9: the parser returns on every HTTP input and on every RESP input without a minus
  sign: no run-time panic for any bytes that do not start with an asterisk, and none for
  a RESP command unless it announces a negative number.
\<close>

theorem process_no_panic:
  assumes "inp \<noteq> [] \<and> hd inp = 42 \<longrightarrow> 45 \<notin> set inp"
  shows "process url_parse RequestMaxBytes new_srs inp \<noteq> None"
proof -
  obtain num w err where h: "readByteAndNumberCrLf 42 inp = Some (num, w, err)"
    using readByteAndNumberCrLf_total [of 42 inp] by (cases "readByteAndNumberCrLf 42 inp") auto
  show ?thesis
  proof (cases "err = None \<and> (w = 0 \<or> num \<le> 65535)")
    case False
    then show ?thesis using h by (cases err) (auto simp: process_def new_srs_def)
  next
    case True
    then have h: "readByteAndNumberCrLf 42 inp = Some (num, w, None)" using h by simp
    have eq: "process url_parse RequestMaxBytes new_srs inp
        = process_stage url_parse RequestMaxBytes (enter new_srs num w) inp"
      using process_stage0 [OF _ h, of new_srs] True by (simp add: new_srs_def)
    show ?thesis
    proof (cases "w = 0")
      case True
      then show ?thesis using eq process_head_no_panic [of "enter new_srs num w"]
        by (simp add: process_stage_def enter_def)
    next
      case False
      note ok = readByteAndNumberCrLf_success [OF h]
      have "45 \<notin> set inp" using assms ok(2,3) False by (cases inp) auto
      moreover obtain r where r: "srs_redis (enter new_srs num w) = Some r" "read_inv r inp" "stage (enter new_srs num w) = 1"
        using enter_inv [OF h, of new_srs] False by (auto simp: enter_def srs_inv_def)
      ultimately obtain r' e where rb: "read_bulks r inp = Some (r', e)"
        using read_bulks_no_panic [of r inp] by auto
      have "read_inv r' inp" using read_bulks_append [OF r(2), of "[]"] rb by blast
      then show ?thesis using eq r rb
        by (cases e) (simp_all add: process_stage_def process_redis_def read_inv_def)
    qed
  qed
qed

theorem process_no_panic_witness:
  "process (\<lambda>_. None) 1048576 new_srs (bs ''GET / HTTP/1.1'' @ crlf @ crlf) \<noteq> None \<and>
   process (\<lambda>_. None) 1048576 new_srs (bs ''*2'' @ crlf @ bs ''$9'' @ crlf @ bs ''x'') \<noteq> None"
proof
  show "process (\<lambda>_. None) 1048576 new_srs (bs ''GET / HTTP/1.1'' @ crlf @ crlf) \<noteq> None" by (rule process_no_panic) (simp add: bs_def)
  show "process (\<lambda>_. None) 1048576 new_srs (bs ''*2'' @ crlf @ bs ''$9'' @ crlf @ bs ''x'') \<noteq> None" by (rule process_no_panic) (simp add: bs_def crlf_def)
qed

section \<open>HTTP requests\<close>

lemma bindex_skip:
  assumes "13 \<notin> set l"
  shows "bindex (crlf @ zs) (l @ xs) = map_option (\<lambda>i. length l + i) (bindex (crlf @ zs) xs)"
  using assms by (induction l; cases "bindex (crlf @ zs) xs") (auto simp: crlf_def)

lemma bindex_skip_crlf:
  assumes "xs \<noteq> []" and "hd xs \<noteq> 13"
  shows "bindex (crlf @ crlf) (crlf @ xs) = map_option (\<lambda>i. 2 + i) (bindex (crlf @ crlf) xs)"
  using assms by (cases xs; cases "bindex (crlf @ crlf) xs") (auto simp: crlf_def)

text \<open>The head of a request ends at the first empty line.\<close>

lemma bindex_request:
  assumes "list_all plain_line ls" and "plain_line l"
  shows "bindex (crlf @ crlf) (lines_text (l # ls) @ crlf @ rest) = Some (length (lines_text (l # ls)) - 2)"
  using assms
proof (induction ls arbitrary: l)
  case Nil
  then have "13 \<notin> set l" by (simp add: plain_line_def)
  then show ?case by (simp add: bindex_skip) (simp add: crlf_def)
next
  case (Cons l' ls)
  let ?t = "lines_text (l' # ls) @ crlf @ rest"
  have l: "13 \<notin> set l" and l': "plain_line l'" using Cons.prems by (simp_all add: plain_line_def)
  have IH: "bindex (crlf @ crlf) ?t = Some (length (lines_text (l' # ls)) - 2)"
    using Cons by simp
  have t: "?t \<noteq> []" "hd ?t \<noteq> 13" using l' by (cases l'; auto simp: plain_line_def)+
  have "bindex (crlf @ crlf) (crlf @ ?t) = Some (2 + (length (lines_text (l' # ls)) - 2))"
    unfolding bindex_skip_crlf [OF t] IH by simp
  then show ?case using bindex_skip [OF l, of crlf "crlf @ ?t"] by simp
qed

lemma request_head_not_star:
  assumes "meth \<noteq> []" and "hd meth \<noteq> 42"
  shows "readByteAndNumberCrLf 42 (request_head meth t version hdrs @ rest) = Some (0, 0, None)"
proof -
  have "4 \<le> length (request_head meth t version hdrs)" by (simp add: request_head_def)
  moreover have "(request_head meth t version hdrs @ rest) ! 0 \<noteq> 42"
    using assms by (cases meth) (auto simp: request_head_def)
  ultimately show ?thesis by (simp add: readByteAndNumberCrLf_def)
qed

lemma parse_headers_frame:
  "parse_headers m r ls = (r', e) \<Longrightarrow>
     http_path r' = http_path r \<and> qStart r' = qStart r \<and> qEnd r' = qEnd r \<and> hdrLen r' = hdrLen r"
proof (induction m r ls rule: parse_headers.induct)
  case (2 m r l ls)
  show ?case
  proof (cases "header_pair l")
    case None
    with "2.prems" show ?thesis by simp
  next
    case (Some kv)
    obtain k v where kv: "kv = (k, v)" by fastforce
    obtain r1 e1 where a: "apply_header m r k v = (r1, e1)" by fastforce
    have "http_path r1 = http_path r \<and> qStart r1 = qStart r \<and> qEnd r1 = qEnd r \<and> hdrLen r1 = hdrLen r"
      using a by (auto simp: apply_header_def split: if_splits prod.splits)
    with "2.IH" [OF Some kv [symmetric] a [symmetric]] "2.prems" Some kv a show ?thesis
      by (cases e1) auto
  qed
qed simp

lemma http_request_parsed:
  assumes "meth \<noteq> []" and "hd meth \<noteq> 42" and "32 \<notin> set meth" and "13 \<notin> set meth"
    and "13 \<notin> set t" and "32 \<notin> set version" and "13 \<notin> set version"
    and "int (length meth + 1 + length t) \<le> 0xffff" and "list_all plain_line hdrs"
    and "prefix (bs ''/'') (unescape_ref False (target_path t) (target_path t))"
    and "parse_headers RequestMaxBytes
           (target_request meth t (length (request_head meth t version hdrs))) hdrs = (r, None)"
    and "unat (bodyLen r) = length body"
    and "length (request_head meth t version hdrs @ body) < 2 ^ 32"
  shows "\<exists>s h inp. process url_parse RequestMaxBytes new_srs (request_head meth t version hdrs @ body @ rest)
        = Some (s, inp, None)
    \<and> srs_http s = Some h \<and> h = r\<lparr>http_data := decoded_head meth t version hdrs @ body\<rparr>
    \<and> http_data h = decoded_head meth t version hdrs @ body
    \<and> length (http_data h) = length (request_head meth t version hdrs @ body)
    \<and> unat (bodyLen h) + unat (hdrLen h) = length (request_head meth t version hdrs @ body)
    \<and> http_path h = unescape_ref False (target_path t) (target_path t)
    \<and> http_host h = http_host r \<and> wsUpgrade h = wsUpgrade r \<and> Body h = Some body
    \<and> drop (unat (bodyLen h) + unat (hdrLen h)) inp = rest"
proof -
  let ?head = "request_head meth t version hdrs"
  let ?line = "meth @ 32 # t @ 32 # version"
  obtain d where parse: "http_parse url_parse RequestMaxBytes (new_http\<lparr>http_data := ?head\<rparr>) = Some (r\<lparr>http_data := d\<rparr>, None)"
    and dec: "d = decoded_head meth t version hdrs"
    using http_parse_request_head [OF assms(3-9) assms(10), of url_parse RequestMaxBytes] assms(11) by auto
  have "plain_line ?line" using assms by (auto simp: plain_line_def)
  then have idx: "bindex (crlf @ crlf) (?head @ body @ rest) = Some (length ?head - 4)"
    using bindex_request [OF assms(9), of ?line "body @ rest"] by (simp add: request_head_def)
  have len4: "length ?head - 4 + 4 = length ?head" by (simp add: request_head_def)
  have "length d = length ?head"
    using http_parse_total [of "new_http\<lparr>http_data := ?head\<rparr>" url_parse RequestMaxBytes] parse
      bindex_at [OF idx] len4 by (auto simp: take_drop)
  then have dlen: "length d = length ?head" .
  have frame: "http_path r = unescape_ref False (target_path t) (target_path t)" "hdrLen r = word_of_nat (length ?head)"
    using parse_headers_frame [OF assms(11)] by (simp_all add: target_request_def)
  have hl: "unat (hdrLen r) = length ?head" using frame(2) u32_of_nat [of "length ?head"] assms(13) by simp
  define s where "s = enter new_srs 0 0"
  have s: "srs_http s = Some new_http" "stage s = 6" by (simp_all add: s_def enter_def)
  have "process url_parse RequestMaxBytes new_srs (?head @ body @ rest) =
      process_head url_parse RequestMaxBytes s (?head @ body @ rest)"
    using process_stage0 [OF _ request_head_not_star [OF assms(1,2)], of new_srs] s
    by (simp add: s_def process_stage_def new_srs_def)
  also have "\<dots> = (let s' = s\<lparr>srs_http := Some (r\<lparr>http_data := d\<rparr>)\<rparr>; inp' = d @ body @ rest in
      if bodyLen r = 0 then Some (s'\<lparr>stage := 8\<rparr>, inp', None) else process_body (s'\<lparr>stage := 7\<rparr>) inp')"
    using s parse by (simp add: process_head_def idx len4)
  finally have eq: "process url_parse RequestMaxBytes new_srs (?head @ body @ rest) =
     (let s' = s\<lparr>srs_http := Some (r\<lparr>http_data := d\<rparr>)\<rparr>; inp' = d @ body @ rest in
      if bodyLen r = 0 then Some (s'\<lparr>stage := 8\<rparr>, inp', None) else process_body (s'\<lparr>stage := 7\<rparr>) inp')" .
  have "unat (hdrLen r + bodyLen r) = length d + length body"
    using hl assms(12,13) dlen by (simp add: unat_word_ariths)
  then have sum: "uint (hdrLen r + bodyLen r) = int (length d + length body)" by (metis of_nat_unat)
  have drop: "drop (unat (bodyLen r) + unat (hdrLen r)) (d @ body @ rest) = rest"
    by (rule drop_prefix [of _ "d @ body"]) (simp_all add: assms(12) hl dlen)
  have body: "Body (r\<lparr>http_data := d @ body\<rparr>) = Some body"
  proof -
    have "uint (bodyLen r) = int (length body)" using assms(12) by (metis of_nat_unat)
    then have "int (length (d @ body)) - uint (bodyLen r) = int (length d)" by simp
    then show ?thesis using gslice_nat [of "d @ body" "length d" "length (d @ body)"] by (simp add: Body_def)
  qed
  show ?thesis
  proof (cases "bodyLen r = 0")
    case True
    then have "body = []" using assms(12) by simp
    with True eq body drop frame(1) dlen dec hl show ?thesis by (simp add: Let_def)
  next
    case False
    let ?h = "r\<lparr>http_data := d @ body\<rparr>"
    have "process_body (s\<lparr>srs_http := Some (r\<lparr>http_data := d\<rparr>), stage := 7\<rparr>) (d @ body @ rest) =
        Some (s\<lparr>srs_http := Some ?h, stage := 999\<rparr>, d @ body @ rest, None)"
      by (simp add: process_body_def sum Let_def nat_add_distrib)
    with False eq body drop frame(1) dlen dec hl assms(12) show ?thesis by (simp add: Let_def)
  qed
qed

text \<open>
  C7: a request (meth, target, version, header lines, and a body as long as the headers
  announce) is read whole, whatever follows it: the parser reports no error, the path is
  the decoded path of the target, the fields the headers set are those of the fold over
  the header lines, \<open>Body\<close> is the body, and the connection drops exactly the head and the
  body from its buffer.
\<close>

theorem process_http_request:
  assumes "meth \<noteq> []" and "hd meth \<noteq> 42" and "32 \<notin> set meth" and "13 \<notin> set meth"
    and "13 \<notin> set t" and "32 \<notin> set version" and "13 \<notin> set version"
    and "int (length meth + 1 + length t) \<le> 0xffff" and "list_all plain_line hdrs"
    and "prefix (bs ''/'') (unescape_ref False (target_path t) (target_path t))"
    and "parse_headers RequestMaxBytes
           (target_request meth t (length (request_head meth t version hdrs))) hdrs = (r, None)"
    and "unat (bodyLen r) = length body"
    and "length (request_head meth t version hdrs @ body) < 2 ^ 32"
  shows "\<exists>s h inp. process url_parse RequestMaxBytes new_srs (request_head meth t version hdrs @ body @ rest)
        = Some (s, inp, None)
    \<and> srs_http s = Some h
    \<and> http_path h = unescape_ref False (target_path t) (target_path t)
    \<and> http_host h = http_host r \<and> wsUpgrade h = wsUpgrade r \<and> Body h = Some body
    \<and> drop (unat (bodyLen h) + unat (hdrLen h)) inp = rest"
  using http_request_parsed [OF assms] by blast

definition sample_headers :: "bytes list" where
  "sample_headers = [bs ''Host: h'', bs ''Content-Length: 2'']"

definition sample_request :: http where
  "sample_request = fst (parse_headers 1048576 (target_request (bs ''POST'') (bs ''/a%41?x=1'')
     (length (request_head (bs ''POST'') (bs ''/a%41?x=1'') (bs ''HTTP/1.1'') sample_headers))) sample_headers)"

lemma sample_request_parsed:
  "parse_headers 1048576 (target_request (bs ''POST'') (bs ''/a%41?x=1'')
     (length (request_head (bs ''POST'') (bs ''/a%41?x=1'') (bs ''HTTP/1.1'') sample_headers))) sample_headers
   = (sample_request, None)"
proof (rule prod_eqI)
  show "snd (parse_headers 1048576 (target_request (bs ''POST'') (bs ''/a%41?x=1'')
     (length (request_head (bs ''POST'') (bs ''/a%41?x=1'') (bs ''HTTP/1.1'') sample_headers))) sample_headers)
   = snd (sample_request, None)" by code_simp
qed (simp add: sample_request_def)

lemma sample_request_fields: "unat (bodyLen sample_request) = 2" "http_host sample_request = bs ''h''"
  by code_simp+

lemma sample_request_length:
  "length (request_head (bs ''POST'') (bs ''/a%41?x=1'') (bs ''HTTP/1.1'') sample_headers @ bs ''hi'') = 57"
  by code_simp

theorem process_http_request_witness:
  "\<exists>s h inp. process (\<lambda>_. None) 1048576 new_srs
       (request_head (bs ''POST'') (bs ''/a%41?x=1'') (bs ''HTTP/1.1'') sample_headers @ bs ''hi'' @ bs ''GET'')
        = Some (s, inp, None)
    \<and> srs_http s = Some h \<and> http_path h = bs ''/aA''
    \<and> http_host h = bs ''h'' \<and> wsUpgrade h = wsUpgrade sample_request \<and> Body h = Some (bs ''hi'')
    \<and> drop (unat (bodyLen h) + unat (hdrLen h)) inp = bs ''GET''"
proof -
  have p: "unescape_ref False (target_path (bs ''/a%41?x=1'')) (target_path (bs ''/a%41?x=1'')) = bs ''/aA''"
    by code_simp
  have h: "list_all plain_line sample_headers" by code_simp
  have m: "bs ''POST'' \<noteq> []" "hd (bs ''POST'') \<noteq> 42" "32 \<notin> set (bs ''POST'')" "13 \<notin> set (bs ''POST'')"
    "13 \<notin> set (bs ''/a%41?x=1'')" "32 \<notin> set (bs ''HTTP/1.1'')" "13 \<notin> set (bs ''HTTP/1.1'')"
    "int (length (bs ''POST'') + 1 + length (bs ''/a%41?x=1'')) \<le> 0xffff"
    "prefix (bs ''/'') (bs ''/aA'')" "length (bs ''hi'') = 2" by code_simp+
  have b: "unat (bodyLen sample_request) = length (bs ''hi'')" by (simp add: sample_request_fields m)
  have l: "length (request_head (bs ''POST'') (bs ''/a%41?x=1'') (bs ''HTTP/1.1'') sample_headers @ bs ''hi'')
     < 2 ^ 32" unfolding sample_request_length by simp
  show ?thesis
    using process_http_request [OF m(1-8) h, unfolded p, OF m(9) sample_request_parsed b l,
        of "\<lambda>_. None" "bs ''GET''"]
    unfolding sample_request_fields(2) .
qed

text \<open>
  C8: the headers of an accepted request are found as the client sent them: \<open>ForeachHeader\<close> visits
  the pairs of the header lines in their order, the keys in lower case and the values trimmed,
  and \<open>GetHeader\<close> returns the value of the first line with the key, or nothing. The decoded
  path must not contain a carriage return, since it is decoded in the buffer in front of
  the headers.
\<close>

theorem request_headers_found:
  assumes "meth \<noteq> []" and "hd meth \<noteq> 42" and "32 \<notin> set meth" and "13 \<notin> set meth"
    and "13 \<notin> set t" and "32 \<notin> set version" and "13 \<notin> set version"
    and "int (length meth + 1 + length t) \<le> 0xffff" and "list_all plain_line hdrs"
    and "prefix (bs ''/'') (unescape_ref False (target_path t) (target_path t))"
    and "parse_headers RequestMaxBytes
           (target_request meth t (length (request_head meth t version hdrs))) hdrs = (r, None)"
    and "unat (bodyLen r) = length body"
    and "length (request_head meth t version hdrs @ body) < 2 ^ 32"
    and "13 \<notin> set (decoded_line meth t version)"
  shows "\<exists>s h inp. process url_parse RequestMaxBytes new_srs (request_head meth t version hdrs @ body @ rest)
        = Some (s, inp, None) \<and> srs_http s = Some h
    \<and> ForeachHeader f h st = Some (fold_headers f (List.map_filter header_pair hdrs) st)
    \<and> GetHeader h key = Some (case map_of (List.map_filter header_pair hdrs) key of None \<Rightarrow> [] | Some v \<Rightarrow> v)"
proof -
  obtain s h inp where p: "process url_parse RequestMaxBytes new_srs (request_head meth t version hdrs @ body @ rest) = Some (s, inp, None)"
    "srs_http s = Some h" "http_data h = decoded_head meth t version hdrs @ body"
    using http_request_parsed [OF assms(1-13), of url_parse rest] by blast
  have e: "snd (parse_headers RequestMaxBytes (target_request meth t (length (request_head meth t version hdrs))) hdrs) = None"
    using assms(11) by simp
  show ?thesis
    using p(1,2) ForeachHeader_request [OF p(3) assms(14,9) e, of f st] GetHeader_request [OF p(3) assms(14,9) e, of key] by blast
qed

theorem request_headers_found_witness:
  "\<exists>s h inp. process (\<lambda>_. None) 1048576 new_srs
       (request_head (bs ''POST'') (bs ''/a%41?x=1'') (bs ''HTTP/1.1'') sample_headers @ bs ''hi'' @ [])
        = Some (s, inp, None) \<and> srs_http s = Some h
    \<and> ForeachHeader (\<lambda>k v n. (Suc n, True)) h 0 = Some (fold_headers (\<lambda>k v n. (Suc n, True)) (List.map_filter header_pair sample_headers) 0)
    \<and> GetHeader h (bs ''host'') = Some (case map_of (List.map_filter header_pair sample_headers) (bs ''host'') of None \<Rightarrow> [] | Some v \<Rightarrow> v)"
proof (rule request_headers_found [OF _ _ _ _ _ _ _ _ _ _ sample_request_parsed])
  show "prefix (bs ''/'') (unescape_ref False (target_path (bs ''/a%41?x=1'')) (target_path (bs ''/a%41?x=1'')))" by code_simp
  show "13 \<notin> set (decoded_line (bs ''POST'') (bs ''/a%41?x=1'') (bs ''HTTP/1.1''))" by code_simp
  show "length (request_head (bs ''POST'') (bs ''/a%41?x=1'') (bs ''HTTP/1.1'') sample_headers @ bs ''hi'') < 2 ^ 32"
    unfolding sample_request_length by simp
qed (simp_all add: sample_request_fields bs_def sample_headers_def plain_line_def)

section \<open>The types of the read state\<close>

definition srs_typed :: "server_read_state \<Rightarrow> bool" where
  "srs_typed s \<longleftrightarrow>
     (stage s = 0 \<and> srs_redis s = None \<and> srs_http s = None) \<or>
     (stage s = 1 \<and> srs_redis s \<noteq> None \<and> srs_http s = None) \<or>
     (stage s \<in> {6, 7, 8} \<and> srs_http s \<noteq> None \<and> srs_redis s = None) \<or>
     (stage s = 999 \<and> (srs_http s = None) \<noteq> (srs_redis s = None))"

lemma process_redis_typed:
  "process_redis s inp = Some (s', inp', e) \<Longrightarrow> srs_typed s \<Longrightarrow> stage s = 1 \<Longrightarrow> srs_typed s' \<and> stage s' \<noteq> 0"
  by (auto simp: process_redis_def srs_typed_def split: bind_splits option.splits)

lemma process_body_typed:
  "process_body s inp = Some (s', inp', e) \<Longrightarrow> srs_typed s \<Longrightarrow> stage s = 7 \<Longrightarrow> srs_typed s' \<and> stage s' \<noteq> 0"
  by (auto simp: process_body_def srs_typed_def Let_def split: bind_splits option.splits if_splits)

lemma process_head_typed:
  assumes "process_head u m s inp = Some (s', inp', e)" and "srs_typed s" and "stage s = 6"
  shows "srs_typed s' \<and> stage s' \<noteq> 0"
proof (cases "bindex (crlf @ crlf) inp")
  case None
  then show ?thesis using assms by (auto simp: process_head_def)
next
  case (Some idx)
  obtain h where h: "srs_http s = Some h" "srs_redis s = None" using assms(2,3) by (auto simp: srs_typed_def)
  obtain h' err where p: "http_parse u m (h\<lparr>http_data := take (idx + 4) inp\<rparr>) = Some (h', err)"
    using head_parse_total(1) [OF Some, of u m h] by blast
  let ?s = "s\<lparr>srs_http := Some h'\<rparr>"
  have t: "srs_typed ?s" "srs_typed (?s\<lparr>stage := 8\<rparr>)" "srs_typed (?s\<lparr>stage := 7\<rparr>)" using h assms(3) by (simp_all add: srs_typed_def)
  show ?thesis using assms(1,3) h p Some t process_body_typed [OF _ t(3)]
    by (auto simp: process_head_def Let_def split: option.splits if_splits)
qed

text \<open>
  C10: the fields of a connection's read state have the types its stage promises: nothing before
  the first byte, a command in the stage of RESP, a request in the stages of HTTP. Every call of
  the parser keeps this, whatever it returns, and a call that reports a complete request
  leaves exactly one of the two set.
\<close>

theorem process_typed:
  assumes "srs_typed s" and "process url_parse RequestMaxBytes s inp = Some (s', inp', e)"
  shows "srs_typed s' \<and> (e = None \<longrightarrow> (srs_http s' = None) \<noteq> (srs_redis s' = None))"
proof -
  have st: "srs_typed s' \<and> stage s' \<noteq> 0" if "process_stage url_parse RequestMaxBytes s inp = Some (s', inp', e)" "srs_typed s" "stage s \<noteq> 0" for s
    using that process_redis_typed [of s inp s' inp' e] process_body_typed [of s inp s' inp' e] process_head_typed [of url_parse RequestMaxBytes s inp s' inp' e]
    by (auto simp: process_stage_def split: if_splits)
  have fin: "(srs_http s' = None) \<noteq> (srs_redis s' = None)" if "srs_typed s'" "stage s' \<noteq> 0" using that by (auto simp: srs_typed_def)
  show ?thesis
  proof (cases "stage s = 0")
    case False
    then have "process_stage url_parse RequestMaxBytes s inp = Some (s', inp', e)" using assms(2) by (simp add: process_def)
    then show ?thesis using st [OF _ assms(1) False] fin by auto
  next
    case True
    obtain num w err where r: "readByteAndNumberCrLf 42 inp = Some (num, w, err)" using assms(2) True by (auto simp: process_def split: bind_splits)
    show ?thesis
    proof (cases "err = None \<and> (w = 0 \<or> num \<le> 65535)")
      case False
      then show ?thesis using assms r True by (cases err) (auto simp: process_def)
    next
      case h: True
      then have "process_stage url_parse RequestMaxBytes (enter s num w) inp = Some (s', inp', e)"
        using process_stage0 [OF True, of inp num w url_parse RequestMaxBytes] r assms(2) by simp
      moreover have "srs_typed (enter s num w)" "stage (enter s num w) \<noteq> 0" using assms(1) True by (auto simp: enter_def srs_typed_def)
      ultimately show ?thesis using st [of "enter s num w"] fin by auto
    qed
  qed
qed

lemma sample_partial: "process (\<lambda>_. None) 1048576 new_srs (bs ''GET /'') =
    Some (new_srs\<lparr>srs_http := Some new_http, stage := 6\<rparr>, bs ''GET /'', Some ErrWaitMore)"
proof -
  have "bindex (crlf @ crlf) (bs ''GET /'') = None" by code_simp
  then show ?thesis by (simp add: process_def readByteAndNumberCrLf_def process_stage_def process_head_def new_srs_def bs_def)
qed

lemma sample_complete:
  "\<exists>s inp. process (\<lambda>_. None) 1048576 new_srs
     (request_head (bs ''POST'') (bs ''/a%41?x=1'') (bs ''HTTP/1.1'') sample_headers @ bs ''hi'' @ []) = Some (s, inp, None) \<and> srs_http s \<noteq> None"
  "\<exists>s inp. process (\<lambda>_. None) 1048576 new_srs (resp_command [bs ''PING''] @ []) = Some (s, inp, None) \<and> srs_redis s \<noteq> None"
proof -
  have "prefix (bs ''/'') (unescape_ref False (target_path (bs ''/a%41?x=1'')) (target_path (bs ''/a%41?x=1'')))" by code_simp
  then show "\<exists>s inp. process (\<lambda>_. None) 1048576 new_srs
      (request_head (bs ''POST'') (bs ''/a%41?x=1'') (bs ''HTTP/1.1'') sample_headers @ bs ''hi'' @ []) = Some (s, inp, None) \<and> srs_http s \<noteq> None"
    using http_request_parsed [OF _ _ _ _ _ _ _ _ _ _ sample_request_parsed, of "bs ''hi''" "\<lambda>_. None" "[]"] sample_request_length
    by (simp add: sample_request_fields) (fastforce simp: bs_def sample_headers_def plain_line_def)
  have "length (resp_command [bs ''PING'']) < 2 ^ 32" by (simp add: resp_command_def resp_bulk_def format_int_def format_uint.simps)
  then show "\<exists>s inp. process (\<lambda>_. None) 1048576 new_srs (resp_command [bs ''PING''] @ []) = Some (s, inp, None) \<and> srs_redis s \<noteq> None"
    using command_parsed [of "[bs ''PING'']" "\<lambda>_. None" 1048576 "[]"] by (fastforce simp del: append_Nil2)
qed

theorem process_typed_witness:
  "(\<exists>s. process (\<lambda>_. None) 1048576 new_srs (bs ''GET /'') = Some (s, bs ''GET /'', Some ErrWaitMore) \<and> srs_typed s) \<and>
   (\<exists>s inp. process (\<lambda>_. None) 1048576 new_srs
       (request_head (bs ''POST'') (bs ''/a%41?x=1'') (bs ''HTTP/1.1'') sample_headers @ bs ''hi'' @ []) = Some (s, inp, None) \<and>
     srs_typed s \<and> srs_http s \<noteq> None \<and> srs_redis s = None) \<and>
   (\<exists>s inp. process (\<lambda>_. None) 1048576 new_srs (resp_command [bs ''PING''] @ []) = Some (s, inp, None) \<and>
     srs_typed s \<and> srs_redis s \<noteq> None \<and> srs_http s = None)"
proof -
  have n: "srs_typed new_srs" by (simp add: srs_typed_def new_srs_def)
  obtain s1 i1 where 1: "process (\<lambda>_. None) 1048576 new_srs
      (request_head (bs ''POST'') (bs ''/a%41?x=1'') (bs ''HTTP/1.1'') sample_headers @ bs ''hi'' @ []) = Some (s1, i1, None)" "srs_http s1 \<noteq> None"
    using sample_complete(1) by blast
  obtain s2 i2 where 2: "process (\<lambda>_. None) 1048576 new_srs (resp_command [bs ''PING''] @ []) = Some (s2, i2, None)" "srs_redis s2 \<noteq> None"
    using sample_complete(2) by blast
  show ?thesis using process_typed [OF n sample_partial] process_typed [OF n 1(1)] process_typed [OF n 2(1)] sample_partial 1 2 by blast
qed

end
