(* ===== verification/Websocket.thy ===== *)
theory Websocket
  imports Resh_Util
begin

text \<open>
  ws.go: the frames of a WebSocket connection. \<open>ws_parse\<close> reads one masked client frame
  from the input buffer and unmasks its payload in place; \<open>frame_bytes\<close> is what
  \<open>Websocket.write\<close> appends to the output buffer. The reference encoder of client frames
  and the reference decoder of server frames follow the base framing of RFC 6455.
\<close>

section \<open>State\<close>

record ws_frame =
  frame_data :: bytes
  opcode :: byte
  fin :: bool
  frame_len :: int

record websocket =
  parsedFrame :: ws_frame
  contFrame :: "bytes option"
  ws_closed :: bool
  closingData :: bytes

definition new_websocket :: websocket where
  "new_websocket = \<lparr>parsedFrame = \<lparr>frame_data = [], opcode = 0, fin = False, frame_len = 0\<rparr>,
     contFrame = None, ws_closed = False, closingData = []\<rparr>"

section \<open>Big-endian numbers\<close>

text \<open>\<open>binary.BigEndian.Uint16\<close> and \<open>Uint64\<close> of two and of eight bytes, and \<open>AppendUint64\<close>.\<close>

definition be_uint :: "bytes \<Rightarrow> int" where
  "be_uint xs = foldl (\<lambda>v b. v * 256 + uint b) 0 xs"

fun be_bytes :: "nat \<Rightarrow> int \<Rightarrow> bytes" where
  "be_bytes 0 v = []"
| "be_bytes (Suc k) v = be_bytes k (v div 256) @ [word_of_int v]"

lemma length_be_bytes [simp]: "length (be_bytes k v) = k"
  by (induction k arbitrary: v) auto

lemma be_uint_be_bytes: "0 \<le> v \<Longrightarrow> v < 256 ^ k \<Longrightarrow> be_uint (be_bytes k v) = v"
proof (induction k arbitrary: v)
  case 0
  then show ?case by (simp add: be_uint_def)
next
  case (Suc k)
  have "v div 256 < 256 ^ k" using Suc.prems by (simp add: div_less_iff_less_mult mult.commute)
  with Suc have "be_uint (be_bytes k (v div 256)) = v div 256" by simp
  then have "foldl (\<lambda>v b. v * 256 + uint b) 0 (be_bytes k (v div 256)) = v div 256"
    by (simp add: be_uint_def)
  moreover have "uint (word_of_int v :: byte) = v mod 256" by (simp add: uint_word_of_int)
  ultimately show ?case by (simp add: be_uint_def)
qed

lemma be_uint_nonneg: "0 \<le> be_uint xs"
proof -
  have "0 \<le> v \<Longrightarrow> 0 \<le> foldl (\<lambda>v (b :: byte). v * 256 + uint b) v xs" for v :: int
    by (induction xs arbitrary: v) auto
  then show ?thesis by (simp add: be_uint_def)
qed

lemma be_uint_snoc: "be_uint (xs @ [b]) = be_uint xs * 256 + uint b"
  by (simp add: be_uint_def)

lemma be_uint_less: "be_uint xs < 256 ^ length xs"
proof (induction xs rule: rev_induct)
  case Nil
  then show ?case by (simp add: be_uint_def)
next
  case (snoc b xs)
  have "uint b < 256" using unsigned_less [of b] by simp
  with snoc show ?case by (simp add: be_uint_snoc)
qed

lemma be_uint_take8: "be_uint (take 8 xs) < 2 ^ 64"
proof -
  have "(256 :: int) ^ length (take 8 xs) \<le> 256 ^ 8" by (rule power_increasing) simp_all
  with be_uint_less [of "take 8 xs"] show ?thesis by simp
qed

section \<open>Masking\<close>

text \<open>The loop \<open>f.data[i] ^= mask[i%4]\<close>.\<close>

definition xor_mask :: "bytes \<Rightarrow> bytes \<Rightarrow> bytes" where
  "xor_mask key data = map (\<lambda>i. (data ! i) XOR (key ! (i mod 4))) [0..<length data]"

lemma length_xor_mask [simp]: "length (xor_mask key data) = length data"
  by (simp add: xor_mask_def)

lemma xor_mask_xor_mask [simp]: "xor_mask key (xor_mask key data) = data"
  by (rule nth_equalityI) (simp_all add: xor_mask_def xor.assoc)

section \<open>Reading a frame\<close>

text \<open>
  The switch of \<open>Websocket.parse\<close>: where the payload starts and its length, or \<open>None\<close>
  when the buffer is too short. The 64-bit length is converted to Go's int.
\<close>

definition frame_head :: "bytes \<Rightarrow> (int \<times> int) option" where
  "frame_head inp =
     (let sz = uint (inp ! 1 AND 0x7f) in
      if sz = 126 then
        (if length inp < 8 then None
         else let sz = be_uint (take 2 (drop 2 inp)) in
           if int (length inp) < 8 + sz then None else Some (8, sz))
      else if sz = 127 then
        (if length inp < 14 then None
         else let sz = i64 (be_uint (take 8 (drop 2 inp))) in
           if int (length inp) < i64 (14 + sz) then None else Some (14, sz))
      else if int (length inp) < 6 + sz then None else Some (6, sz))"

text \<open>
  The part of \<open>Websocket.parse\<close> after the switch: \<open>off\<close> is where the payload starts and
  the key stands right before it. \<open>off + sz\<close> is computed in Go's int.
\<close>

definition take_frame :: "websocket \<Rightarrow> bytes \<Rightarrow> int \<Rightarrow> int \<Rightarrow>
    (websocket \<times> bytes \<times> go_error option) option" where
  "take_frame ws inp off sz = do {
     key \<leftarrow> gslice inp (off - 4) off;
     data \<leftarrow> gslice inp off (i64 (off + sz));
     let data' = xor_mask key data;
         f = \<lparr>frame_data = data', opcode = inp ! 0 AND 0xf, fin = drop_bit 7 (inp ! 0) > 0,
              frame_len = i64 (off + sz)\<rparr>
     in Some (ws\<lparr>parsedFrame := f\<rparr>, overwrite inp (nat off) data', None) }"

definition ws_parse :: "websocket \<Rightarrow> bytes \<Rightarrow> (websocket \<times> bytes \<times> go_error option) option" where
  "ws_parse ws inp =
     (if length inp < 2 then Some (ws, inp, Some ErrWaitMore)
      else case frame_head inp of
             None \<Rightarrow> Some (ws, inp, Some ErrWaitMore)
           | Some (off, sz) \<Rightarrow> take_frame ws inp off sz)"

section \<open>Writing a frame\<close>

definition frame_bytes :: "byte \<Rightarrow> bytes \<Rightarrow> bytes" where
  "frame_bytes ty p =
     (0x80 OR ty) #
     (if length p < 126 then [word_of_nat (length p)]
      else if int (length p) < 65536 then
        (let v = word_of_nat (length p) :: u16 in [126, ucast (drop_bit 8 v), ucast v])
      else 127 # be_bytes 8 (int (length p))) @ p"

definition close_message :: bytes where
  "close_message = bs ''websocket: close 1000 (normal)''"

section \<open>Parsing is incremental\<close>

lemma frame_head_append: "2 \<le> length xs \<Longrightarrow> frame_head xs = Some p \<Longrightarrow> frame_head (xs @ ys) = Some p"
  by (auto simp: frame_head_def Let_def nth_append split: if_splits)

lemma frame_head_bounds:
  assumes "frame_head xs = Some (off, sz)"
  shows "off \<in> {6, 8, 14}" and "off \<le> int (length xs)" and "i64 (off + sz) \<le> int (length xs)"
    and "off \<noteq> 14 \<Longrightarrow> 0 \<le> sz \<and> i64 (off + sz) = off + sz"
proof -
  define z where "z = uint (xs ! 1 AND 0x7f)"
  have z: "0 \<le> z" "z < 256" using unsigned_less [of "xs ! 1 AND 0x7f"] by (simp_all add: z_def)
  have "be_uint (take 2 (drop 2 xs)) < 65536" if "\<not> length xs < 8"
    using be_uint_less [of "take 2 (drop 2 xs)"] that by simp
  then show "off \<in> {6, 8, 14}" and "off \<le> int (length xs)" and "i64 (off + sz) \<le> int (length xs)"
    and "off \<noteq> 14 \<Longrightarrow> 0 \<le> sz \<and> i64 (off + sz) = off + sz"
    using assms z be_uint_nonneg [of "take 2 (drop 2 xs)"]
    unfolding frame_head_def z_def [symmetric] by (auto simp: Let_def i64_id split: if_splits)
qed

text \<open>The frame a complete header describes; the slice panics when the end overflows int.\<close>

lemma take_frame_cases:
  assumes "frame_head xs = Some (off, sz)" and "2 \<le> length xs"
  shows "take_frame ws (xs @ ys) off sz =
    (let e = i64 (off + sz) in
     if e < off then None
     else let d = xor_mask (take 4 (drop (nat off - 4) xs)) (take (nat e - nat off) (drop (nat off) xs))
       in Some (ws\<lparr>parsedFrame := \<lparr>frame_data = d, opcode = xs ! 0 AND 0xf,
                  fin = drop_bit 7 (xs ! 0) > 0, frame_len = e\<rparr>\<rparr>, overwrite xs (nat off) d @ ys, None))"
proof -
  define e where "e = i64 (off + sz)"
  obtain k where k: "off = int k" "4 \<le> k" "k \<le> length xs" using frame_head_bounds(1,2) [OF assms(1)] by auto
  have m: "gslice (xs @ ys) (off - 4) off = Some (take 4 (drop (k - 4) xs))"
    using gslice_nat [of "xs @ ys" "k - 4" k] k by (simp add: of_nat_diff)
  have h: "(xs @ ys) ! 0 = xs ! 0" using assms(2) by (auto simp: nth_append)
  show ?thesis
  proof (cases "e < off")
    case True
    with m show ?thesis by (simp add: take_frame_def gslice_inverted e_def [symmetric] Let_def)
  next
    case False
    then obtain n where n: "e = int n" "k \<le> n" using k by (metis nonneg_int_cases not_le of_nat_0_le_iff of_nat_le_iff order_trans)
    then have "n \<le> length xs" using frame_head_bounds(3) [OF assms(1)] by (simp add: e_def)
    then show ?thesis using m h n k unfolding take_frame_def e_def [symmetric]
      by (simp add: Let_def overwrite_append)
  qed
qed

lemma ws_parse_head:
  assumes "2 \<le> length xs" and "frame_head xs = Some (off, sz)"
  shows "ws_parse ws (xs @ ys) = take_frame ws (xs @ ys) off sz"
  using assms frame_head_append [OF assms, of ys] by (simp add: ws_parse_def)

lemma take_frame_not_wait: "take_frame ws inp off sz = Some (ws', inp', e) \<Longrightarrow> e = None"
  by (auto simp: take_frame_def Let_def split: bind_splits)

lemma ws_parse_wait:
  "ws_parse ws xs = Some (ws', xs', Some ErrWaitMore) \<Longrightarrow>
   ws' = ws \<and> xs' = xs"
  by (auto simp: ws_parse_def dest: take_frame_not_wait split: if_splits option.splits)

lemma ws_parse_append:
  assumes "\<nexists>ws' xs'. ws_parse ws xs = Some (ws', xs', Some ErrWaitMore)"
  shows "ws_parse ws (xs @ ys) = map_option (\<lambda>(ws', xs', e). (ws', xs' @ ys, e)) (ws_parse ws xs)"
proof -
  obtain off sz where h: "2 \<le> length xs" "frame_head xs = Some (off, sz)"
    using assms unfolding ws_parse_def by (auto simp: not_less split: if_splits option.splits)
  show ?thesis
    using ws_parse_head [OF h, of ws ys] ws_parse_head [OF h, of ws "[]"]
      take_frame_cases [OF h(2,1), of ws ys] take_frame_cases [OF h(2,1), of ws "[]"]
    by (simp add: Let_def split: if_splits)
qed

interpretation wsp: incremental ws_parse ErrWaitMore "\<lambda>_ _. True"
proof (unfold_locales, goal_cases)
  case (3 ws xs ws' xs' ys)
  then show ?case by (auto dest: ws_parse_wait)
next
  case (4 ws xs ws' xs' e ys)
  with ws_parse_append [of ws xs ys] show ?case by auto
next
  case (5 ws xs ys)
  with ws_parse_append [of ws xs ys] show ?case by auto
qed auto

text \<open>
  C12: however the bytes of a WebSocket frame are cut into reads, the connection ends with
  the frame, the buffer and the verdict of a parse of the whole stream.
\<close>

theorem ws_parse_segmentation:
  assumes "cs \<noteq> []"
  shows "feed ws_parse ErrWaitMore ws [] cs = ws_parse ws (concat cs)"
  using wsp.feed_whole [of cs ws "[]"] assms by simp

lemma end_overflow_iff:
  assumes "0 \<le> u" and "u < 2 ^ 64"
  shows "i64 (14 + i64 u) < 14 \<longleftrightarrow> 2 ^ 63 - 14 \<le> u"
proof -
  consider "u < 2 ^ 63 - 14" | "2 ^ 63 - 14 \<le> u" "u < 2 ^ 63" | "2 ^ 63 \<le> u" by linarith
  then show ?thesis
  proof cases
    case 1
    with assms show ?thesis by (simp add: i64_id)
  next
    case 2
    with assms have "i64 (14 + i64 u) = 14 + u - 2 ^ 64"
      by (simp add: i64_id) (subst i64_overflow; simp)
    with 2 show ?thesis by simp
  next
    case 3
    with assms have "i64 (14 + i64 u) = 14 + u - 2 ^ 64" by (simp add: i64_overflow i64_id)
    with assms 3 show ?thesis by simp
  qed
qed

lemma ws_parse_None_iff:
  "ws_parse ws xs = None \<longleftrightarrow>
     2 \<le> length xs \<and> (\<exists>off sz. frame_head xs = Some (off, sz) \<and> i64 (off + sz) < off)"
proof (cases "2 \<le> length xs \<and> frame_head xs \<noteq> None")
  case True
  then obtain off sz where h: "2 \<le> length xs" "frame_head xs = Some (off, sz)" by auto
  with ws_parse_head [OF h, of ws "[]"] take_frame_cases [OF h(2,1), of ws "[]"]
  show ?thesis by (simp add: Let_def)
next
  case False
  then show ?thesis by (auto simp: ws_parse_def split: option.splits)
qed

text \<open>
  C13: parsing panics exactly when the frame announces a 64-bit payload length of at least
  2^63 - 14, the lengths for which the end of the payload is not an int.
\<close>

theorem ws_parse_panic_iff:
  "ws_parse ws inp = None \<longleftrightarrow>
     14 \<le> length inp \<and> inp ! 1 AND 0x7f = 127 \<and> 2 ^ 63 - 14 \<le> be_uint (take 8 (drop 2 inp))"
proof
  assume "ws_parse ws inp = None"
  then obtain off sz where h: "2 \<le> length inp" "frame_head inp = Some (off, sz)" "i64 (off + sz) < off"
    by (auto simp: ws_parse_None_iff)
  then have off: "off = 14" using frame_head_bounds(4) [OF h(2)] by fastforce
  with h(2) have "14 \<le> length inp" "uint (inp ! 1 AND 0x7f) = uint (127 :: byte)"
      "sz = i64 (be_uint (take 8 (drop 2 inp)))"
    by (auto simp: frame_head_def Let_def split: if_splits)
  moreover from this have "2 ^ 63 - 14 \<le> be_uint (take 8 (drop 2 inp))"
    using h(3) off be_uint_nonneg be_uint_take8
    by (subst end_overflow_iff [symmetric]) simp_all
  ultimately show "14 \<le> length inp \<and> inp ! 1 AND 0x7f = 127 \<and> 2 ^ 63 - 14 \<le> be_uint (take 8 (drop 2 inp))"
    by (simp add: word_uint_eq_iff)
next
  assume a: "14 \<le> length inp \<and> inp ! 1 AND 0x7f = 127 \<and> 2 ^ 63 - 14 \<le> be_uint (take 8 (drop 2 inp))"
  let ?sz = "i64 (be_uint (take 8 (drop 2 inp)))"
  have e: "i64 (14 + ?sz) < 14"
    using a be_uint_nonneg be_uint_take8 by (subst end_overflow_iff) simp_all
  with a have "frame_head inp = Some (14, ?sz)" by (simp add: frame_head_def Let_def)
  with a e show "ws_parse ws inp = None" by (auto simp: ws_parse_None_iff)
qed


section \<open>Client frames\<close>

text \<open>
  The reference encoder: a frame with each of the three length fields. RFC 6455 asks for
  the shortest one; the parser accepts every one that can hold the length.
\<close>

datatype len_form = Len7 | Len16 | Len64

fun form_ok :: "len_form \<Rightarrow> nat \<Rightarrow> bool" where
  "form_ok Len7 n \<longleftrightarrow> n < 126"
| "form_ok Len16 n \<longleftrightarrow> n < 65536"
| "form_ok Len64 n \<longleftrightarrow> int n < 2 ^ 63 - 14"

fun len_field :: "len_form \<Rightarrow> nat \<Rightarrow> bytes" where
  "len_field Len7 n = [0x80 OR word_of_nat n]"
| "len_field Len16 n = (0x80 OR 126) # be_bytes 2 (int n)"
| "len_field Len64 n = (0x80 OR 127) # be_bytes 8 (int n)"

definition frame_prefix :: "bool \<Rightarrow> byte \<Rightarrow> len_form \<Rightarrow> bytes \<Rightarrow> nat \<Rightarrow> bytes" where
  "frame_prefix is_fin op form key n =
     ((if is_fin then 0x80 else 0) OR op) # len_field form n @ key"

definition client_frame :: "bool \<Rightarrow> byte \<Rightarrow> len_form \<Rightarrow> bytes \<Rightarrow> bytes \<Rightarrow> bytes" where
  "client_frame is_fin op form key p = frame_prefix is_fin op form key (length p) @ xor_mask key p"

lemma byte_below: "op < word_of_nat k \<Longrightarrow> k < 256 \<Longrightarrow> \<exists>n<k. (op :: byte) = word_of_nat n"
  by (rule exI [of _ "unat op"]) (simp add: word_less_nat_alt unat_of_nat)

lemma first_byte:
  assumes "op < 16"
  shows "((if f then 0x80 else 0) OR op) AND 0xf = (op :: byte)"
    and "drop_bit 7 ((if f then 0x80 else 0) OR op :: byte) > 0 \<longleftrightarrow> f"
proof -
  obtain n where "n < 16" "op = word_of_nat n" using byte_below [of op 16] assms by auto
  then have "op \<in> {0,1,2,3,4,5,6,7,8,9,10,11,12,13,14,15}"
    by (auto simp: numeral_eq_Suc less_Suc_eq)
  then show "((if f then 0x80 else 0) OR op) AND 0xf = (op :: byte)"
    and "drop_bit 7 ((if f then 0x80 else 0) OR op :: byte) > 0 \<longleftrightarrow> f"
    by (cases f; auto)+
qed

lemma len7_field: "n < 126 \<Longrightarrow> uint ((0x80 OR word_of_nat n :: byte) AND 0x7f) = int n"
proof -
  assume n: "n < 126"
  have "(0x80 OR word_of_nat n :: byte) AND 0x7f = word_of_nat n AND mask 7"
    by (simp add: bit.conj_disj_distrib2 mask_eq_exp_minus_1)
  also have "\<dots> = take_bit 7 (word_of_nat n)" by (simp add: take_bit_eq_mask)
  also have "\<dots> = word_of_nat n" using n by (simp add: take_bit_of_nat take_bit_nat_eq_self)
  finally show ?thesis using n by (simp add: uint_word_of_int_eq unsigned_of_nat take_bit_nat_eq_self)
qed

lemma frame_head_client:
  assumes "length key = 4" and "form_ok form (length p)"
  shows "frame_head (client_frame f op form key p @ rest) =
    Some (int (length (frame_prefix f op form key (length p))), int (length p))"
proof (cases form)
  case Len7
  with assms show ?thesis
    by (simp add: frame_head_def client_frame_def frame_prefix_def len7_field)
next
  case Len16
  with assms be_uint_be_bytes [of "int (length p)" 2] show ?thesis
    by (simp add: frame_head_def client_frame_def frame_prefix_def Let_def)
next
  case Len64
  with assms be_uint_be_bytes [of "int (length p)" 8] show ?thesis
    by (simp add: frame_head_def client_frame_def frame_prefix_def Let_def i64_id)
qed

lemma length_frame_prefix:
  "length key = 4 \<Longrightarrow> length (frame_prefix f op form key n) = (case form of Len7 \<Rightarrow> 6 | Len16 \<Rightarrow> 8 | Len64 \<Rightarrow> 14)"
  by (cases form) (simp_all add: frame_prefix_def)

lemma ws_parse_frame:
  assumes "op < 16" and "length key = 4" and "form_ok form (length p)"
  shows "\<exists>inp'. ws_parse ws (client_frame is_fin op form key p @ rest) = Some (ws\<lparr>parsedFrame := \<lparr>frame_data = p, opcode = op, fin = is_fin,
      frame_len = int (length (client_frame is_fin op form key p))\<rparr>\<rparr>, inp', None) \<and>
    length inp' = length (client_frame is_fin op form key p) + length rest \<and> drop (length (client_frame is_fin op form key p)) inp' = rest"
proof -
  let ?pre = "frame_prefix is_fin op form key (length p)" and ?f = "client_frame is_fin op form key p"
  have h: "frame_head ?f = Some (int (length ?pre), int (length p))"
    using frame_head_client [OF assms(2,3), of is_fin op "[]"] by simp
  have l: "length ?f = length ?pre + length p" by (simp add: client_frame_def)
  have l2: "2 \<le> length ?f" and l4: "4 \<le> length ?pre"
    using length_frame_prefix [OF assms(2), of is_fin op form "length p"] l by (auto split: len_form.splits)
  have e: "i64 (int (length ?pre) + int (length p)) = int (length ?f)"
    using assms length_frame_prefix [OF assms(2), of is_fin op form "length p"]
    by (subst i64_id) (cases form, simp_all add: client_frame_def)
  have m: "take 4 (drop (length ?pre - 4) ?f) = key"
    by (simp add: client_frame_def frame_prefix_def assms(2))
  have d: "take (length ?f - length ?pre) (drop (length ?pre) ?f) = xor_mask key p"
    by (simp add: client_frame_def)
  have b: "?f ! 0 = (if is_fin then 0x80 else 0) OR op" by (simp add: client_frame_def frame_prefix_def)
  have o: "overwrite ?f (length ?pre) p = ?pre @ p"
    using overwrite_middle [of p "xor_mask key p" ?pre "[]"] by (simp add: client_frame_def)
  have "ws_parse ws (?f @ rest) = Some (ws\<lparr>parsedFrame := \<lparr>frame_data = p, opcode = op, fin = is_fin,
      frame_len = int (length ?f)\<rparr>\<rparr>, overwrite ?f (length ?pre) p @ rest, None)"
    unfolding ws_parse_head [OF l2 h] take_frame_cases [OF h l2]
    using l unfolding Let_def e nat_int m d b first_byte [OF assms(1)] by simp
  then show ?thesis by (simp add: o l)
qed

text \<open>Of an incomplete frame the parser asks for more.\<close>

lemma ws_parse_partial:
  assumes "op < 16" and "length key = 4" and "form_ok form (length p)" and "q @ r = client_frame is_fin op form key p" and "r \<noteq> []"
  shows "ws_parse ws q = Some (ws, q, Some ErrWaitMore)"
proof (rule ccontr)
  assume n: "\<not> ?thesis"
  then have "\<nexists>ws' xs'. ws_parse ws q = Some (ws', xs', Some ErrWaitMore)" using ws_parse_wait by blast
  from ws_parse_append [OF this, of r] obtain ws' inp where
    w: "ws_parse ws q = Some (ws', inp, None)" "frame_len (parsedFrame ws') = int (length (q @ r))"
    using ws_parse_frame [OF assms(1-3), of ws is_fin "[]"] assms(4)
    by (cases "ws_parse ws q") auto
  have "frame_len (parsedFrame ws') \<le> int (length q)"
    using w(1) by (auto simp: ws_parse_def take_frame_def Let_def gslice_Some_iff split: if_splits option.splits bind_splits)
  then show False using w(2) assms(5) by simp
qed

text \<open>
  A masked client frame, with any of the three forms of its length field, is parsed to
  its payload, opcode and final flag; the frame's length is the number of bytes it
  occupies, so that truncating the buffer by it leaves exactly what follows the frame.
\<close>

lemma ws_parse_client_frame:
  assumes "op < 16" and "length key = 4" and "form_ok form (length p)"
  shows "\<exists>ws' inp'. ws_parse ws (client_frame is_fin op form key p @ rest) = Some (ws', inp', None)
    \<and> ws' = ws\<lparr>parsedFrame := \<lparr>frame_data = p, opcode = op, fin = is_fin,
                 frame_len = int (length (client_frame is_fin op form key p))\<rparr>\<rparr>
    \<and> drop (nat (frame_len (parsedFrame ws'))) inp' = rest"
  using ws_parse_frame [OF assms, of ws is_fin rest] by auto

theorem ws_parse_segmentation_witness:
  "feed ws_parse ErrWaitMore new_websocket [] [[0x81], [0x80, 1, 2], [3, 4]] =
     ws_parse new_websocket (concat [[0x81], [0x80, 1, 2], [3, 4]])"
  by (rule ws_parse_segmentation) simp

section \<open>Server frames\<close>

text \<open>
  The reference decoder of an unmasked, final frame: its opcode and payload, and the bytes
  it occupies.
\<close>

definition take_payload :: "bytes \<Rightarrow> nat \<Rightarrow> int \<Rightarrow> ((byte \<times> bytes) \<times> nat) option" where
  "take_payload xs off n =
     (if int (length xs) < int off + n then None
      else Some ((hd xs AND 0xf, take (nat n) (drop off xs)), off + nat n))"

definition server_decode :: "bytes \<Rightarrow> ((byte \<times> bytes) \<times> nat) option" where
  "server_decode xs =
     (if length xs < 2 \<or> drop_bit 7 (hd xs) = 0 then None
      else let n = uint (xs ! 1) in
        if n < 126 then take_payload xs 2 n
        else if n = 126 then
          (if length xs < 4 then None else take_payload xs 4 (be_uint (take 2 (drop 2 xs))))
        else if n = 127 then
          (if length xs < 10 then None else take_payload xs 10 (be_uint (take 8 (drop 2 xs))))
        else None)"

lemma be_bytes_2: "[ucast (drop_bit 8 v), ucast v] = be_bytes 2 (uint (v :: u16))"
proof -
  have "uint (ucast v :: byte) = uint (word_of_int (uint v) :: byte)" by (simp add: unsigned_ucast_eq uint_word_of_int_eq)
  moreover have "uint (ucast (drop_bit 8 v) :: byte) = uint (word_of_int (uint v div 256) :: byte)"
    by (simp add: unsigned_ucast_eq uint_word_of_int_eq unsigned_drop_bit_eq drop_bit_eq_div uint_div)
  ultimately show ?thesis by (simp add: numeral_2_eq_2 word_uint_eq_iff)
qed

lemma frame_bytes_alt:
  "frame_bytes ty p = (0x80 OR ty) #
     (if length p < 126 then [word_of_nat (length p)]
      else if int (length p) < 65536 then 126 # be_bytes 2 (int (length p))
      else 127 # be_bytes 8 (int (length p))) @ p"
proof -
  have "uint (word_of_nat (length p) :: u16) = int (length p)" if "int (length p) < 65536"
    using that by (simp add: unsigned_of_nat take_bit_nat_eq_self)
  then show ?thesis by (simp add: frame_bytes_def Let_def be_bytes_2)
qed

interpretation wsframe: codec "\<lambda>(ty, p). frame_bytes ty p" server_decode
  "\<lambda>(ty, p). ty < 16 \<and> int (length p) < 2 ^ 64"
proof (unfold_locales, clarify)
  fix ty :: byte and p :: bytes and rest :: bytes
  assume a: "ty < 16" "int (length p) < 2 ^ 64"
  have b: "drop_bit 7 (0x80 OR ty) \<noteq> 0" "(0x80 OR ty) AND 0xf = ty"
    using first_byte [OF a(1), of True] by auto
  have "server_decode (frame_bytes ty p @ rest) = Some ((ty, p), length (frame_bytes ty p))"
  proof -
    consider "length p < 126" | "126 \<le> length p" "int (length p) < 65536" | "65536 \<le> int (length p)"
      by linarith
    then show ?thesis
    proof cases
      case 1
      then have "uint (word_of_nat (length p) :: byte) = int (length p)"
        by (simp add: unsigned_of_nat take_bit_nat_eq_self)
      with 1 b show ?thesis by (simp add: frame_bytes_alt server_decode_def take_payload_def)
    next
      case 2
      with b be_uint_be_bytes [of "int (length p)" 2] show ?thesis
        by (simp add: frame_bytes_alt server_decode_def take_payload_def)
    next
      case 3
      with a b be_uint_be_bytes [of "int (length p)" 8] show ?thesis
        by (simp add: frame_bytes_alt server_decode_def take_payload_def)
    qed
  qed
  then show "server_decode (frame_bytes ty p @ rest) = Some ((ty, p), length (frame_bytes ty p))" .
qed

end
