(* ===== verification/Resh_Conn.thy ===== *)
theory Resh_Conn
  imports Server_State Websocket
begin

text \<open>
  conn.go and what writes to a connection: the reply writers of redis.go and the frame
  writers of ws.go. A connection's buffers are guarded by a spin lock. The model runs one
  operation at a time, so taking a lock that is held never returns, which is \<open>None\<close> here;
  the atomic flag of \<open>closed\<close> is a boolean. The pointer from a WebSocket back to its
  connection is not stored: an operation on it takes the connection.

  \<open>Flush\<close> asks the poller to look at the connection again. The descriptors an operation
  passes to \<open>poll.Trigger\<close> are returned as a list.
\<close>

section \<open>State\<close>

record conn =
  conn_fd :: int
  conn_ts :: int
  conn_ws :: "websocket option"
  conn_srs :: server_read_state
  conn_ssl :: bool
  conn_closed :: bool
  lock :: bool
  conn_in :: bytes
  conn_out :: bytes

definition new_conn :: "int \<Rightarrow> bool \<Rightarrow> conn" where
  "new_conn fd ssl = \<lparr>conn_fd = fd, conn_ts = 0, conn_ws = None, conn_srs = new_srs, conn_ssl = ssl,
     conn_closed = False, lock = False, conn_in = [], conn_out = []\<rparr>"

section \<open>Operations\<close>

definition spinLock :: "conn \<Rightarrow> conn option" where
  "spinLock c = (if lock c then None else Some (c\<lparr>lock := True\<rparr>))"

definition spinUnlock :: "conn \<Rightarrow> conn" where
  "spinUnlock c = c\<lparr>lock := False\<rparr>"

text \<open>\<open>Write\<close> returns the number of bytes it took and whether the connection was closed.\<close>

definition conn_Write :: "bytes \<Rightarrow> conn \<Rightarrow> (conn \<times> nat \<times> bool) option" where
  "conn_Write p c =
     (if conn_closed c then Some (c, 0, True)
      else do {
        c \<leftarrow> spinLock c;
        let c = c\<lparr>conn_out := conn_out c @ p\<rparr>;
        Some (spinUnlock c, length p, False) })"

definition writeInt :: "int \<Rightarrow> nat \<Rightarrow> conn \<Rightarrow> conn option" where
  "writeInt v b c = do {
     c \<leftarrow> spinLock c;
     let c = c\<lparr>conn_out := conn_out c @ format_int b v\<rparr>;
     Some (spinUnlock c) }"

definition writeString :: "bytes \<Rightarrow> conn \<Rightarrow> conn option" where
  "writeString v c = do {
     c \<leftarrow> spinLock c;
     let c = c\<lparr>conn_out := conn_out c @ v\<rparr>;
     Some (spinUnlock c) }"

definition Flush :: "conn \<Rightarrow> int list" where
  "Flush c = (if conn_closed c then [] else [conn_fd c])"

definition truncateInputBuffer :: "int \<Rightarrow> conn \<Rightarrow> (conn \<times> nat) option" where
  "truncateInputBuffer sz c = do {
     c \<leftarrow> spinLock c;
     rest \<leftarrow> gslice (conn_in c) sz (int (length (conn_in c)));
     let c = c\<lparr>conn_in := rest\<rparr>;
     Some (spinUnlock c, length rest) }"

text \<open>
  \<open>ReuseInputBuffer\<close> only swaps an empty input buffer for another empty one, to keep its
  capacity.
\<close>

definition ReuseInputBuffer :: "bytes \<Rightarrow> conn \<Rightarrow> conn option" where
  "ReuseInputBuffer inp c = do {
     c \<leftarrow> spinLock c;
     let c = (if conn_in c = [] then c\<lparr>conn_in := take 0 inp\<rparr> else c);
     Some (spinUnlock c) }"

section \<open>Redis replies\<close>

definition WriteRawBytes :: "bytes \<Rightarrow> conn \<Rightarrow> conn option" where
  "WriteRawBytes p c = map_option fst (conn_Write p c)"

definition WriteError :: "bytes \<Rightarrow> conn \<Rightarrow> conn option" where
  "WriteError err c = do {
     c \<leftarrow> spinLock c;
     let c = c\<lparr>conn_out := conn_out c @ [45]\<rparr>;
     let c = c\<lparr>conn_out := conn_out c @ err\<rparr>;
     let c = c\<lparr>conn_out := conn_out c @ crlf\<rparr>;
     Some (spinUnlock c) }"

definition WriteSimpleString :: "bytes \<Rightarrow> conn \<Rightarrow> conn option" where
  "WriteSimpleString p c = do {
     c \<leftarrow> spinLock c;
     let c = c\<lparr>conn_out := conn_out c @ [43]\<rparr>;
     let c = c\<lparr>conn_out := conn_out c @ p\<rparr>;
     let c = c\<lparr>conn_out := conn_out c @ crlf\<rparr>;
     Some (spinUnlock c) }"

definition WriteBulkString :: "bytes \<Rightarrow> conn \<Rightarrow> conn option" where
  "WriteBulkString p c = do {
     c \<leftarrow> spinLock c;
     let c = c\<lparr>conn_out := conn_out c @ [36]\<rparr>;
     let c = c\<lparr>conn_out := conn_out c @ format_int 10 (int (length p))\<rparr>;
     let c = c\<lparr>conn_out := conn_out c @ crlf\<rparr>;
     let c = c\<lparr>conn_out := conn_out c @ p\<rparr>;
     let c = c\<lparr>conn_out := conn_out c @ crlf\<rparr>;
     Some (spinUnlock c) }"

definition WriteBulk :: "bytes \<Rightarrow> conn \<Rightarrow> conn option" where
  "WriteBulk p c = WriteBulkString p c"

definition WriteArrayBegin :: "int \<Rightarrow> conn \<Rightarrow> conn option" where
  "WriteArrayBegin n c = do {
     c \<leftarrow> spinLock c;
     let c = c\<lparr>conn_out := conn_out c @ [42]\<rparr>;
     let c = c\<lparr>conn_out := conn_out c @ format_int 10 n\<rparr>;
     let c = c\<lparr>conn_out := conn_out c @ crlf\<rparr>;
     Some (spinUnlock c) }"

definition redis_Release :: "redis \<Rightarrow> conn \<Rightarrow> conn option" where
  "redis_Release r c = ReuseInputBuffer (redis_data r) c"

section \<open>WebSocket messages\<close>

text \<open>\<open>Websocket.write\<close> and its callers; the list is what the final \<open>Flush\<close> triggers.\<close>

definition ws_write :: "byte \<Rightarrow> bytes \<Rightarrow> conn \<Rightarrow> (conn \<times> int list) option" where
  "ws_write ty p c = do {
     (c, _, _) \<leftarrow> conn_Write (frame_bytes ty p) c;
     Some (c, Flush c) }"

definition WriteText :: "bytes \<Rightarrow> conn \<Rightarrow> (conn \<times> int list) option" where
  "WriteText msg c = ws_write 1 msg c"

definition WriteBinary :: "bytes \<Rightarrow> conn \<Rightarrow> (conn \<times> int list) option" where
  "WriteBinary p c = ws_write 2 p c"

definition ws_Close :: "conn \<Rightarrow> (conn \<times> int list) option" where
  "ws_Close c = do {
     ws \<leftarrow> conn_ws c;
     ws_write 8 close_message (c\<lparr>conn_ws := Some (ws\<lparr>ws_closed := True\<rparr>)\<rparr>) }"

section \<open>Writers only append\<close>

text \<open>
  The contract of every writer: on a connection whose lock is free it returns with the
  lock free again, appends the text of its argument to the output buffer and changes
  nothing else; on a locked connection it does not return. A sequence of writes then
  appends the concatenation of the texts.
\<close>

fun write_each :: "('a \<Rightarrow> conn \<Rightarrow> conn option) \<Rightarrow> 'a list \<Rightarrow> conn \<Rightarrow> conn option" where
  "write_each op [] c = Some c"
| "write_each op (a # as) c = do { c \<leftarrow> op a c; write_each op as c }"

locale appender =
  fixes op :: "'a \<Rightarrow> conn \<Rightarrow> conn option" and wire :: "'a \<Rightarrow> bytes"
  assumes op_append: "\<not> lock c \<Longrightarrow> op a c = Some (c\<lparr>conn_out := conn_out c @ wire a\<rparr>)"
    and op_locked: "lock c \<Longrightarrow> op a c = None"
begin

lemma write_each_append:
  "\<not> lock c \<Longrightarrow> write_each op as c = Some (c\<lparr>conn_out := conn_out c @ concat (map wire as)\<rparr>)"
  by (induction as arbitrary: c) (simp_all add: op_append)

lemma op_total: "op a c \<noteq> None \<longleftrightarrow> \<not> lock c"
  by (cases "lock c") (simp_all add: op_append op_locked)

end

lemmas writer_defs = spinLock_def spinUnlock_def Let_def

interpretation string_writer: appender writeString "\<lambda>v. v"
  by unfold_locales (simp_all add: writeString_def writer_defs)

interpretation int_writer: appender "\<lambda>(v, b). writeInt v b" "\<lambda>(v, b). format_int b v"
  by unfold_locales (auto simp: writeInt_def writer_defs)

interpretation error_writer: appender WriteError "\<lambda>s. resp_enc (RErr s)"
  by unfold_locales (simp_all add: WriteError_def writer_defs resp_line_def)

interpretation simple_writer: appender WriteSimpleString "\<lambda>s. resp_enc (RSimple s)"
  by unfold_locales (simp_all add: WriteSimpleString_def writer_defs resp_line_def)

interpretation bulk_writer: appender WriteBulkString "\<lambda>s. resp_enc (RBulk s)"
  by unfold_locales (simp_all add: WriteBulkString_def writer_defs resp_bulk_def)

interpretation array_writer: appender WriteArrayBegin "\<lambda>n. resp_line 42 (format_int 10 n)"
  by unfold_locales (simp_all add: WriteArrayBegin_def writer_defs resp_line_def)

lemmas writers_append = string_writer.op_append int_writer.op_append [of _ "(v, b)" for v b, simplified]
  error_writer.op_append simple_writer.op_append bulk_writer.op_append array_writer.op_append


section \<open>Writing whole values\<close>

text \<open>
  How a handler answers with a RESP value: one writer per kind, an array as its header
  followed by its elements. Integers and nulls have no writer of their own and go through
  \<open>WriteRawBytes\<close>.
\<close>

fun reply :: "resp \<Rightarrow> conn \<Rightarrow> conn option"
  and replies :: "resp list \<Rightarrow> conn \<Rightarrow> conn option" where
  "reply (RSimple s) c = WriteSimpleString s c"
| "reply (RErr s) c = WriteError s c"
| "reply (RInt v) c = WriteRawBytes (resp_enc (RInt v)) c"
| "reply (RBulk s) c = WriteBulk s c"
| "reply RNull c = WriteRawBytes (resp_enc RNull) c"
| "reply (RArray vs) c = do { c \<leftarrow> WriteArrayBegin (int (length vs)) c; replies vs c }"
| "replies [] c = Some c"
| "replies (v # vs) c = do { c \<leftarrow> reply v c; replies vs c }"

lemma conn_Write_append:
  "\<not> lock c \<Longrightarrow> \<not> conn_closed c \<Longrightarrow> conn_Write p c = Some (c\<lparr>conn_out := conn_out c @ p\<rparr>, length p, False)"
  by (simp add: conn_Write_def writer_defs)

lemma WriteRawBytes_append:
  "\<not> lock c \<Longrightarrow> \<not> conn_closed c \<Longrightarrow> WriteRawBytes p c = Some (c\<lparr>conn_out := conn_out c @ p\<rparr>)"
  by (simp add: WriteRawBytes_def conn_Write_append)

lemma reply_append:
  "\<not> lock c \<Longrightarrow> \<not> conn_closed c \<Longrightarrow> reply v c = Some (c\<lparr>conn_out := conn_out c @ resp_enc v\<rparr>)"
  "\<not> lock c \<Longrightarrow> \<not> conn_closed c \<Longrightarrow> replies vs c = Some (c\<lparr>conn_out := conn_out c @ concat (map resp_enc vs)\<rparr>)"
  by (induction v c and vs c rule: reply_replies.induct)
    (simp_all add: writers_append WriteRawBytes_append WriteBulk_def del: resp_enc.simps, simp_all)

lemma ws_write_append:
  "\<not> lock c \<Longrightarrow> \<not> conn_closed c \<Longrightarrow>
   ws_write ty p c = Some (c\<lparr>conn_out := conn_out c @ frame_bytes ty p\<rparr>, [conn_fd c])"
  by (simp add: ws_write_def conn_Write_append Flush_def)

lemma ws_messages_append:
  "\<not> lock c \<Longrightarrow> \<not> conn_closed c \<Longrightarrow>
   write_each (\<lambda>(ty, p) c. map_option fst (ws_write ty p c)) msgs c =
     Some (c\<lparr>conn_out := conn_out c @ concat (map (\<lambda>(ty, p). frame_bytes ty p) msgs)\<rparr>)"
  by (induction msgs arbitrary: c) (auto simp: ws_write_append)

text \<open>
  C14: the messages an application writes to an open WebSocket connection leave it as a
  sequence of final, unmasked frames that an RFC 6455 decoder reads back in order, behind
  what was in the output buffer before.
\<close>

theorem ws_messages_decode:
  assumes "\<not> lock c" and "\<not> conn_closed c"
    and "list_all (\<lambda>(ty, p). ty < 16 \<and> int (length p) < 2 ^ 64) msgs"
  shows "\<exists>c'. write_each (\<lambda>(ty, p) c. map_option fst (ws_write ty p c)) msgs c = Some c'
    \<and> take (length (conn_out c)) (conn_out c') = conn_out c
    \<and> decode_all server_decode (length msgs) (drop (length (conn_out c)) (conn_out c')) = Some msgs"
  using wsframe.decode_all_concat [OF assms(3), of "[]"] ws_messages_append [OF assms(1,2), of msgs]
  by simp

theorem ws_messages_decode_witness:
  "\<exists>c'. write_each (\<lambda>(ty, p) c. map_option fst (ws_write ty p c)) [(1, bs ''hi''), (2, [0])] (new_conn 5 False) = Some c'
    \<and> take (length (conn_out (new_conn 5 False))) (conn_out c') = conn_out (new_conn 5 False)
    \<and> decode_all server_decode (length [(1 :: byte, bs ''hi''), (2, [0])])
        (drop (length (conn_out (new_conn 5 False))) (conn_out c')) = Some [(1, bs ''hi''), (2, [0])]"
  by (rule ws_messages_decode) (simp_all add: new_conn_def)

end
