(* ===== verification/HTTP_Response.thy ===== *)
theory HTTP_Response
  imports Resh_Conn Go_Crypto
begin

text \<open>
  The response side of http.go: the status line and headers of a response, a response
  with a body of known length, a chunked response, a redirect, and the answer that
  upgrades a connection to a WebSocket. A response is written to the output buffer of the
  connection of the request. An \<open>http.Header\<close> is the list of its entries in the order in
  which the loop over the map visits them; every statement is for an arbitrary order.
\<close>

section \<open>Status texts\<close>

text \<open>\<open>http.StatusText\<close>.\<close>

definition status_table :: "(int \<times> bytes) list" where
  "status_table = [
     (100, bs ''Continue''),
     (101, bs ''Switching Protocols''),
     (102, bs ''Processing''),
     (103, bs ''Early Hints''),
     (200, bs ''OK''),
     (201, bs ''Created''),
     (202, bs ''Accepted''),
     (203, bs ''Non-Authoritative Information''),
     (204, bs ''No Content''),
     (205, bs ''Reset Content''),
     (206, bs ''Partial Content''),
     (207, bs ''Multi-Status''),
     (208, bs ''Already Reported''),
     (226, bs ''IM Used''),
     (300, bs ''Multiple Choices''),
     (301, bs ''Moved Permanently''),
     (302, bs ''Found''),
     (303, bs ''See Other''),
     (304, bs ''Not Modified''),
     (305, bs ''Use Proxy''),
     (307, bs ''Temporary Redirect''),
     (308, bs ''Permanent Redirect''),
     (400, bs ''Bad Request''),
     (401, bs ''Unauthorized''),
     (402, bs ''Payment Required''),
     (403, bs ''Forbidden''),
     (404, bs ''Not Found''),
     (405, bs ''Method Not Allowed''),
     (406, bs ''Not Acceptable''),
     (407, bs ''Proxy Authentication Required''),
     (408, bs ''Request Timeout''),
     (409, bs ''Conflict''),
     (410, bs ''Gone''),
     (411, bs ''Length Required''),
     (412, bs ''Precondition Failed''),
     (413, bs ''Request Entity Too Large''),
     (414, bs ''Request URI Too Long''),
     (415, bs ''Unsupported Media Type''),
     (416, bs ''Requested Range Not Satisfiable''),
     (417, bs ''Expectation Failed''),
     (418, bs ''I'm a teapot''),
     (421, bs ''Misdirected Request''),
     (422, bs ''Unprocessable Entity''),
     (423, bs ''Locked''),
     (424, bs ''Failed Dependency''),
     (425, bs ''Too Early''),
     (426, bs ''Upgrade Required''),
     (428, bs ''Precondition Required''),
     (429, bs ''Too Many Requests''),
     (431, bs ''Request Header Fields Too Large''),
     (451, bs ''Unavailable For Legal Reasons''),
     (500, bs ''Internal Server Error''),
     (501, bs ''Not Implemented''),
     (502, bs ''Bad Gateway''),
     (503, bs ''Service Unavailable''),
     (504, bs ''Gateway Timeout''),
     (505, bs ''HTTP Version Not Supported''),
     (506, bs ''Variant Also Negotiates''),
     (507, bs ''Insufficient Storage''),
     (508, bs ''Loop Detected''),
     (510, bs ''Not Extended''),
     (511, bs ''Network Authentication Required'')]"

definition StatusText :: "int \<Rightarrow> bytes" where
  "StatusText code = (case map_of status_table code of None \<Rightarrow> [] | Some t \<Rightarrow> t)"

section \<open>Responses\<close>

type_synonym header = "(bytes \<times> bytes list) list"

text \<open>\<open>v[0]\<close>, a panic when the entry has no value.\<close>

definition first_value :: "bytes list \<Rightarrow> bytes option" where
  "first_value v = (case v of [] \<Rightarrow> None | x # _ \<Rightarrow> Some x)"

fun resp_headers :: "header \<Rightarrow> conn \<Rightarrow> conn option" where
  "resp_headers [] c = Some c"
| "resp_headers ((k, v) # hdr) c =
     (if k = bs ''Content-Type'' \<or> k = bs ''Connection'' \<or> k = bs ''Content-Length'' \<or> k = bs ''Transfer-Encoding''
      then resp_headers hdr c
      else do {
        c \<leftarrow> writeString crlf c;
        c \<leftarrow> writeString k c;
        c \<leftarrow> writeString (bs '': '') c;
        v0 \<leftarrow> first_value v;
        c \<leftarrow> writeString v0 c;
        resp_headers hdr c })"

definition resp0 :: "int \<Rightarrow> bytes \<Rightarrow> header \<Rightarrow> conn \<Rightarrow> conn option" where
  "resp0 code contentType hdr c =
     (let code = (if code = 0 then 200 else code) in do {
        c \<leftarrow> writeString (bs ''HTTP/1.1 '') c;
        c \<leftarrow> writeInt code 10 c;
        c \<leftarrow> writeString (bs '' '') c;
        c \<leftarrow> writeString (StatusText code) c;
        let contentType = (if contentType = [] then bs ''text/plain; charset=utf-8'' else contentType);
        c \<leftarrow> writeString (crlf @ bs ''Content-Type: '') c;
        c \<leftarrow> writeString contentType c;
        resp_headers hdr c })"

definition respFull :: "int \<Rightarrow> bytes \<Rightarrow> header \<Rightarrow> bytes \<Rightarrow> conn \<Rightarrow> conn option" where
  "respFull code contentType hdr data c = do {
     c \<leftarrow> resp0 code contentType hdr c;
     c \<leftarrow> writeString (crlf @ bs ''Connection: Keep-Alive'' @ crlf @ bs ''Content-Length: '') c;
     c \<leftarrow> writeInt (int (length data)) 10 c;
     c \<leftarrow> writeString (crlf @ crlf) c;
     writeString data c }"

definition http_Text :: "int \<Rightarrow> bytes \<Rightarrow> conn \<Rightarrow> conn option" where
  "http_Text code msg c = respFull code [] [] msg c"

definition http_Bytes :: "int \<Rightarrow> bytes \<Rightarrow> bytes \<Rightarrow> conn \<Rightarrow> conn option" where
  "http_Bytes code contentType data c = respFull code contentType [] data c"

definition BytesHeaders :: "int \<Rightarrow> bytes \<Rightarrow> header \<Rightarrow> bytes \<Rightarrow> conn \<Rightarrow> conn option" where
  "BytesHeaders code contentType hdr data c = respFull code contentType hdr data c"

definition Redirect :: "int \<Rightarrow> bytes \<Rightarrow> conn \<Rightarrow> conn option" where
  "Redirect code location c = do {
     c \<leftarrow> writeString (bs ''HTTP/1.1 '') c;
     c \<leftarrow> writeInt code 10 c;
     c \<leftarrow> writeString (bs '' '') c;
     c \<leftarrow> writeString (StatusText code) c;
     c \<leftarrow> writeString (crlf @ bs ''Location: '') c;
     c \<leftarrow> writeString location c;
     writeString (crlf @ crlf) c }"

section \<open>Chunked responses\<close>

text \<open>
  The operations take the request, which holds the mode and the buffer of small writes,
  and the connection; the list is what \<open>Flush\<close> triggers.
\<close>

definition StartChunked :: "int \<Rightarrow> bytes \<Rightarrow> header \<Rightarrow> http \<Rightarrow> conn \<Rightarrow> (http \<times> conn) option" where
  "StartChunked code contentType hdr r c = do {
     c \<leftarrow> resp0 code contentType hdr c;
     c \<leftarrow> writeString (crlf @ bs ''Connection: Keep-Alive'' @ crlf @ bs ''Transfer-Encoding: chunked'' @ crlf @ crlf) c;
     Some (r\<lparr>chunked := True\<rparr>, c) }"

definition writeChunked :: "bytes \<Rightarrow> conn \<Rightarrow> (conn \<times> int list) option" where
  "writeChunked p c = do {
     c \<leftarrow> writeInt (int (length p)) 16 c;
     c \<leftarrow> writeString crlf c;
     (c, _, _) \<leftarrow> conn_Write p c;
     c \<leftarrow> writeString crlf c;
     Some (c, if int (length (conn_out c)) \<ge> 16 * 1024 then Flush c else []) }"

definition http_Write :: "bytes \<Rightarrow> http \<Rightarrow> conn \<Rightarrow> (http \<times> conn \<times> int list \<times> nat) option" where
  "http_Write p w c =
     (if \<not> chunked w then None
      else if p = [] then Some (w, c, [], 0)
      else if length p \<le> 4 \<or> chkbuf w \<noteq> [] then
        (let w = w\<lparr>chkbuf := chkbuf w @ p\<rparr> in
         if length (chkbuf w) \<ge> 64 then do {
           (c, tr) \<leftarrow> writeChunked (chkbuf w) c;
           Some (w\<lparr>chkbuf := []\<rparr>, c, tr, length p) }
         else Some (w, c, [], length p))
      else do {
        (c, tr) \<leftarrow> writeChunked p c;
        Some (w, c, tr, length p) })"

definition WriteString :: "bytes \<Rightarrow> http \<Rightarrow> conn \<Rightarrow> (http \<times> conn \<times> int list \<times> nat) option" where
  "WriteString s w c = (if s = [] then Some (w, c, [], 0) else http_Write s w c)"

definition FinishChunked :: "http \<Rightarrow> conn \<Rightarrow> (http \<times> conn \<times> int list) option" where
  "FinishChunked w c =
     (if \<not> chunked w then None
      else do {
        (w, c, tr) \<leftarrow> (if chkbuf w \<noteq> [] then do {
             (c, tr) \<leftarrow> writeChunked (chkbuf w) c;
             Some (w\<lparr>chkbuf := []\<rparr>, c, tr) }
           else Some (w, c, []));
        c \<leftarrow> writeString (bs ''0'' @ crlf @ crlf) c;
        let w = w\<lparr>chunked := False\<rparr>;
        Some (w, c, tr @ Flush c) })"

definition http_Release :: "http \<Rightarrow> conn \<Rightarrow> conn option" where
  "http_Release r c = ReuseInputBuffer (http_data r) c"


section \<open>Reference reader of a response\<close>

text \<open>
  A client splits a response at the first empty line into the lines of the head and the
  body.
\<close>

function split_lines :: "bytes \<Rightarrow> bytes list" where
  "split_lines xs = (case bindex crlf xs of
       None \<Rightarrow> [xs]
     | Some i \<Rightarrow> take i xs # split_lines (drop (i + 2) xs))"
  by pat_completeness auto
termination
  by (relation "measure length") (auto dest: bindex_bound)

declare split_lines.simps [simp del]

definition read_response :: "bytes \<Rightarrow> (bytes list \<times> bytes) option" where
  "read_response xs = (case bindex (crlf @ crlf) xs of
       None \<Rightarrow> None
     | Some i \<Rightarrow> Some (split_lines (take i xs), drop (i + 4) xs))"

fun join_lines :: "bytes list \<Rightarrow> bytes" where
  "join_lines [] = []"
| "join_lines [l] = l"
| "join_lines (l # ls) = l @ crlf @ join_lines ls"

lemma lines_text_join: "lines_text (l # ls) = join_lines (l # ls) @ crlf"
  by (induction ls arbitrary: l) simp_all

lemma bindex_crlf_none: "13 \<notin> set xs \<Longrightarrow> bindex crlf xs = None"
  by (induction xs) (auto simp: crlf_def)

lemma split_join: "list_all plain_line (l # ls) \<Longrightarrow> split_lines (join_lines (l # ls)) = l # ls"
proof (induction ls arbitrary: l)
  case Nil
  then show ?case by (subst split_lines.simps) (simp add: plain_line_def bindex_crlf_none)
next
  case (Cons l' ls)
  then have "bindex crlf (l @ crlf @ join_lines (l' # ls)) = Some (length l)"
    by (intro bindex_crlf_line) (simp add: plain_line_def)
  with Cons show ?case by (subst split_lines.simps) simp
qed

lemma read_response_lines:
  assumes "list_all plain_line (l # ls)"
  shows "read_response (lines_text (l # ls) @ crlf @ body) = Some (l # ls, body)"
proof -
  let ?j = "join_lines (l # ls)"
  have e: "lines_text (l # ls) @ crlf @ body = ?j @ crlf @ crlf @ body" unfolding lines_text_join by simp
  have b: "bindex (crlf @ crlf) (?j @ crlf @ crlf @ body) = Some (length ?j)"
    using bindex_request [of ls l body] assms unfolding e unfolding lines_text_join by simp
  show ?thesis unfolding read_response_def e b using split_join [OF assms] by simp
qed

lemma read_response_all:
  "list_all plain_line ls \<Longrightarrow> ls \<noteq> [] \<Longrightarrow> read_response (lines_text ls @ crlf @ body) = Some (ls, body)"
  using read_response_lines by (cases ls) auto

section \<open>The head of a response\<close>

definition entry_ok :: "bytes \<times> bytes list \<Rightarrow> bool" where
  "entry_ok e \<longleftrightarrow> snd e \<noteq> [] \<and> 13 \<notin> set (fst e) \<and> 13 \<notin> set (hd (snd e))"

definition reserved :: "bytes list" where
  "reserved = [bs ''Content-Type'', bs ''Connection'', bs ''Content-Length'', bs ''Transfer-Encoding'']"

definition header_lines :: "header \<Rightarrow> bytes list" where
  "header_lines hdr = map (\<lambda>(k, v). k @ bs '': '' @ hd v) (filter (\<lambda>(k, v). k \<notin> set reserved) hdr)"

definition head_lines :: "int \<Rightarrow> bytes \<Rightarrow> header \<Rightarrow> bytes list" where
  "head_lines code contentType hdr =
     (let code = (if code = 0 then 200 else code) in
      (bs ''HTTP/1.1 '' @ format_int 10 code @ bs '' '' @ StatusText code) #
      (bs ''Content-Type: '' @ (if contentType = [] then bs ''text/plain; charset=utf-8'' else contentType)) #
      header_lines hdr)"

lemma resp_headers_append:
  "\<not> lock c \<Longrightarrow> list_all entry_ok hdr \<Longrightarrow>
   resp_headers hdr c = Some (c\<lparr>conn_out := conn_out c @ concat (map (\<lambda>l. crlf @ l) (header_lines hdr))\<rparr>)"
proof (induction hdr arbitrary: c)
  case Nil
  then show ?case by (simp add: header_lines_def)
next
  case (Cons e hdr)
  then show ?case
    by (cases e) (auto simp: header_lines_def reserved_def entry_ok_def first_value_def writers_append split: list.splits)
qed

lemma crlf_before_after: "concat (map (\<lambda>l. crlf @ l) ls) @ crlf = crlf @ lines_text ls"
  by (induction ls) simp_all

lemma resp0_append:
  assumes "\<not> lock c" and "list_all entry_ok hdr"
  shows "\<exists>t. resp0 code contentType hdr c = Some (c\<lparr>conn_out := conn_out c @ t\<rparr>)
    \<and> t @ crlf = lines_text (head_lines code contentType hdr)"
proof -
  define code' where "code' = (if code = 0 then 200 else code)"
  define ct where "ct = (if contentType = [] then bs ''text/plain; charset=utf-8'' else contentType)"
  let ?t = "bs ''HTTP/1.1 '' @ format_int 10 code' @ bs '' '' @ StatusText code' @ crlf @ bs ''Content-Type: '' @ ct @
    concat (map (\<lambda>l. crlf @ l) (header_lines hdr))"
  have "resp0 code contentType hdr c = Some (c\<lparr>conn_out := conn_out c @ ?t\<rparr>)"
    unfolding resp0_def code'_def [symmetric] ct_def [symmetric] Let_def
    using assms by (simp add: writers_append resp_headers_append)
  moreover have "?t @ crlf = lines_text (head_lines code contentType hdr)"
    using crlf_before_after [of "header_lines hdr"]
    unfolding head_lines_def code'_def [symmetric] ct_def [symmetric] Let_def by simp
  ultimately show ?thesis by blast
qed

lemma StatusText_no_cr: "13 \<notin> set (StatusText code)"
proof -
  have "list_all (\<lambda>(n, t). 13 \<notin> set t) status_table" by code_simp
  then have "map_of status_table code = Some t \<Longrightarrow> 13 \<notin> set t" for t
    using map_of_SomeD [of status_table code t] by (auto simp: list_all_iff)
  then show ?thesis by (cases "map_of status_table code") (simp_all add: StatusText_def)
qed

lemma head_lines_plain:
  assumes "list_all entry_ok hdr" and "13 \<notin> set contentType"
  shows "list_all plain_line (head_lines code contentType hdr)"
proof -
  have "plain_line (k @ bs '': '' @ hd v)" if "entry_ok (k, v)" for k v
    using that by (simp add: entry_ok_def plain_line_def bs_def)
  then have "list_all plain_line (header_lines hdr)"
    using assms(1) by (auto simp: header_lines_def list_all_iff)
  then show ?thesis
    using assms(2) StatusText_no_cr format_int_no_cr by (simp add: head_lines_def Let_def plain_line_def) (simp add: bs_def)
qed


text \<open>The text of a full response, and that \<open>respFull\<close> appends it.\<close>

definition response_lines :: "int \<Rightarrow> bytes \<Rightarrow> header \<Rightarrow> bytes \<Rightarrow> bytes list" where
  "response_lines code contentType hdr data = head_lines code contentType hdr @
     [bs ''Connection: Keep-Alive'', bs ''Content-Length: '' @ format_int 10 (int (length data))]"

definition response_text :: "int \<Rightarrow> bytes \<Rightarrow> header \<Rightarrow> bytes \<Rightarrow> bytes" where
  "response_text code contentType hdr data = lines_text (response_lines code contentType hdr data) @ crlf @ data"

lemma respFull_append:
  assumes "\<not> lock c" and "list_all entry_ok hdr"
  shows "respFull code contentType hdr data c = Some (c\<lparr>conn_out := conn_out c @ response_text code contentType hdr data\<rparr>)"
proof -
  obtain t where t: "resp0 code contentType hdr c = Some (c\<lparr>conn_out := conn_out c @ t\<rparr>)"
    "t @ crlf = lines_text (head_lines code contentType hdr)" using resp0_append [OF assms] by blast
  have "response_text code contentType hdr data = t @ crlf @ bs ''Connection: Keep-Alive'' @ crlf @ bs ''Content-Length: '' @
      format_int 10 (int (length data)) @ crlf @ crlf @ data"
    using t(2) by (simp add: response_text_def response_lines_def lines_text_def)
  then show ?thesis unfolding respFull_def t(1) using assms(1) by (simp add: writers_append)
qed

lemma response_text_read:
  assumes "list_all entry_ok hdr" and "13 \<notin> set contentType"
  shows "read_response (response_text code contentType hdr data) = Some (response_lines code contentType hdr data, data)"
proof -
  have "list_all plain_line (response_lines code contentType hdr data)"
    using head_lines_plain [OF assms, of code] format_int_no_cr [of "int (length data)"]
    by (simp add: response_lines_def plain_line_def) (simp add: bs_def)
  then show ?thesis unfolding response_text_def by (rule read_response_all) (simp add: response_lines_def)
qed

text \<open>
  C17: a client that splits a response of \<open>respFull\<close> at the first empty line finds the
  status line, the headers (those of the caller that the server does not set itself), a
  Content-Length that is the length of the body, and exactly the body; provided that no
  header of the caller contains a carriage return.
\<close>

theorem respFull_response:
  assumes "\<not> lock c" and "list_all entry_ok hdr" and "13 \<notin> set contentType"
  shows "\<exists>c'. respFull code contentType hdr data c = Some c'
    \<and> take (length (conn_out c)) (conn_out c') = conn_out c
    \<and> read_response (drop (length (conn_out c)) (conn_out c')) =
        Some (head_lines code contentType hdr @
          [bs ''Connection: Keep-Alive'', bs ''Content-Length: '' @ format_int 10 (int (length data))], data)"
  using respFull_append [OF assms(1,2), of code contentType data] response_text_read [OF assms(2,3), of code data]
  by (simp add: response_lines_def)

theorem respFull_response_witness:
  "\<exists>c'. respFull 404 [] [(bs ''Server'', [bs ''resh'']), (bs ''Connection'', [bs ''close''])] (bs ''gone'') (new_conn 5 False) = Some c'
    \<and> take (length (conn_out (new_conn 5 False))) (conn_out c') = conn_out (new_conn 5 False)
    \<and> read_response (drop (length (conn_out (new_conn 5 False))) (conn_out c')) =
        Some (head_lines 404 [] [(bs ''Server'', [bs ''resh'']), (bs ''Connection'', [bs ''close''])] @
          [bs ''Connection: Keep-Alive'', bs ''Content-Length: '' @ format_int 10 (int (length (bs ''gone'')))], bs ''gone'')"
  by (rule respFull_response) (simp_all add: new_conn_def entry_ok_def bs_def)


section \<open>Chunked bodies\<close>

text \<open>
  The reference decoder of a chunked body (RFC 9112, section 7.1): one chunk is its size in
  hexadecimal, a line end, the data and a line end; an empty chunk ends the body.
\<close>

fun parse_hex :: "nat \<Rightarrow> bytes \<Rightarrow> nat option" where
  "parse_hex n [] = Some n"
| "parse_hex n (c # cs) = (case hex_val c of None \<Rightarrow> None | Some d \<Rightarrow> parse_hex (n * 16 + d) cs)"

definition dechunk1 :: "bytes \<Rightarrow> (bytes \<times> nat) option" where
  "dechunk1 xs = do {
     i \<leftarrow> bindex crlf xs;
     n \<leftarrow> parse_hex 0 (take i xs);
     (if length xs < i + 2 + n + 2 \<or> take 2 (drop (i + 2 + n) xs) \<noteq> crlf then None
      else Some (take n (drop (i + 2) xs), i + 2 + n + 2)) }"

lemma dechunk1_bound: "dechunk1 xs = Some (d, k) \<Longrightarrow> 0 < k \<and> k \<le> length xs"
  by (auto simp: dechunk1_def split: bind_splits if_splits)

function dechunk :: "bytes \<Rightarrow> (bytes \<times> bytes) option" where
  "dechunk xs = (case dechunk1 xs of
       None \<Rightarrow> None
     | Some (d, k) \<Rightarrow>
         if d = [] then Some ([], drop k xs)
         else map_option (\<lambda>(ds, r). (d @ ds, r)) (dechunk (drop k xs)))"
  by pat_completeness auto
termination
  by (relation "measure length") (auto dest: dechunk1_bound)

declare dechunk.simps [simp del]

definition chunk :: "bytes \<Rightarrow> bytes" where
  "chunk p = format_int 16 (int (length p)) @ crlf @ p @ crlf"

lemma parse_hex_append:
  "parse_hex n (xs @ ys) = (case parse_hex n xs of None \<Rightarrow> None | Some m \<Rightarrow> parse_hex m ys)"
  by (induction n xs rule: parse_hex.induct) (auto split: option.splits)

lemma hex_digit:
  assumes "d < 16"
  shows "hex_val (digit_char d) = Some d" and "digit_char d \<noteq> 13"
proof -
  have u: "unat (digit_char d) = (if d < 10 then 48 + d else 87 + d)"
    using assms by (simp add: digit_char_def unat_of_nat del: of_nat_add)
  then show "hex_val (digit_char d) = Some d" using assms by (simp add: hex_val_def word_le_nat_alt)
  show "digit_char d \<noteq> 13" using u by (auto split: if_splits)
qed

lemma format_hex: "parse_hex 0 (format_uint 16 n) = Some n \<and> 13 \<notin> set (format_uint 16 n)"
proof (induction "16 :: nat" n rule: format_uint.induct)
  case (1 n)
  show ?case
  proof (cases "n < 16")
    case True
    then show ?thesis using hex_digit [of n] by (subst (1 2) format_uint.simps) auto
  next
    case False
    then have "parse_hex 0 (format_uint 16 (n div 16)) = Some (n div 16)" "13 \<notin> set (format_uint 16 (n div 16))"
      using 1 by auto
    moreover have "n div 16 * 16 + n mod 16 = n" by simp
    moreover have "n mod 16 < 16" by simp
    ultimately show ?thesis
      using False hex_digit [of "n mod 16"] by (subst (1 2) format_uint.simps) (auto simp: parse_hex_append)
  qed
qed

interpretation chunks: codec chunk dechunk1 "\<lambda>_. True"
proof
  fix p rest :: bytes
  let ?h = "format_int 16 (int (length p))"
  have h: "?h = format_uint 16 (length p)" by (simp add: format_int_def)
  have "bindex crlf (?h @ crlf @ p @ crlf @ rest) = Some (length ?h)"
    using format_hex [of "length p"] h by (intro bindex_crlf_line) simp
  then show "dechunk1 (chunk p @ rest) = Some (p, length (chunk p))"
    using format_hex [of "length p"] unfolding h by (simp add: dechunk1_def chunk_def h)
qed

lemma dechunk_chunks:
  "[] \<notin> set ps \<Longrightarrow> dechunk (concat (map chunk ps) @ chunk [] @ rest) = Some (concat ps, rest)"
proof (induction ps)
  case Nil
  show ?case using chunks.dec_enc [of "[]" rest] by (subst dechunk.simps) simp
next
  case (Cons p ps)
  then have "p \<noteq> []" by auto
  with Cons show ?case using chunks.dec_enc [of p "concat (map chunk ps) @ chunk [] @ rest"]
    by (subst dechunk.simps) simp
qed

lemma writeChunked_append:
  "\<not> lock c \<Longrightarrow> \<not> conn_closed c \<Longrightarrow>
   \<exists>tr. writeChunked p c = Some (c\<lparr>conn_out := conn_out c @ chunk p\<rparr>, tr)"
  by (simp add: writeChunked_def writers_append conn_Write_append chunk_def)

text \<open>A sequence of writes, without the descriptors they trigger.\<close>

fun http_writes :: "bytes list \<Rightarrow> http \<Rightarrow> conn \<Rightarrow> (http \<times> conn) option" where
  "http_writes [] w c = Some (w, c)"
| "http_writes (p # ps) w c = do { (w, c, _, _) \<leftarrow> http_Write p w c; http_writes ps w c }"

lemma http_Write_chunks:
  assumes "\<not> lock c" and "\<not> conn_closed c" and "chunked w"
  shows "\<exists>cs buf tr. http_Write p w c = Some (w\<lparr>chkbuf := buf\<rparr>, c\<lparr>conn_out := conn_out c @ concat (map chunk cs)\<rparr>, tr, length p)
    \<and> [] \<notin> set cs \<and> concat cs @ buf = chkbuf w @ p"
proof -
  note wc = writeChunked_append [OF assms(1,2)]
  consider "p = []" | "p \<noteq> []" "length p \<le> 4 \<or> chkbuf w \<noteq> []" "length (chkbuf w @ p) \<ge> 64"
    | "p \<noteq> []" "length p \<le> 4 \<or> chkbuf w \<noteq> []" "length (chkbuf w @ p) < 64" | "p \<noteq> []" "\<not> (length p \<le> 4 \<or> chkbuf w \<noteq> [])"
    by linarith
  then show ?thesis
  proof cases
    case 1
    then show ?thesis using assms(3) by (intro exI [of _ "[]"] exI [of _ "chkbuf w"] exI [of _ "[]"]) (simp add: http_Write_def)
  next
    case 2
    obtain tr where "writeChunked (chkbuf w @ p) c = Some (c\<lparr>conn_out := conn_out c @ chunk (chkbuf w @ p)\<rparr>, tr)" using wc by blast
    then show ?thesis using 2 assms(3)
      by (intro exI [of _ "[chkbuf w @ p]"] exI [of _ "[]"] exI [of _ tr]) (simp add: http_Write_def)
  next
    case 3
    then show ?thesis using assms(3)
      by (intro exI [of _ "[]"] exI [of _ "chkbuf w @ p"] exI [of _ "[]"]) (simp add: http_Write_def)
  next
    case 4
    obtain tr where "writeChunked p c = Some (c\<lparr>conn_out := conn_out c @ chunk p\<rparr>, tr)" using wc by blast
    then show ?thesis using 4 assms(3)
      by (intro exI [of _ "[p]"] exI [of _ "[]"] exI [of _ tr]) (simp add: http_Write_def)
  qed
qed

lemma http_writes_chunks:
  "\<not> lock c \<Longrightarrow> \<not> conn_closed c \<Longrightarrow> chunked w \<Longrightarrow>
   \<exists>cs buf. http_writes ps w c = Some (w\<lparr>chkbuf := buf\<rparr>, c\<lparr>conn_out := conn_out c @ concat (map chunk cs)\<rparr>)
    \<and> [] \<notin> set cs \<and> concat cs @ buf = chkbuf w @ concat ps"
proof (induction ps arbitrary: w c)
  case Nil
  then show ?case by (intro exI [of _ "[]"] exI [of _ "chkbuf w"]) simp
next
  case (Cons p ps)
  obtain cs buf tr where 1: "http_Write p w c = Some (w\<lparr>chkbuf := buf\<rparr>, c\<lparr>conn_out := conn_out c @ concat (map chunk cs)\<rparr>, tr, length p)"
    "[] \<notin> set cs" "concat cs @ buf = chkbuf w @ p" using http_Write_chunks [OF Cons.prems] by blast
  let ?w = "w\<lparr>chkbuf := buf\<rparr>" and ?c = "c\<lparr>conn_out := conn_out c @ concat (map chunk cs)\<rparr>"
  obtain cs' buf' where 2: "http_writes ps ?w ?c = Some (?w\<lparr>chkbuf := buf'\<rparr>, ?c\<lparr>conn_out := conn_out ?c @ concat (map chunk cs')\<rparr>)"
    "[] \<notin> set cs'" "concat cs' @ buf' = chkbuf ?w @ concat ps" using Cons.IH [of ?c ?w] Cons.prems by auto
  have "concat (cs @ cs') @ buf' = chkbuf w @ concat (p # ps)" 
    using arg_cong [OF 1(3), of "\<lambda>x. x @ concat ps"] 2(3) by simp
  moreover have "http_writes (p # ps) w c = Some (w\<lparr>chkbuf := buf'\<rparr>, c\<lparr>conn_out := conn_out c @ concat (map chunk (cs @ cs'))\<rparr>)"
    using 1(1) 2(1) by simp
  moreover have "[] \<notin> set (cs @ cs')" using 1(2) 2(2) by simp
  ultimately show ?case by blast
qed


lemma chunk_Nil: "chunk [] = bs ''0'' @ crlf @ crlf"
  by (simp add: chunk_def format_int_def format_uint.simps digit_char_def bs_def)

lemma FinishChunked_chunks:
  assumes "\<not> lock c" and "\<not> conn_closed c" and "chunked w"
  shows "\<exists>cs tr. FinishChunked w c = Some (w\<lparr>chkbuf := [], chunked := False\<rparr>,
      c\<lparr>conn_out := conn_out c @ concat (map chunk cs) @ chunk []\<rparr>, tr) \<and> [] \<notin> set cs \<and> concat cs = chkbuf w"
proof (cases "chkbuf w = []")
  case True
  then have "w\<lparr>chkbuf := []\<rparr> = w" by simp
  then show ?thesis using True assms
    by (intro exI [of _ "[]"] exI [of _ "Flush c"]) (simp add: FinishChunked_def writers_append chunk_Nil Flush_def)
next
  case False
  obtain tr where "writeChunked (chkbuf w) c = Some (c\<lparr>conn_out := conn_out c @ chunk (chkbuf w)\<rparr>, tr)"
    using writeChunked_append [OF assms(1,2)] by blast
  with False assms show ?thesis
    by (intro exI [of _ "[chkbuf w]"] exI [of _ "tr @ Flush c"]) (simp add: FinishChunked_def writers_append chunk_Nil Flush_def)
qed

lemma StartChunked_append:
  assumes "\<not> lock c" and "list_all entry_ok hdr"
  shows "StartChunked code contentType hdr r c = Some (r\<lparr>chunked := True\<rparr>, c\<lparr>conn_out := conn_out c @
    lines_text (head_lines code contentType hdr @ [bs ''Connection: Keep-Alive'', bs ''Transfer-Encoding: chunked'']) @ crlf\<rparr>)"
proof -
  obtain t where t: "resp0 code contentType hdr c = Some (c\<lparr>conn_out := conn_out c @ t\<rparr>)"
    "t @ crlf = lines_text (head_lines code contentType hdr)" using resp0_append [OF assms] by blast
  have "lines_text (head_lines code contentType hdr @ [bs ''Connection: Keep-Alive'', bs ''Transfer-Encoding: chunked'']) =
      t @ crlf @ bs ''Connection: Keep-Alive'' @ crlf @ bs ''Transfer-Encoding: chunked'' @ crlf"
    using t(2) by (simp add: lines_text_def)
  then show ?thesis unfolding StartChunked_def t(1) using assms(1) by (simp add: writers_append)
qed

text \<open>
  C18: whatever pieces a handler writes between \<open>StartChunked\<close> and \<open>FinishChunked\<close>, empty
  and small ones included, the client finds a chunked head and decodes the body to the
  concatenation of the pieces; the request is out of chunked mode with an empty buffer.
\<close>

theorem chunked_response:
  assumes "\<not> lock c" and "\<not> conn_closed c" and "list_all entry_ok hdr" and "13 \<notin> set contentType"
    and "chkbuf r = []"
  shows "\<exists>r1 c1 r2 c2 c3 tr body. StartChunked code contentType hdr r c = Some (r1, c1)
    \<and> http_writes ps r1 c1 = Some (r2, c2) \<and> FinishChunked r2 c2 = Some (r\<lparr>chunked := False\<rparr>, c3, tr)
    \<and> take (length (conn_out c)) (conn_out c3) = conn_out c
    \<and> read_response (drop (length (conn_out c)) (conn_out c3)) =
        Some (head_lines code contentType hdr @ [bs ''Connection: Keep-Alive'', bs ''Transfer-Encoding: chunked''], body)
    \<and> dechunk body = Some (concat ps, [])"
proof -
  let ?ls = "head_lines code contentType hdr @ [bs ''Connection: Keep-Alive'', bs ''Transfer-Encoding: chunked'']"
  define r1 where "r1 = r\<lparr>chunked := True\<rparr>"
  define c1 where "c1 = c\<lparr>conn_out := conn_out c @ lines_text ?ls @ crlf\<rparr>"
  have 1: "StartChunked code contentType hdr r c = Some (r1, c1)"
    using StartChunked_append [OF assms(1,3)] by (simp add: r1_def c1_def)
  have p1: "\<not> lock c1" "\<not> conn_closed c1" "chunked r1" using assms by (simp_all add: r1_def c1_def)
  obtain cs buf where 2: "http_writes ps r1 c1 = Some (r1\<lparr>chkbuf := buf\<rparr>, c1\<lparr>conn_out := conn_out c1 @ concat (map chunk cs)\<rparr>)"
    "[] \<notin> set cs" "concat cs @ buf = concat ps" using http_writes_chunks [OF p1, of ps] assms(5) by (auto simp: r1_def)
  define r2 where "r2 = r1\<lparr>chkbuf := buf\<rparr>"
  define c2 where "c2 = c1\<lparr>conn_out := conn_out c1 @ concat (map chunk cs)\<rparr>"
  have p2: "\<not> lock c2" "\<not> conn_closed c2" "chunked r2" using p1 by (simp_all add: r2_def c2_def)
  obtain cs' tr where 3: "FinishChunked r2 c2 = Some (r2\<lparr>chkbuf := [], chunked := False\<rparr>,
      c2\<lparr>conn_out := conn_out c2 @ concat (map chunk cs') @ chunk []\<rparr>, tr)" "[] \<notin> set cs'" "concat cs' = buf"
    using FinishChunked_chunks [OF p2] by (auto simp: r2_def)
  have r: "r2\<lparr>chkbuf := [], chunked := False\<rparr> = r\<lparr>chunked := False\<rparr>" using assms(5) by (simp add: r2_def r1_def)
  let ?body = "concat (map chunk (cs @ cs')) @ chunk []"
  have "conn_out (c2\<lparr>conn_out := conn_out c2 @ concat (map chunk cs') @ chunk []\<rparr>) = conn_out c @ lines_text ?ls @ crlf @ ?body"
    by (simp add: c2_def c1_def)
  moreover have "read_response (lines_text ?ls @ crlf @ ?body) = Some (?ls, ?body)"
  proof -
    have "list_all plain_line ?ls"
      using head_lines_plain [OF assms(3,4), of code] by (simp add: plain_line_def) (simp add: bs_def)
    then show ?thesis by (rule read_response_all) simp
  qed
  moreover have "dechunk ?body = Some (concat ps, [])"
    using dechunk_chunks [of "cs @ cs'" "[]"] 2(2,3) 3(2,3) by simp
  ultimately show ?thesis using 1 2(1) 3(1) r unfolding r2_def [symmetric] c2_def [symmetric] by auto
qed

theorem chunked_response_witness:
  "\<exists>r1 c1 r2 c2 c3 tr body. StartChunked 200 [] [] new_http (new_conn 5 False) = Some (r1, c1)
    \<and> http_writes [bs ''ab'', [], bs ''hello world''] r1 c1 = Some (r2, c2)
    \<and> FinishChunked r2 c2 = Some (new_http\<lparr>chunked := False\<rparr>, c3, tr)
    \<and> take (length (conn_out (new_conn 5 False))) (conn_out c3) = conn_out (new_conn 5 False)
    \<and> read_response (drop (length (conn_out (new_conn 5 False))) (conn_out c3)) =
        Some (head_lines 200 [] [] @ [bs ''Connection: Keep-Alive'', bs ''Transfer-Encoding: chunked''], body)
    \<and> dechunk body = Some (concat [bs ''ab'', [], bs ''hello world''], [])"
  by (rule chunked_response) (simp_all add: new_conn_def new_http_def)

section \<open>Upgrading a connection\<close>

definition ws_guid :: bytes where
  "ws_guid = bs ''258EAFA5-E914-47DA-95CA-C5AB0DC85B11''"

fun upgrade_headers :: "header \<Rightarrow> conn \<Rightarrow> conn option" where
  "upgrade_headers [] c = Some c"
| "upgrade_headers ((k, v) # hdr) c =
     (if k = bs ''Upgrade'' \<or> k = bs ''Connection'' \<or> k = bs ''Sec-WebSocket-Accept''
      then upgrade_headers hdr c
      else do {
        c \<leftarrow> writeString k c;
        c \<leftarrow> writeString (bs '': '') c;
        v0 \<leftarrow> first_value v;
        c \<leftarrow> writeString v0 c;
        c \<leftarrow> writeString crlf c;
        upgrade_headers hdr c })"

text \<open>The flag says whether there is a WebSocket, and the list is what \<open>Flush\<close> triggers.\<close>

definition UpgradeWebsocket :: "header \<Rightarrow> http \<Rightarrow> conn \<Rightarrow> (conn \<times> bool \<times> int list) option" where
  "UpgradeWebsocket hdr w c =
     (if \<not> wsUpgrade w then Some (c, False, [])
      else do {
        let c = c\<lparr>conn_ws := Some new_websocket\<rparr>;
        v \<leftarrow> GetHeader w (bs ''sec-websocket-key'');
        let h = sha1 (v @ ws_guid);
        c \<leftarrow> writeString (bs ''HTTP/1.1 101 Switching Protocols'' @ crlf @ bs ''Upgrade: websocket'' @ crlf @
               bs ''Connection: Upgrade'' @ crlf @ bs ''Sec-WebSocket-Accept: '') c;
        c \<leftarrow> writeString (base64 h) c;
        c \<leftarrow> writeString crlf c;
        c \<leftarrow> upgrade_headers hdr c;
        c \<leftarrow> writeString crlf c;
        Some (c, True, Flush c) })"


lemma base64_no_cr: "13 \<notin> set (base64 xs)"
proof -
  have "base64_char n \<noteq> 13" for n
  proof (cases "n < 62")
    case True
    then have "unat (base64_char n) = (if n < 26 then 65 + n else if n < 52 then 71 + n else n - 4)"
      by (simp add: base64_char_def unat_of_nat del: of_nat_add of_nat_diff)
    with True show ?thesis by (auto split: if_splits)
  qed (simp add: base64_char_def)
  note this [symmetric, simp]
  show ?thesis by (induction xs rule: base64.induct) simp_all
qed

definition upgrade_lines :: "header \<Rightarrow> bytes list" where
  "upgrade_lines hdr = map (\<lambda>(k, v). k @ bs '': '' @ hd v)
     (filter (\<lambda>(k, v). k \<notin> {bs ''Upgrade'', bs ''Connection'', bs ''Sec-WebSocket-Accept''}) hdr)"

lemma upgrade_headers_append:
  "\<not> lock c \<Longrightarrow> list_all entry_ok hdr \<Longrightarrow>
   upgrade_headers hdr c = Some (c\<lparr>conn_out := conn_out c @ lines_text (upgrade_lines hdr)\<rparr>)"
proof (induction hdr arbitrary: c)
  case Nil
  then show ?case by (simp add: upgrade_lines_def)
next
  case (Cons e hdr)
  then show ?case
    by (cases e) (auto simp: upgrade_lines_def entry_ok_def first_value_def writers_append split: list.splits)
qed

text \<open>The answer to an upgrade, for the value of the client's key.\<close>

definition upgrade_answer :: "header \<Rightarrow> bytes \<Rightarrow> bytes list" where
  "upgrade_answer hdr v = [bs ''HTTP/1.1 101 Switching Protocols'', bs ''Upgrade: websocket'', bs ''Connection: Upgrade'',
     bs ''Sec-WebSocket-Accept: '' @ base64 (sha1 (v @ ws_guid))] @ upgrade_lines hdr"

lemma upgrade_append:
  assumes "\<not> lock c" and "\<not> conn_closed c" and "list_all entry_ok hdr" and "GetHeader w (bs ''sec-websocket-key'') = Some v" and "wsUpgrade w"
  shows "UpgradeWebsocket hdr w c =
      Some (c\<lparr>conn_ws := Some new_websocket, conn_out := conn_out c @ lines_text (upgrade_answer hdr v) @ crlf\<rparr>, True, [conn_fd c])"
  using assms by (simp add: UpgradeWebsocket_def upgrade_answer_def writers_append upgrade_headers_append Flush_def)

lemma upgrade_answer_read:
  assumes "list_all entry_ok hdr"
  shows "read_response (lines_text (upgrade_answer hdr v) @ crlf) = Some (upgrade_answer hdr v, [])"
proof -
  have "plain_line (k @ bs '': '' @ hd v)" if "entry_ok (k, v)" for k v
    using that by (simp add: entry_ok_def plain_line_def bs_def)
  then have "list_all plain_line (upgrade_lines hdr)"
    using assms by (auto simp: upgrade_lines_def list_all_iff)
  then have "list_all plain_line (upgrade_answer hdr v)"
    using base64_no_cr by (simp add: upgrade_answer_def plain_line_def) (simp add: bs_def)
  from read_response_all [OF this, of "[]"] show ?thesis by (simp add: upgrade_answer_def)
qed

text \<open>
  A request that asked for an upgrade is answered with status 101 and with an accept
  key that is the Base64 form of the SHA-1 of the client's key followed by the protocol's
  GUID; the answer is a complete head, the connection is a WebSocket with no pending
  message, and the poller is told to send the answer. Any other request is left alone.
\<close>

lemma upgrade_response:
  assumes "\<not> lock c" and "\<not> conn_closed c" and "list_all entry_ok hdr"
    and "GetHeader w (bs ''sec-websocket-key'') = Some v"
  shows "\<exists>c'. UpgradeWebsocket hdr w c = Some (c', wsUpgrade w, if wsUpgrade w then [conn_fd c] else [])
    \<and> (if wsUpgrade w then conn_ws c' = Some new_websocket
         \<and> read_response (drop (length (conn_out c)) (conn_out c')) =
             Some ([bs ''HTTP/1.1 101 Switching Protocols'', bs ''Upgrade: websocket'', bs ''Connection: Upgrade'',
               bs ''Sec-WebSocket-Accept: '' @ base64 (sha1 (v @ ws_guid))] @ upgrade_lines hdr, [])
       else c' = c)"
proof (cases "wsUpgrade w")
  case False
  then show ?thesis by (simp add: UpgradeWebsocket_def)
next
  case True
  then show ?thesis
    using upgrade_append [OF assms True] upgrade_answer_read [OF assms(3), of v] by (simp add: upgrade_answer_def)
qed

definition sample_upgrade :: http where
  "sample_upgrade = new_http\<lparr>wsUpgrade := True,
     http_data := lines_text [bs ''GET /chat HTTP/1.1'', bs ''host: h'', bs ''sec-websocket-key: abc''] @ crlf\<rparr>"

text \<open>
  A redirect is a complete head with the status line and the location, and has no body.
\<close>

lemma redirect_response:
  assumes "\<not> lock c" and "13 \<notin> set location"
  shows "\<exists>c'. Redirect code location c = Some c'
    \<and> read_response (drop (length (conn_out c)) (conn_out c')) =
        Some ([bs ''HTTP/1.1 '' @ format_int 10 code @ bs '' '' @ StatusText code, bs ''Location: '' @ location], [])"
proof -
  let ?ls = "[bs ''HTTP/1.1 '' @ format_int 10 code @ bs '' '' @ StatusText code, bs ''Location: '' @ location]"
  have "list_all plain_line ?ls"
    using assms(2) StatusText_no_cr format_int_no_cr by (simp add: plain_line_def) (simp add: bs_def)
  then have "read_response (lines_text ?ls @ crlf @ []) = Some (?ls, [])" by (rule read_response_all) simp
  then show ?thesis using assms(1) by (simp add: Redirect_def writers_append)
qed

end
