(* ===== verification/Lock_Queue.thy ===== *)
theory Lock_Queue
  imports Resh_Prelude "HOL-Library.Multiset"
begin

text \<open>
  internal/lockqueue.go: the lock-free list of descriptors that other goroutines hand to
  the poller. \<open>Add\<close> pushes a node with a compare-and-swap and starts again when it lost;
  \<open>SwapOutForEach\<close> takes the whole list at once and walks it. Nodes come from a pool and
  go back to it, so an address is used many times.

  The last part is what a call does when no other goroutine is in between; the first
  part is the interleaving of any number of producers with the one consumer, down to the
  single accesses of the shared root and of the pool.

  \<open>SwapOutForEach\<close> stops when its callback returns an error, and then the rest of the list is lost.
  The callbacks of both callers (server.go, redis/client.go) return nil on every path, so in the
  interleavings the consumer always goes on; the sequential model has the early return.
\<close>

section \<open>Nodes\<close>

text \<open>A store of nodes (value and next pointer), the root pointer and the pool.\<close>

record 'v lock_queue =
  root :: "nat option"
  nodes :: "nat \<Rightarrow> 'v \<times> nat option"
  pool :: "nat set"
  fresh :: nat

definition new_queue :: "'v \<Rightarrow> 'v lock_queue" where
  "new_queue zero = \<lparr>root = None, nodes = (\<lambda>_. (zero, None)), pool = {}, fresh = 0\<rparr>"

text \<open>The addresses a pointer leads to.\<close>

fun chain :: "(nat \<Rightarrow> 'v \<times> nat option) \<Rightarrow> nat option \<Rightarrow> nat list \<Rightarrow> bool" where
  "chain h p [] \<longleftrightarrow> p = None"
| "chain h p (a # as) \<longleftrightarrow> p = Some a \<and> chain h (snd (h a)) as"

lemma chain_upd: "a \<notin> set as \<Longrightarrow> chain (h(a := x)) p as = chain h p as"
  by (induction as arbitrary: p) auto

lemma chain_None [simp]: "chain h None as \<longleftrightarrow> as = []"
  by (cases as) auto

lemma chain_Some: "chain h (Some a) as \<longleftrightarrow> (\<exists>bs. as = a # bs \<and> chain h (snd (h a)) bs)"
  by (cases as) auto

section \<open>Producers and the consumer\<close>

text \<open>
  Where a goroutine is in \<open>Add(v)\<close>: before the load of the root, before \<open>pool.Get\<close> with the
  root it loaded, before the compare-and-swap with its node. Where the consumer is in
  \<open>SwapOutForEach\<close>: outside, at the top of the loop with its pointer, or about to call
  \<open>f\<close> with a value.
\<close>

datatype 'v producer = PIdle | PLoad 'v | PGet 'v "nat option" | PCas 'v "nat option" nat

datatype 'v consumer = CIdle | CWalk "nat option" | CCall 'v "nat option"

record 'v queue_run = "'v lock_queue" +
  producers :: "nat \<Rightarrow> 'v producer"
  consumer :: "'v consumer"
  added :: "'v list"
  delivered :: "'v list"

definition init_run :: "'v \<Rightarrow> 'v queue_run" where
  "init_run zero = \<lparr>root = None, nodes = (\<lambda>_. (zero, None)), pool = {}, fresh = 0,
     producers = (\<lambda>_. PIdle), consumer = CIdle, added = [], delivered = []\<rparr>"

inductive queue_step :: "'v queue_run \<Rightarrow> 'v queue_run \<Rightarrow> bool" where
  call: "producers s i = PIdle \<Longrightarrow>
    queue_step s (s\<lparr>producers := (producers s)(i := PLoad v)\<rparr>)"
| load: "producers s i = PLoad v \<Longrightarrow>
    queue_step s (s\<lparr>producers := (producers s)(i := PGet v (root s))\<rparr>)"
| get_pooled: "producers s i = PGet v r \<Longrightarrow> n \<in> pool s \<Longrightarrow>
    queue_step s (s\<lparr>pool := pool s - {n}, nodes := (nodes s)(n := (v, r)),
                    producers := (producers s)(i := PCas v r n)\<rparr>)"
| get_new: "producers s i = PGet v r \<Longrightarrow> n = fresh s \<Longrightarrow>
    queue_step s (s\<lparr>fresh := Suc n, nodes := (nodes s)(n := (v, r)),
                    producers := (producers s)(i := PCas v r n)\<rparr>)"
| cas_ok: "producers s i = PCas v r n \<Longrightarrow> root s = r \<Longrightarrow>
    queue_step s (s\<lparr>root := Some n, producers := (producers s)(i := PIdle), added := added s @ [v]\<rparr>)"
| cas_fail: "producers s i = PCas v r n \<Longrightarrow> root s \<noteq> r \<Longrightarrow>
    queue_step s (s\<lparr>pool := insert n (pool s), producers := (producers s)(i := PLoad v)\<rparr>)"
| swap: "consumer s = CIdle \<Longrightarrow>
    queue_step s (s\<lparr>root := None, consumer := CWalk (root s)\<rparr>)"
| visit: "consumer s = CWalk (Some p) \<Longrightarrow>
    queue_step s (s\<lparr>pool := insert p (pool s), consumer := CCall (fst (nodes s p)) (snd (nodes s p))\<rparr>)"
| deliver: "consumer s = CCall v p \<Longrightarrow>
    queue_step s (s\<lparr>delivered := delivered s @ [v], consumer := CWalk p\<rparr>)"
| finish: "consumer s = CWalk None \<Longrightarrow>
    queue_step s (s\<lparr>consumer := CIdle\<rparr>)"

section \<open>The invariant\<close>

fun held :: "'v consumer \<Rightarrow> nat option" where
  "held CIdle = None"
| "held (CWalk p) = p"
| "held (CCall v p) = p"

fun in_flight :: "'v consumer \<Rightarrow> 'v multiset" where
  "in_flight (CCall v p) = {#v#}"
| "in_flight _ = {#}"

text \<open>
  The list under the root and the list the consumer walks are disjoint chains of nodes.
  No node of theirs is in the pool or owned by a producer, producers own different nodes,
  and every value ever added is in exactly one of four places.
\<close>

definition queue_inv :: "'v queue_run \<Rightarrow> nat list \<Rightarrow> nat list \<Rightarrow> bool" where
  "queue_inv s rs cs \<longleftrightarrow>
     chain (nodes s) (root s) rs \<and> chain (nodes s) (held (consumer s)) cs \<and> distinct (rs @ cs) \<and>
     set (rs @ cs) \<inter> pool s = {} \<and> (\<forall>a \<in> set (rs @ cs) \<union> pool s. a < fresh s) \<and>
     (\<forall>i v r n. producers s i = PCas v r n \<longrightarrow> nodes s n = (v, r) \<and> n < fresh s \<and> n \<notin> set (rs @ cs) \<union> pool s) \<and>
     (\<forall>i j v r w q n. producers s i = PCas v r n \<longrightarrow> producers s j = PCas w q n \<longrightarrow> i = j) \<and>
     mset (added s) = mset (map (fst \<circ> nodes s) (rs @ cs)) + in_flight (consumer s) + mset (delivered s)"

lemma map_fst_upd: "a \<notin> set as \<Longrightarrow> map (fst \<circ> h(a := x)) as = map (fst \<circ> h) as"
  by auto

lemma exI2: "P a b \<Longrightarrow> \<exists>x y. P x y"
  by blast

lemma queue_inv_step: "queue_step s s' \<Longrightarrow> queue_inv s rs cs \<Longrightarrow> \<exists>rs' cs'. queue_inv s' rs' cs'"
proof (induction rule: queue_step.induct)
  case (call s i v)
  then show ?case by (intro exI2 [of _ rs cs]) (auto simp: queue_inv_def)
next
  case (load s i v)
  then show ?case by (intro exI2 [of _ rs cs]) (auto simp: queue_inv_def)
next
  case (get_pooled s i v r n)
  then have "n \<notin> set rs" "n \<notin> set cs" "\<And>j w q. producers s j \<noteq> PCas w q n" by (auto simp: queue_inv_def)
  with get_pooled show ?case
    by (intro exI2 [of _ rs cs]) (auto simp: queue_inv_def chain_upd map_fst_upd)
next
  case (get_new s i v r n)
  then have "n \<notin> set rs" "n \<notin> set cs" "n \<notin> pool s" "\<And>j w q. producers s j \<noteq> PCas w q n"
    by (fastforce simp: queue_inv_def)+
  with get_new show ?case
    by (intro exI2 [of _ rs cs]) (auto simp: queue_inv_def chain_upd map_fst_upd less_Suc_eq)
next
  case (cas_ok s i v r n)
  then show ?case by (intro exI2 [of _ "n # rs" cs]) (auto simp: queue_inv_def)
next
  case (cas_fail s i v r n)
  then show ?case by (intro exI2 [of _ rs cs]) (auto simp: queue_inv_def)
next
  case (swap s)
  then show ?case by (intro exI2 [of _ "[]" rs]) (auto simp: queue_inv_def)
next
  case (visit s p)
  then obtain bs where "cs = p # bs" by (auto simp: queue_inv_def chain_Some)
  with visit show ?case by (intro exI2 [of _ rs bs]) (auto simp: queue_inv_def)
next
  case (deliver s v p)
  then show ?case by (intro exI2 [of _ rs cs]) (auto simp: queue_inv_def)
next
  case (finish s)
  then show ?case by (intro exI2 [of _ rs cs]) (auto simp: queue_inv_def)
qed


lemma queue_inv_init: "queue_inv (init_run z) [] []"
  by (simp add: queue_inv_def init_run_def)

lemma queue_inv_reachable: "queue_step\<^sup>*\<^sup>* (init_run z) s \<Longrightarrow> \<exists>rs cs. queue_inv s rs cs"
proof (induction rule: rtranclp_induct)
  case base
  then show ?case using queue_inv_init [of z] by blast
next
  case (step s s')
  then show ?case using queue_inv_step [of s s'] by blast
qed

text \<open>
  C24: in every interleaving of producers and the consumer, with nodes reused through the
  pool, a value is delivered at most as often as it was added, and once the list is empty
  and the consumer is outside its loop every added value has been delivered exactly once.
\<close>

theorem queue_exactly_once:
  assumes "queue_step\<^sup>*\<^sup>* (init_run z) s"
  shows "mset (delivered s) \<subseteq># mset (added s)
    \<and> (root s = None \<and> consumer s = CIdle \<longrightarrow> mset (delivered s) = mset (added s))"
proof -
  obtain rs cs where "queue_inv s rs cs" using queue_inv_reachable [OF assms] by blast
  then show ?thesis by (auto simp: queue_inv_def)
qed

text \<open>One value on its way through the queue.\<close>

definition sample_run :: "nat queue_run" where
  "sample_run = \<lparr>root = None, nodes = (\<lambda>_. (0, None))(0 := (7, None)), pool = {0}, fresh = 1,
     producers = (\<lambda>_. PIdle), consumer = CIdle, added = [7], delivered = [7]\<rparr>"

lemma sample_reachable: "queue_step\<^sup>*\<^sup>* (init_run 0) sample_run"
proof -
  define s0 :: "nat queue_run" where "s0 = init_run 0"
  define s1 where "s1 = s0\<lparr>producers := (producers s0)(0 := PLoad 7)\<rparr>"
  define s2 where "s2 = s1\<lparr>producers := (producers s1)(0 := PGet 7 (root s1))\<rparr>"
  define s3 where "s3 = s2\<lparr>fresh := Suc 0, nodes := (nodes s2)(0 := (7, None)), producers := (producers s2)(0 := PCas 7 None 0)\<rparr>"
  define s4 where "s4 = s3\<lparr>root := Some 0, producers := (producers s3)(0 := PIdle), added := added s3 @ [7]\<rparr>"
  define s5 where "s5 = s4\<lparr>root := None, consumer := CWalk (root s4)\<rparr>"
  define s6 where "s6 = s5\<lparr>pool := insert 0 (pool s5), consumer := CCall (fst (nodes s5 0)) (snd (nodes s5 0))\<rparr>"
  define s7 where "s7 = s6\<lparr>delivered := delivered s6 @ [7], consumer := CWalk None\<rparr>"
  define s8 where "s8 = s7\<lparr>consumer := CIdle\<rparr>"
  note d = s0_def s1_def s2_def s3_def s4_def s5_def s6_def s7_def s8_def init_run_def
  have "queue_step s0 s1" unfolding s1_def by (rule call) (simp add: d)
  moreover have "queue_step s1 s2" unfolding s2_def by (rule load) (simp add: d)
  moreover have "queue_step s2 s3" unfolding s3_def by (rule get_new) (simp_all add: d)
  moreover have "queue_step s3 s4" unfolding s4_def by (rule cas_ok) (simp_all add: d)
  moreover have "queue_step s4 s5" unfolding s5_def by (rule swap) (simp add: d)
  moreover have "queue_step s5 s6" unfolding s6_def by (rule visit) (simp add: d)
  moreover have "queue_step s6 s7" unfolding s7_def by (rule deliver) (simp add: d)
  moreover have "queue_step s7 s8" unfolding s8_def by (rule finish) (simp add: d)
  moreover have "s8 = sample_run" by (simp add: d sample_run_def fun_eq_iff)
  ultimately show ?thesis unfolding s0_def [symmetric] by (auto intro: converse_rtranclp_into_rtranclp)
qed

theorem queue_exactly_once_witness:
  "mset (delivered sample_run) \<subseteq># mset (added sample_run)
    \<and> root sample_run = None \<and> consumer sample_run = CIdle \<and> mset (delivered sample_run) = mset (added sample_run)"
  using queue_exactly_once [OF sample_reachable] by (simp add: sample_run_def)

section \<open>Draining\<close>

lemma drain_held:
  "queue_inv s rs cs \<Longrightarrow> consumer s = CWalk (held (consumer s)) \<Longrightarrow>
   \<exists>s'. queue_step\<^sup>*\<^sup>* s s' \<and> consumer s' = CIdle \<and> root s' = root s \<and> added s' = added s \<and> producers s' = producers s
     \<and> queue_inv s' rs []"
proof (induction cs arbitrary: s)
  case Nil
  then have c: "consumer s = CWalk None" by (auto simp: queue_inv_def)
  have "queue_step s (s\<lparr>consumer := CIdle\<rparr>)" using c by (rule finish)
  moreover have "queue_inv (s\<lparr>consumer := CIdle\<rparr>) rs []" using Nil.prems(1) c by (auto simp: queue_inv_def)
  ultimately show ?case by (intro exI [of _ "s\<lparr>consumer := CIdle\<rparr>"]) auto
next
  case (Cons p cs)
  then have c: "consumer s = CWalk (Some p)" by (auto simp: queue_inv_def)
  define s1 where "s1 = s\<lparr>pool := insert p (pool s), consumer := CCall (fst (nodes s p)) (snd (nodes s p))\<rparr>"
  define s2 where "s2 = s1\<lparr>delivered := delivered s1 @ [fst (nodes s p)], consumer := CWalk (snd (nodes s p))\<rparr>"
  have 1: "queue_step s s1" unfolding s1_def using c by (rule visit)
  have 2: "queue_step s1 s2" unfolding s2_def by (rule deliver) (simp add: s1_def)
  have inv: "queue_inv s2 rs cs" using Cons.prems(1) c by (auto simp: queue_inv_def s1_def s2_def)
  have "consumer s2 = CWalk (held (consumer s2))" by (simp add: s2_def)
  from Cons.IH [OF inv this] obtain s' where s': "queue_step\<^sup>*\<^sup>* s2 s'" "consumer s' = CIdle" "root s' = root s2"
    "added s' = added s2" "producers s' = producers s2" "queue_inv s' rs []" by blast
  have "queue_step\<^sup>*\<^sup>* s s'" using 1 2 s'(1) by (meson converse_rtranclp_into_rtranclp)
  with s' show ?case by (auto simp: s1_def s2_def)
qed

lemma drain_to_walk:
  assumes "queue_inv s rs cs"
  shows "\<exists>s'. queue_step\<^sup>*\<^sup>* s s' \<and> consumer s' = CIdle \<and> root s' = root s \<and> added s' = added s \<and> producers s' = producers s \<and> queue_inv s' rs []"
proof (cases "consumer s")
  case CIdle
  with assms have "cs = []" by (simp add: queue_inv_def)
  with CIdle assms show ?thesis by blast
next
  case (CWalk p)
  then show ?thesis using drain_held [OF assms] by simp
next
  case (CCall v p)
  define s1 where "s1 = s\<lparr>delivered := delivered s @ [v], consumer := CWalk p\<rparr>"
  have 1: "queue_step s s1" unfolding s1_def using CCall by (rule deliver)
  have "queue_inv s1 rs cs" using assms CCall by (auto simp: queue_inv_def s1_def)
  from drain_held [OF this] obtain s' where "queue_step\<^sup>*\<^sup>* s1 s'" "consumer s' = CIdle" "root s' = root s1"
    "added s' = added s1" "producers s' = producers s1" "queue_inv s' rs []" by (auto simp: s1_def)
  with 1 show ?thesis by (auto simp: s1_def intro: converse_rtranclp_into_rtranclp)
qed

lemma drain:
  assumes "queue_inv s rs cs"
  shows "\<exists>s'. queue_step\<^sup>*\<^sup>* s s' \<and> added s' = added s \<and> producers s' = producers s \<and> root s' = None \<and> consumer s' = CIdle \<and>
    mset (delivered s') = mset (added s)"
proof -
  obtain s1 where s1: "queue_step\<^sup>*\<^sup>* s s1" "consumer s1 = CIdle" "added s1 = added s" "producers s1 = producers s" "queue_inv s1 rs []"
    using drain_to_walk [OF assms] by blast
  define s2 where "s2 = s1\<lparr>root := None, consumer := CWalk (root s1)\<rparr>"
  have 2: "queue_step s1 s2" unfolding s2_def using s1(2) by (rule swap)
  have "queue_inv s2 [] rs" using s1(2,5) by (auto simp: queue_inv_def s2_def)
  from drain_held [OF this] obtain s' where s': "queue_step\<^sup>*\<^sup>* s2 s'" "consumer s' = CIdle" "root s' = None"
    "added s' = added s" "producers s' = producers s" "queue_inv s' [] []" by (auto simp: s2_def s1(3,4))
  have "queue_step\<^sup>*\<^sup>* s s'" using s1(1) 2 s'(1) by (meson rtranclp.rtrancl_into_rtrancl rtranclp_trans)
  moreover have "mset (delivered s') = mset (added s)" using s'(2,4,6) by (simp add: queue_inv_def)
  ultimately show ?thesis using s' by blast
qed

section \<open>Producers finish\<close>

text \<open>The value a producer is adding.\<close>

fun adding :: "'v producer \<Rightarrow> 'v option" where
  "adding PIdle = None"
| "adding (PLoad v) = Some v"
| "adding (PGet v r) = Some v"
| "adding (PCas v r n) = Some v"

text \<open>A producer that runs alone finishes its call: a compare-and-swap that lost is followed by one that wins.\<close>

lemma load_finishes:
  assumes "producers s i = PLoad v"
  shows "\<exists>s'. queue_step\<^sup>*\<^sup>* s s' \<and> producers s' = (producers s)(i := PIdle) \<and> added s' = added s @ [v]"
proof -
  define s1 where "s1 = s\<lparr>producers := (producers s)(i := PGet v (root s))\<rparr>"
  define s2 where "s2 = s1\<lparr>fresh := Suc (fresh s1), nodes := (nodes s1)(fresh s1 := (v, root s)), producers := (producers s1)(i := PCas v (root s) (fresh s1))\<rparr>"
  define s3 where "s3 = s2\<lparr>root := Some (fresh s1), producers := (producers s2)(i := PIdle), added := added s2 @ [v]\<rparr>"
  have "queue_step s s1" unfolding s1_def by (rule load) (rule assms)
  moreover have "queue_step s1 s2" unfolding s2_def by (rule get_new) (simp_all add: s1_def)
  moreover have "queue_step s2 s3" unfolding s3_def by (rule cas_ok) (simp_all add: s1_def s2_def)
  moreover have "producers s3 = (producers s)(i := PIdle)" "added s3 = added s @ [v]" by (simp_all add: s1_def s2_def s3_def)
  ultimately show ?thesis by (meson converse_rtranclp_into_rtranclp rtranclp.rtrancl_refl)
qed

lemma cas_finishes:
  assumes "producers s i = PCas v r n"
  shows "\<exists>s'. queue_step\<^sup>*\<^sup>* s s' \<and> producers s' = (producers s)(i := PIdle) \<and> added s' = added s @ [v]"
proof (cases "root s = r")
  case True
  from cas_ok [OF assms True] show ?thesis
    by (intro exI [of _ "s\<lparr>root := Some n, producers := (producers s)(i := PIdle), added := added s @ [v]\<rparr>"]) auto
next
  case False
  define s1 where "s1 = s\<lparr>pool := insert n (pool s), producers := (producers s)(i := PLoad v)\<rparr>"
  have 1: "queue_step s s1" unfolding s1_def using assms False by (rule cas_fail)
  have "producers s1 i = PLoad v" by (simp add: s1_def)
  from load_finishes [OF this] show ?thesis using 1 by (auto simp: s1_def intro: converse_rtranclp_into_rtranclp)
qed

lemma producer_finishes:
  assumes "adding (producers s i) = Some v"
  shows "\<exists>s'. queue_step\<^sup>*\<^sup>* s s' \<and> producers s' = (producers s)(i := PIdle) \<and> added s' = added s @ [v]"
proof (cases "producers s i")
  case (PGet w r)
  define s1 where "s1 = s\<lparr>fresh := Suc (fresh s), nodes := (nodes s)(fresh s := (v, r)), producers := (producers s)(i := PCas v r (fresh s))\<rparr>"
  have 1: "queue_step s s1" unfolding s1_def by (rule get_new) (use PGet assms in simp_all)
  have "producers s1 i = PCas v r (fresh s)" by (simp add: s1_def)
  from cas_finishes [OF this] show ?thesis using 1 by (auto simp: s1_def intro: converse_rtranclp_into_rtranclp)
qed (use assms load_finishes cas_finishes in force)+

lemma producers_finish:
  assumes "distinct js" and "set js = {i. producers s i \<noteq> PIdle}"
  shows "\<exists>s'. queue_step\<^sup>*\<^sup>* s s' \<and> producers s' = (\<lambda>_. PIdle) \<and> added s' = added s @ map (\<lambda>i. the (adding (producers s i))) js"
  using assms
proof (induction js arbitrary: s)
  case Nil
  then have "producers s = (\<lambda>_. PIdle)" by (auto simp: fun_eq_iff)
  then show ?case by (intro exI [of _ s]) simp
next
  case (Cons i js)
  then have "producers s i \<noteq> PIdle" by auto
  then obtain v where v: "adding (producers s i) = Some v" by (cases "producers s i") auto
  from producer_finishes [OF v] obtain s1 where
    s1: "queue_step\<^sup>*\<^sup>* s s1" "producers s1 = (producers s)(i := PIdle)" "added s1 = added s @ [v]" by blast
  have "set js = {j. producers s1 j \<noteq> PIdle}" using Cons.prems s1(2) by auto
  from Cons.IH [OF _ this] Cons.prems(1) obtain s' where
    s': "queue_step\<^sup>*\<^sup>* s1 s'" "producers s' = (\<lambda>_. PIdle)" "added s' = added s1 @ map (\<lambda>j. the (adding (producers s1 j))) js" by auto
  have "map (\<lambda>j. the (adding (producers s1 j))) js = map (\<lambda>j. the (adding (producers s j))) js" using Cons.prems(1) s1(2) by auto
  then show ?case using s1 s' v by (intro exI [of _ s']) auto
qed

text \<open>Only finitely many producers are inside a call at any time.\<close>

lemma finite_producers: "queue_step\<^sup>*\<^sup>* (init_run z) s \<Longrightarrow> finite {i. producers s i \<noteq> PIdle}"
proof (induction rule: rtranclp_induct)
  case (step s s')
  have "\<exists>i. {j. producers s' j \<noteq> PIdle} \<subseteq> insert i {j. producers s j \<noteq> PIdle}" using step.hyps(2)
  proof cases
    case (call i v)
    then show ?thesis by (intro exI [of _ i]) auto
  qed (fastforce split: if_splits)+
  then show ?case using step.IH by (meson finite_insert finite_subset)
qed (simp add: init_run_def)

text \<open>
  C25: the queue never gets stuck. From every reachable state the consumer can run, while the
  producers stand still, to a state in which everything that had been added has been
  delivered; and all producers that are inside \<open>Add\<close> can finish their calls, after which
  everything, their values included, can be delivered: then no producer is inside a call, the
  list is empty, and what was delivered is what had been added together with the values
  these producers were adding.
\<close>

theorem queue_can_drain:
  assumes "queue_step\<^sup>*\<^sup>* (init_run z) s"
  shows "(\<exists>s'. queue_step\<^sup>*\<^sup>* s s' \<and> added s' = added s \<and> producers s' = producers s \<and> root s' = None \<and> consumer s' = CIdle \<and>
      mset (delivered s') = mset (added s)) \<and>
    (\<exists>s' js. queue_step\<^sup>*\<^sup>* s s' \<and> distinct js \<and> set js = {i. producers s i \<noteq> PIdle} \<and>
      producers s' = (\<lambda>_. PIdle) \<and> root s' = None \<and> consumer s' = CIdle \<and>
      mset (delivered s') = mset (added s) + mset (map (\<lambda>i. the (adding (producers s i))) js))"
proof
  show "\<exists>s'. queue_step\<^sup>*\<^sup>* s s' \<and> added s' = added s \<and> producers s' = producers s \<and> root s' = None \<and> consumer s' = CIdle \<and>
      mset (delivered s') = mset (added s)" using queue_inv_reachable [OF assms] drain by blast
  obtain js where js: "set js = {i. producers s i \<noteq> PIdle}" "distinct js" using finite_distinct_list [OF finite_producers [OF assms]] by blast
  from producers_finish [OF js(2,1)] obtain s1 where
    s1: "queue_step\<^sup>*\<^sup>* s s1" "producers s1 = (\<lambda>_. PIdle)" "added s1 = added s @ map (\<lambda>i. the (adding (producers s i))) js" by blast
  then have "queue_step\<^sup>*\<^sup>* (init_run z) s1" using assms by simp
  from queue_inv_reachable [OF this] drain obtain s' where s': "queue_step\<^sup>*\<^sup>* s1 s'" "producers s' = producers s1" "root s' = None"
    "consumer s' = CIdle" "mset (delivered s') = mset (added s1)" by blast
  then show "\<exists>s' js. queue_step\<^sup>*\<^sup>* s s' \<and> distinct js \<and> set js = {i. producers s i \<noteq> PIdle} \<and>
      producers s' = (\<lambda>_. PIdle) \<and> root s' = None \<and> consumer s' = CIdle \<and>
      mset (delivered s') = mset (added s) + mset (map (\<lambda>i. the (adding (producers s i))) js)"
    using s1 js by (intro exI [of _ s'] exI [of _ js]) (simp add: rtranclp_trans [of queue_step])
qed

text \<open>A producer that has begun to add another value.\<close>

definition sample_adding :: "nat queue_run" where
  "sample_adding = sample_run\<lparr>producers := (producers sample_run)(3 := PLoad 9)\<rparr>"

lemma sample_adding_reachable: "queue_step\<^sup>*\<^sup>* (init_run 0) sample_adding"
proof -
  have "queue_step sample_run sample_adding" unfolding sample_adding_def by (rule call) (simp add: sample_run_def)
  then show ?thesis using sample_reachable by simp
qed

theorem queue_can_drain_witness:
  "(\<exists>s'. queue_step\<^sup>*\<^sup>* sample_adding s' \<and> added s' = added sample_adding \<and> producers s' = producers sample_adding \<and> root s' = None \<and> consumer s' = CIdle \<and>
      mset (delivered s') = mset (added sample_adding)) \<and>
    (\<exists>s' js. queue_step\<^sup>*\<^sup>* sample_adding s' \<and> distinct js \<and> set js = {i. producers sample_adding i \<noteq> PIdle} \<and>
      producers s' = (\<lambda>_. PIdle) \<and> root s' = None \<and> consumer s' = CIdle \<and>
      mset (delivered s') = mset (added sample_adding) + mset (map (\<lambda>i. the (adding (producers sample_adding i))) js))"
  by (rule queue_can_drain [OF sample_adding_reachable])

section \<open>Calls without contention\<close>

text \<open>
  \<open>Add\<close> when no other goroutine touches the queue and the pool, which may drop its nodes at any time, has none to give.
  A call of \<open>Add\<close> is then the run of one producer without interruption (\<open>Add_run\<close>); the other runs are those above.
  \<open>SwapOutForEach\<close> is the list of the values it passes to its callback: the loop follows the next pointers until nil or
  until the callback returns an error, where \<open>ok n\<close> says that the call number \<open>n\<close> returns nil.
\<close>

definition Add :: "'v \<Rightarrow> 'v lock_queue \<Rightarrow> 'v lock_queue" where
  "Add v q = (let n = fresh q in q\<lparr>nodes := (nodes q)(n := (v, root q)), root := Some n, fresh := Suc n\<rparr>)"

lemma Add_run:
  assumes "producers s i = PIdle"
  shows "\<exists>s'. queue_step\<^sup>*\<^sup>* s s' \<and> lock_queue.truncate s' = Add v (lock_queue.truncate s) \<and> producers s' = producers s \<and> added s' = added s @ [v]"
proof -
  define s1 where "s1 = s\<lparr>producers := (producers s)(i := PLoad v)\<rparr>"
  define s2 where "s2 = s1\<lparr>producers := (producers s1)(i := PGet v (root s1))\<rparr>"
  define s3 where "s3 = s2\<lparr>fresh := Suc (fresh s2), nodes := (nodes s2)(fresh s2 := (v, root s1)), producers := (producers s2)(i := PCas v (root s1) (fresh s2))\<rparr>"
  define s4 where "s4 = s3\<lparr>root := Some (fresh s2), producers := (producers s3)(i := PIdle), added := added s3 @ [v]\<rparr>"
  note d = s1_def s2_def s3_def s4_def
  have "queue_step s s1" unfolding s1_def by (rule call) (rule assms)
  moreover have "queue_step s1 s2" unfolding s2_def by (rule load) (simp add: d)
  moreover have "queue_step s2 s3" unfolding s3_def by (rule get_new) (simp_all add: d)
  moreover have "queue_step s3 s4" unfolding s4_def by (rule cas_ok) (simp_all add: d)
  moreover have "lock_queue.truncate s4 = Add v (lock_queue.truncate s)" "producers s4 = producers s" "added s4 = added s @ [v]"
    using assms by (auto simp: d Add_def Let_def lock_queue.truncate_def fun_eq_iff)
  ultimately show ?thesis by (meson converse_rtranclp_into_rtranclp rtranclp.rtrancl_refl)
qed

partial_function (option) walk :: "(nat \<Rightarrow> bool) \<Rightarrow> nat \<Rightarrow> (nat \<Rightarrow> 'v \<times> nat option) \<Rightarrow> nat option \<Rightarrow> 'v list option" where
  "walk ok n h p = (case p of
       None \<Rightarrow> Some []
     | Some a \<Rightarrow>
         if \<not> ok n then Some [fst (h a)]
         else do { vs \<leftarrow> walk ok (Suc n) h (snd (h a)); Some (fst (h a) # vs) })"

definition SwapOutForEach :: "(nat \<Rightarrow> bool) \<Rightarrow> 'v lock_queue \<Rightarrow> ('v list \<times> 'v lock_queue) option" where
  "SwapOutForEach ok q = do { vs \<leftarrow> walk ok 0 (nodes q) (root q); Some (vs, q\<lparr>root := None\<rparr>) }"

definition well_formed :: "'v lock_queue \<Rightarrow> nat list \<Rightarrow> bool" where
  "well_formed q as \<longleftrightarrow> chain (nodes q) (root q) as \<and> (\<forall>a\<in>set as. a < fresh q)"

text \<open>What the poller relies on: a stack of values that is emptied as a whole.\<close>

locale wake_queue =
  fixes add :: "'v \<Rightarrow> 'q \<Rightarrow> 'q" and swap_out :: "'q \<Rightarrow> ('v list \<times> 'q) option"
    and holds :: "'q \<Rightarrow> 'v list \<Rightarrow> bool"
  assumes add_holds: "holds q vs \<Longrightarrow> holds (add v q) (v # vs)"
    and swap_out_all: "holds q vs \<Longrightarrow> \<exists>q'. swap_out q = Some (vs, q') \<and> holds q' []"
begin

lemma add_all: "holds q vs \<Longrightarrow> holds (fold add ws q) (rev ws @ vs)"
  by (induction ws arbitrary: q vs) (auto dest: add_holds)

lemma swap_out_after: "holds q [] \<Longrightarrow> \<exists>q'. swap_out (fold add ws q) = Some (rev ws, q') \<and> holds q' []"
  using swap_out_all [OF add_all [of q "[]" ws]] by simp

end

lemma walk_chain: "chain h p as \<Longrightarrow> walk (\<lambda>_. True) n h p = Some (map (fst \<circ> h) as)"
proof (induction as arbitrary: p n)
  case Nil
  then show ?case by (subst walk.simps) simp
next
  case (Cons a as)
  then have "p = Some a" "walk (\<lambda>_. True) (Suc n) h (snd (h a)) = Some (map (fst \<circ> h) as)" by auto
  then show ?case by (subst walk.simps) simp
qed

text \<open>A callback that fails ends the walk, and the values behind are lost.\<close>

lemma walk_fails:
  "chain h p (as @ a # cs) \<Longrightarrow> (\<And>k. n \<le> k \<Longrightarrow> k < n + length as \<Longrightarrow> ok k) \<Longrightarrow> \<not> ok (n + length as) \<Longrightarrow>
   walk ok n h p = Some (map (fst \<circ> h) (as @ [a]))"
proof (induction as arbitrary: p n)
  case Nil
  then show ?case by (subst walk.simps) simp
next
  case (Cons c as)
  then have "p = Some c" "ok n" "walk ok (Suc n) h (snd (h c)) = Some (map (fst \<circ> h) (as @ [a]))" by auto
  then show ?case by (subst walk.simps) simp
qed

interpretation lq: wake_queue Add "SwapOutForEach (\<lambda>_. True)" "\<lambda>q vs. \<exists>as. well_formed q as \<and> vs = map (fst \<circ> nodes q) as"
proof
  fix q :: "'v lock_queue" and vs :: "'v list" and v
  assume "\<exists>as. well_formed q as \<and> vs = map (fst \<circ> nodes q) as"
  then obtain as where as: "well_formed q as" "vs = map (fst \<circ> nodes q) as" by blast
  then have n: "fresh q \<notin> set as" by (auto simp: well_formed_def)
  have "well_formed (Add v q) (fresh q # as)"
    using as n by (auto simp: well_formed_def Add_def Let_def chain_upd less_Suc_eq)
  moreover have "v # vs = map (fst \<circ> nodes (Add v q)) (fresh q # as)"
    using as n by (simp add: Add_def Let_def map_fst_upd)
  ultimately show "\<exists>as. well_formed (Add v q) as \<and> v # vs = map (fst \<circ> nodes (Add v q)) as"
    by (intro exI [of _ "fresh q # as"] conjI)
next
  fix q :: "'v lock_queue" and vs :: "'v list"
  assume "\<exists>as. well_formed q as \<and> vs = map (fst \<circ> nodes q) as"
  then obtain as where as: "well_formed q as" "vs = map (fst \<circ> nodes q) as" by blast
  then have "SwapOutForEach (\<lambda>_. True) q = Some (vs, q\<lparr>root := None\<rparr>)"
    using walk_chain [of "nodes q" "root q" as 0] by (simp add: SwapOutForEach_def well_formed_def)
  then show "\<exists>q'. SwapOutForEach (\<lambda>_. True) q = Some (vs, q') \<and> (\<exists>as. well_formed q' as \<and> [] = map (fst \<circ> nodes q') as)"
    by (auto simp: well_formed_def)
qed

text \<open>
  Descriptors added to an empty queue are handed out by one \<open>SwapOutForEach\<close>, all of
  them, each once, the latest first; the loop ends and leaves the queue empty.
\<close>

lemma swap_out_latest_first:
  "\<exists>q'. SwapOutForEach (\<lambda>_. True) (fold Add vs (new_queue z)) = Some (rev vs, q') \<and> root q' = None"
proof -
  have "\<exists>as. well_formed (new_queue z) as \<and> [] = map (fst \<circ> nodes (new_queue z)) as"
    by (auto simp: well_formed_def new_queue_def)
  from lq.swap_out_after [OF this, of vs] obtain q' where
    "SwapOutForEach (\<lambda>_. True) (fold Add vs (new_queue z)) = Some (rev vs, q')" by blast
  then show ?thesis by (auto simp: SwapOutForEach_def split: bind_splits)
qed

end
