(* ===== verification/Poll.thy ===== *)
theory Poll
  imports Lock_Queue
begin

text \<open>
  internal/internal_linux.go: the poller over epoll. The kernel's interest list is a map
  from descriptors to whether writability is asked for too; \<open>epoll_ctl\<close> fails, and the
  program panics, when a descriptor is added twice or changed without being there. The
  event descriptor that wakes the poller is a counter.
\<close>

section \<open>State and operations\<close>

record poll =
  epfd :: int
  wfd :: int
  writesFd :: "int lock_queue"
  interest :: "int \<rightharpoonup> bool"
  wakes :: nat

abbreviation (input) READ :: u32 where "READ \<equiv> 1"
abbreviation (input) WRITE :: u32 where "WRITE \<equiv> 2"
abbreviation (input) EOF :: u32 where "EOF \<equiv> 4"

abbreviation (input) EPOLLIN :: u32 where "EPOLLIN \<equiv> 1"
abbreviation (input) EPOLLOUT :: u32 where "EPOLLOUT \<equiv> 4"

definition epoll_add :: "int \<Rightarrow> bool \<Rightarrow> poll \<Rightarrow> poll option" where
  "epoll_add fd out p = (if interest p fd = None then Some (p\<lparr>interest := (interest p)(fd \<mapsto> out)\<rparr>) else None)"

definition epoll_mod :: "int \<Rightarrow> bool \<Rightarrow> poll \<Rightarrow> poll option" where
  "epoll_mod fd out p = (if interest p fd = None then None else Some (p\<lparr>interest := (interest p)(fd \<mapsto> out)\<rparr>))"

definition AddReadWrite :: "int \<Rightarrow> poll \<Rightarrow> poll option" where
  "AddReadWrite fd p = epoll_add fd True p"

definition AddRead :: "int \<Rightarrow> poll \<Rightarrow> poll option" where
  "AddRead fd p = epoll_add fd False p"

definition ModRead :: "int \<Rightarrow> poll \<Rightarrow> poll option" where
  "ModRead fd p = epoll_mod fd False p"

definition ModReadWrite :: "int \<Rightarrow> poll \<Rightarrow> poll option" where
  "ModReadWrite fd p = epoll_mod fd True p"

text \<open>\<open>OpenPoll\<close> with the descriptors the kernel returned, \<open>None\<close> where it failed.\<close>

definition OpenPoll :: "int option \<Rightarrow> int option \<Rightarrow> poll option" where
  "OpenPoll p w = do {
     p \<leftarrow> p;
     w \<leftarrow> w;
     AddRead w \<lparr>epfd = p, wfd = w, writesFd = new_queue 0, interest = Map.empty, wakes = 0\<rparr> }"

definition Trigger :: "int \<Rightarrow> poll \<Rightarrow> poll" where
  "Trigger fd p = p\<lparr>writesFd := Add fd (writesFd p), wakes := wakes p + 1\<rparr>"

text \<open>Closing a descriptor takes it off the interest list.\<close>

definition forget :: "int \<Rightarrow> poll \<Rightarrow> poll" where
  "forget fd p = p\<lparr>interest := (interest p)(fd := None)\<rparr>"

text \<open>
  One turn of the loop of \<open>Wait\<close>. The events \<open>EpollWait\<close> returned are an argument: \<open>None\<close> is an error, and no events the
  interruption by a signal or the end of its 100 ms. \<open>ok n\<close> says that the call number \<open>n\<close> of \<open>iter\<close> in this turn returns nil.
  The result has the calls of \<open>iter\<close> in their order, the poller after the queue was swapped out and
  the wake-up counter was read, and whether the loop goes on.
\<close>

definition flag_of :: "u32 \<Rightarrow> u32" where
  "flag_of ev = (if ev AND EPOLLOUT > 0 then WRITE else 0) OR (if ev AND EPOLLIN > 0 then READ else 0)"

fun event_calls :: "(nat \<Rightarrow> bool) \<Rightarrow> nat \<Rightarrow> int \<Rightarrow> (int \<times> u32) list \<Rightarrow> (int \<times> u32) list \<times> bool \<times> bool" where
  "event_calls ok n w [] = ([], False, True)"
| "event_calls ok n w ((fd, ev) # evs) =
     (if fd \<noteq> w then
        if \<not> ok n then ([(fd, flag_of ev)], False, False)
        else case event_calls ok (Suc n) w evs of (calls, woken, on) \<Rightarrow> ((fd, flag_of ev) # calls, woken, on)
      else case event_calls ok n w evs of (calls, woken, on) \<Rightarrow> (calls, True, on))"

definition Wait_turn :: "(nat \<Rightarrow> bool) \<Rightarrow> (int \<times> u32) list option \<Rightarrow> poll \<Rightarrow> ((int \<times> u32) list \<times> poll \<times> bool) option" where
  "Wait_turn ok evs p =
     (case evs of
        None \<Rightarrow> Some ([], p, False)
      | Some evs \<Rightarrow> do {
          (fds, q) \<leftarrow> SwapOutForEach ok (writesFd p);
          let p = p\<lparr>writesFd := q\<rparr>;
          let swapped = map (\<lambda>fd. (fd, WRITE)) fds;
          (if fds \<noteq> [] \<and> \<not> ok (length fds - 1) then Some (swapped, p, False)
           else case event_calls ok (length fds) (wfd p) evs of (calls, woken, on) \<Rightarrow>
             Some (swapped @ calls, p\<lparr>wakes := (if woken then 0 else wakes p)\<rparr>, on)) })"

text \<open>
  The callbacks of both callers, \<open>Serve\<close> and \<open>NewClient\<close>, return nil on every path, so that in their loops every call is
  made; a failure of \<open>EpollWait\<close> ends them.
\<close>

abbreviation Wait_nil :: "(int \<times> u32) list \<Rightarrow> poll \<Rightarrow> ((int \<times> u32) list \<times> poll \<times> bool) option" where
  "Wait_nil evs p \<equiv> Wait_turn (\<lambda>_. True) (Some evs) p"

section \<open>Results of system calls\<close>

text \<open>The errors of system calls and of SSL; an SSL error carries its own type.\<close>

datatype sys_err = EAGAIN | Errno int | SslErr bytes

text \<open>
  The result of \<open>syscall.Write\<close> or \<open>SSL.Write\<close>: the bytes taken, or a count and an error.
\<close>

datatype write_result = Wrote nat | WriteErr int sys_err

text \<open>
  The result of \<open>syscall.Read\<close> or \<open>SSL.Read\<close>: the bytes read (none at the end), or an error. An error comes with
  the count \<open>-1\<close>.
\<close>

datatype read_result = ReadN bytes | ReadErr sys_err

section \<open>Flushes are not lost\<close>

abbreviation pending :: "poll \<Rightarrow> int list \<Rightarrow> bool" where
  "pending p fds \<equiv> \<exists>as. well_formed (writesFd p) as \<and> fds = map (fst \<circ> nodes (writesFd p)) as"

lemma pending_Trigger: "pending p fds \<Longrightarrow> pending (Trigger fd p) (fd # fds)"
  using lq.add_holds [of "writesFd p" fds fd] by (simp add: Trigger_def)

lemma pending_open: "OpenPoll a b = Some p \<Longrightarrow> pending p []"
  by (auto simp: OpenPoll_def AddRead_def epoll_add_def well_formed_def new_queue_def split: bind_splits if_splits)

lemma event_calls_nil:
  "event_calls (\<lambda>_. True) n w evs = (map (\<lambda>(fd, ev). (fd, flag_of ev)) (filter (\<lambda>(fd, ev). fd \<noteq> w) evs), w \<in> fst ` set evs, True)"
  by (induction evs arbitrary: n) auto

lemma Wait_turn_pending:
  assumes "pending p fds"
  shows "\<exists>p'. Wait_nil evs p = Some (map (\<lambda>fd. (fd, WRITE)) fds @ map (\<lambda>(fd, ev). (fd, flag_of ev)) (filter (\<lambda>(fd, ev). fd \<noteq> wfd p) evs), p', True) \<and>
    pending p' [] \<and> interest p' = interest p \<and> wfd p' = wfd p"
proof -
  from lq.swap_out_all [OF assms] obtain q where q: "SwapOutForEach (\<lambda>_. True) (writesFd p) = Some (fds, q)"
    "\<exists>as. well_formed q as \<and> [] = map (fst \<circ> nodes q) as" by blast
  let ?p = "p\<lparr>writesFd := q, wakes := (if wfd p \<in> fst ` set evs then 0 else wakes p)\<rparr>"
  have "pending ?p []" using q(2) by simp
  then show ?thesis using q(1) by (intro exI [of _ ?p]) (simp add: Wait_turn_def event_calls_nil)
qed

lemma Wait_turn_kept:
  assumes "Wait_nil evs p = Some (calls, p', on)" and "\<exists>fds. pending p fds"
  shows "pending p' []" and "interest p' = interest p" and "wfd p' = wfd p"
proof -
  from assms(2) obtain fds where "pending p fds" by blast
  from Wait_turn_pending [OF this, of evs] assms(1) show "pending p' []" "interest p' = interest p" "wfd p' = wfd p" by auto
qed

text \<open>
  The states of a poller in use, with the descriptors triggered since its last turn, the latest first: it is
  opened, descriptors are added, changed, triggered and closed in any order, and the loop takes its turns.
\<close>

inductive polling :: "int \<Rightarrow> int list \<Rightarrow> poll \<Rightarrow> bool" for w where
  polling_open: "OpenPoll ep (Some w) = Some p \<Longrightarrow> polling w [] p"
| polling_add: "polling w fds p \<Longrightarrow> AddRead fd p = Some p' \<or> AddReadWrite fd p = Some p' \<Longrightarrow> polling w fds p'"
| polling_mod: "polling w fds p \<Longrightarrow> ModRead fd p = Some p' \<or> ModReadWrite fd p = Some p' \<Longrightarrow> polling w fds p'"
| polling_trigger: "polling w fds p \<Longrightarrow> polling w (fd # fds) (Trigger fd p)"
| polling_close: "polling w fds p \<Longrightarrow> polling w fds (forget fd p)"
| polling_turn: "polling w fds p \<Longrightarrow> Wait_nil evs p = Some (calls, p', True) \<Longrightarrow> polling w [] p'"

lemma polling_pending: "polling w fds p \<Longrightarrow> pending p fds \<and> wfd p = w"
proof (induction rule: polling.induct)
  case (polling_open ep p)
  then show ?case using pending_open [OF polling_open] by (auto simp: OpenPoll_def AddRead_def epoll_add_def split: bind_splits if_splits)
next
  case (polling_add fds p fd p')
  then show ?case by (auto simp: AddRead_def AddReadWrite_def epoll_add_def split: if_splits)
next
  case (polling_mod fds p fd p')
  then show ?case by (auto simp: ModRead_def ModReadWrite_def epoll_mod_def split: if_splits)
next
  case (polling_trigger fds p fd)
  from pending_Trigger [OF conjunct1 [OF polling_trigger.IH], of fd] show ?case
    by (rule conjI) (use polling_trigger.IH in \<open>simp add: Trigger_def\<close>)
next
  case (polling_close fds p fd)
  then show ?case by (simp add: forget_def)
next
  case (polling_turn fds p evs calls p')
  then show ?case using Wait_turn_kept [OF polling_turn(2)] by auto
qed

text \<open>
  C26: in every state of a poller, whatever was done with it before, every descriptor triggered
  since the last turn of the loop is passed to the callback as writable in the next turn,
  as often as it was triggered and before the events of the kernel, which follow in their
  order without the one of the wake-up descriptor; the turn ends, the loop goes on, and
  nothing is left over for the turn after it.
\<close>

theorem triggers_delivered:
  assumes "polling w fds p"
  shows "\<exists>p'. Wait_nil evs p = Some (map (\<lambda>fd. (fd, WRITE)) fds @ map (\<lambda>(fd, ev). (fd, flag_of ev)) (filter (\<lambda>(fd, ev). fd \<noteq> w) evs), p', True) \<and>
    polling w [] p'"
proof -
  have p: "pending p fds" "wfd p = w" using polling_pending [OF assms] by simp_all
  from Wait_turn_pending [OF p(1), of evs] obtain p' where
    "Wait_nil evs p = Some (map (\<lambda>fd. (fd, WRITE)) fds @ map (\<lambda>(fd, ev). (fd, flag_of ev)) (filter (\<lambda>(fd, ev). fd \<noteq> w) evs), p', True)"
    by (auto simp: p(2))
  then show ?thesis using polling_turn [OF assms] by blast
qed

text \<open>A poller after a turn, with two descriptors triggered since.\<close>

definition sample_polling :: poll where
  "sample_polling = fold Trigger [7, 8] (fst (snd (the (Wait_nil [(9, EPOLLIN)] (Trigger 6 (the (OpenPoll (Some 3) (Some 4))))))))"

lemma sample_polling_reached: "polling 4 [8, 7] sample_polling"
proof -
  have "OpenPoll (Some 3) (Some 4) = Some (the (OpenPoll (Some 3) (Some 4)))" by (simp add: OpenPoll_def AddRead_def epoll_add_def)
  from polling_trigger [OF polling_open [OF this], of 6] have p: "polling 4 [6] (Trigger 6 (the (OpenPoll (Some 3) (Some 4))))" .
  from Wait_turn_pending [of _ "[6]" "[(9, EPOLLIN)]"] polling_pending [OF p] polling_turn [OF p]
  have "polling 4 [] (fst (snd (the (Wait_nil [(9, EPOLLIN)] (Trigger 6 (the (OpenPoll (Some 3) (Some 4))))))))" by fastforce
  from polling_trigger [OF polling_trigger [OF this, of 7], of 8] show ?thesis by (simp add: sample_polling_def)
qed

theorem triggers_delivered_witness:
  "\<exists>p'. Wait_nil [(9, EPOLLIN), (4, EPOLLIN)] sample_polling =
      Some (map (\<lambda>fd. (fd, WRITE)) [8, 7] @ map (\<lambda>(fd, ev). (fd, flag_of ev)) (filter (\<lambda>(fd, ev). fd \<noteq> 4) [(9, EPOLLIN), (4, EPOLLIN)]), p', True) \<and>
    polling 4 [] p'"
  by (rule triggers_delivered [OF sample_polling_reached])

end
