(* ===== verification/Listener.thy ===== *)
theory Listener
  imports HTTP_Response Poll
begin

text \<open>
  server.go, and \<open>onWebsocket\<close> of ws.go: the event loop of the server. A connection is a
  cell of a store; the loop keeps the open ones in a map from descriptors and in a doubly
  linked list, the most recently used first, between two sentinel cells. Everything that
  leaves the process (system calls and callbacks) is recorded as a list of effects; what
  the system calls return is an argument of the step that makes them.
\<close>

section \<open>State\<close>

text \<open>The error argument of \<open>closeConnWithError\<close>: nil, any error, or an \<open>Error\<close> with a type.\<close>

datatype close_cause = NoErr | Plain | Typed bytes

datatype effect =
    FxWrite int bytes
  | FxShortWrite
  | FxClose int
  | FxSslClose int
  | FxError bytes
  | FxFdCount int
  | FxWSClose int bytes
  | FxWSData int bytes
  | FxHTTP int http
  | FxRedis int redis

record listener =
  ln_fd :: int
  ln_poll :: poll
  fdcount :: u32
  fdconns :: "int \<rightharpoonup> nat"
  nexts :: "nat \<Rightarrow> nat"
  prevs :: "nat \<Rightarrow> nat"
  store :: "nat \<Rightarrow> conn"
  free_addr :: nat
  fx :: "effect list"
  ln_ssl :: bool
  Timeout :: int

abbreviation (input) fdhead :: nat where "fdhead \<equiv> 0"
abbreviation (input) fdtail :: nat where "fdtail \<equiv> 1"

text \<open>
  What the code calls but does not contain: \<open>url.Parse\<close>, the limit \<open>RequestMaxBytes\<close>, the
  handlers of the application, and whether closing a descriptor succeeds. A handler gets
  the request and the connection and returns the connection, the descriptors it triggered
  and, for requests, whether to go on. \<open>None\<close> is a panic of the handler; an \<open>OnWSData\<close> that is not
  installed, which \<open>Serve\<close> does not check, is a handler that always panics. \<open>OnWSClose\<close> is taken to
  be installed by an application that upgrades connections; a call of it is an effect.
\<close>

record env =
  e_url :: url_parser
  e_max :: int
  e_http :: "http \<Rightarrow> conn \<Rightarrow> (conn \<times> int list \<times> bool) option"
  e_redis :: "redis \<Rightarrow> conn \<Rightarrow> (conn \<times> int list \<times> bool) option"
  e_wsdata :: "bytes \<Rightarrow> conn \<Rightarrow> (conn \<times> int list) option"
  e_close_ok :: "int \<Rightarrow> bool"

text \<open>
  Of a connection, the exported methods a handler can call change the output buffer and
  the WebSocket only.
\<close>

definition api :: "conn \<Rightarrow> conn \<Rightarrow> conn" where
  "api c c' = c\<lparr>conn_out := conn_out c', conn_ws := conn_ws c'\<rparr>"

definition emit :: "effect \<Rightarrow> listener \<Rightarrow> listener" where
  "emit e ln = ln\<lparr>fx := fx ln @ [e]\<rparr>"

definition put :: "nat \<Rightarrow> conn \<Rightarrow> listener \<Rightarrow> listener" where
  "put a c ln = ln\<lparr>store := (store ln)(a := c)\<rparr>"

definition triggers :: "int list \<Rightarrow> listener \<Rightarrow> listener" where
  "triggers fds ln = ln\<lparr>ln_poll := fold Trigger fds (ln_poll ln)\<rparr>"

definition on_poll :: "(poll \<Rightarrow> poll option) \<Rightarrow> listener \<Rightarrow> listener option" where
  "on_poll f ln = do { p \<leftarrow> f (ln_poll ln); Some (ln\<lparr>ln_poll := p\<rparr>) }"

section \<open>The connection list\<close>

text \<open>\<open>Listen\<close> sets up the two sentinels; \<open>Serve\<close> opens the poller and the map.\<close>

definition Listen :: "int \<Rightarrow> bool \<Rightarrow> int \<Rightarrow> poll \<Rightarrow> listener" where
  "Listen fd ssl timeout p = \<lparr>ln_fd = fd, ln_poll = p, fdcount = 0, fdconns = Map.empty,
     nexts = (\<lambda>_. 0)(fdhead := fdtail), prevs = (\<lambda>_. 0)(fdtail := fdhead), store = (\<lambda>_. new_conn 0 False),
     free_addr = 2, fx = [], ln_ssl = ssl, Timeout = timeout\<rparr>"

definition Serve_start :: "int \<Rightarrow> bool \<Rightarrow> int \<Rightarrow> int option \<Rightarrow> int option \<Rightarrow> listener option" where
  "Serve_start fd ssl timeout ep w = do {
     p \<leftarrow> OpenPoll ep w;
     on_poll (AddRead fd) (Listen fd ssl timeout p) }"

definition detach :: "nat \<Rightarrow> listener \<Rightarrow> listener" where
  "detach a ln =
     (let ln = ln\<lparr>nexts := (nexts ln)(prevs ln a := nexts ln a)\<rparr>
      in ln\<lparr>prevs := (prevs ln)(nexts ln a := prevs ln a)\<rparr>)"

definition attachConn :: "nat \<Rightarrow> int \<Rightarrow> listener \<Rightarrow> listener" where
  "attachConn a now ln =
     (let ln = ln\<lparr>prevs := (prevs ln)(nexts ln fdhead := a)\<rparr>;
          ln = ln\<lparr>nexts := (nexts ln)(a := nexts ln fdhead)\<rparr>;
          ln = ln\<lparr>nexts := (nexts ln)(fdhead := a)\<rparr>;
          ln = ln\<lparr>prevs := (prevs ln)(a := fdhead)\<rparr>
      in put a ((store ln a)\<lparr>conn_ts := now\<rparr>) ln)"

text \<open>The statements of \<open>closeConnWithError\<close>, in their order.\<close>

definition call_ws_close :: "conn \<Rightarrow> listener \<Rightarrow> listener" where
  "call_ws_close c ln =
     (case conn_ws c of None \<Rightarrow> ln | Some ws \<Rightarrow> emit (FxWSClose (conn_fd c) (closingData ws)) ln)"

definition count_fd :: "u32 \<Rightarrow> listener \<Rightarrow> listener" where
  "count_fd d ln = emit (FxFdCount (sint (fdcount ln + d))) (ln\<lparr>fdcount := fdcount ln + d\<rparr>)"

definition sys_close :: "env \<Rightarrow> int \<Rightarrow> listener \<Rightarrow> listener" where
  "sys_close E fd ln =
     (let ln = emit (FxClose fd) (ln\<lparr>ln_poll := forget fd (ln_poll ln)\<rparr>)
      in if e_close_ok E fd then ln else emit (FxError (bs ''close'')) ln)"

definition report :: "bytes \<Rightarrow> close_cause \<Rightarrow> listener \<Rightarrow> listener" where
  "report errType err ln =
     (case err of NoErr \<Rightarrow> ln | Plain \<Rightarrow> emit (FxError errType) ln | Typed t \<Rightarrow> emit (FxError t) ln)"

definition closeConnWithError :: "env \<Rightarrow> nat \<Rightarrow> bytes \<Rightarrow> close_cause \<Rightarrow> listener \<Rightarrow> listener" where
  "closeConnWithError E a errType err ln =
     (let c = store ln a; fd = conn_fd c in
      if conn_closed c then ln
      else
        let ln = put a (c\<lparr>conn_closed := True\<rparr>) ln;
            ln = call_ws_close c ln;
            ln = count_fd (- 1) ln;
            ln = detach a ln;
            ln = ln\<lparr>fdconns := (fdconns ln)(fd := None)\<rparr>;
            ln = sys_close E fd ln;
            ln = report errType err ln
        in if conn_ssl c then emit (FxSslClose fd) ln else ln)"

section \<open>Writing\<close>

definition cause_of :: "sys_err \<Rightarrow> close_cause" where
  "cause_of e = (case e of SslErr t \<Rightarrow> Typed t | _ \<Rightarrow> Plain)"

definition out_tail :: "int \<Rightarrow> conn \<Rightarrow> conn option" where
  "out_tail n c = do {
     rest \<leftarrow> gslice (conn_out c) n (int (length (conn_out c)));
     Some (c\<lparr>conn_out := rest\<rparr>) }"

definition sent :: "nat \<Rightarrow> int \<Rightarrow> conn \<Rightarrow> listener \<Rightarrow> listener" where
  "sent a n c ln = (if n > 0 then emit (FxWrite (conn_fd c) (take (nat n) (conn_out c))) ln else ln)"

definition writeConn :: "env \<Rightarrow> nat \<Rightarrow> write_result \<Rightarrow> listener \<Rightarrow> (listener \<times> int) option" where
  "writeConn E a wr ln = do {
     c \<leftarrow> spinLock (store ln a);
     let fd = conn_fd c;
     (if conn_out c = [] then do {
        ln \<leftarrow> on_poll (ModRead fd) (put a (spinUnlock c) ln);
        Some (ln, 1) }
      else case wr of
        WriteErr n e \<Rightarrow>
          if e = EAGAIN then do {
            let ln = sent a n c ln;
            c \<leftarrow> (if n > 0 then out_tail n c else Some c);
            ln \<leftarrow> on_poll (ModReadWrite fd) (put a (spinUnlock c) ln);
            Some (ln, - n) }
          else Some (closeConnWithError E a (bs ''write'') (cause_of e) (put a (spinUnlock c) ln), 1)
      | Wrote n \<Rightarrow>
          let ln = sent a (int n) c ln in
          if n = length (conn_out c) then do {
            let c = spinUnlock (c\<lparr>conn_out := []\<rparr>);
            let ln = put a c ln;
            ln \<leftarrow> (if (case conn_ws c of None \<Rightarrow> False | Some ws \<Rightarrow> ws_closed ws)
                  then Some (closeConnWithError E a [] NoErr ln)
                  else on_poll (ModRead fd) ln);
            Some (ln, 1) }
          else do {
            c \<leftarrow> out_tail (int n) c;
            ln \<leftarrow> on_poll (ModReadWrite fd) (put a (spinUnlock c) ln);
            Some (emit FxShortWrite ln, - int n) }) }"


section \<open>WebSocket messages\<close>

definition callWSData :: "env \<Rightarrow> nat \<Rightarrow> bytes \<Rightarrow> listener \<Rightarrow> listener option" where
  "callWSData E a d ln = do {
     (c', trs) \<leftarrow> e_wsdata E d (store ln a);
     let ln = emit (FxWSData (conn_fd (store ln a)) d) ln;
     Some (triggers trs (put a (api (store ln a) c') ln)) }"

definition set_ws :: "(websocket \<Rightarrow> websocket) \<Rightarrow> conn \<Rightarrow> conn" where
  "set_ws f c = c\<lparr>conn_ws := map_option f (conn_ws c)\<rparr>"

definition onWebsocket :: "env \<Rightarrow> nat \<Rightarrow> ws_frame \<Rightarrow> listener \<Rightarrow> (listener \<times> bool) option" where
  "onWebsocket E a req ln = do {
     let c = store ln a;
     ws \<leftarrow> conn_ws c;
     (if opcode req = 0 then
        (case contFrame ws of
           None \<Rightarrow> Some (closeConnWithError E a (bs ''websocket'') Plain ln, False)
         | Some cont \<Rightarrow>
             let cont = cont @ frame_data req;
                 ln = put a (set_ws (\<lambda>ws. ws\<lparr>contFrame := Some cont\<rparr>) c) ln
             in if int (length cont) > e_max E
                then Some (closeConnWithError E a (bs ''websocket'') Plain ln, False)
                else if fin req then do {
                  ln \<leftarrow> callWSData E a cont ln;
                  Some (put a (set_ws (\<lambda>ws. ws\<lparr>contFrame := None\<rparr>) (store ln a)) ln, True) }
                else Some (ln, True))
      else if opcode req = 8 then
        Some (closeConnWithError E a [] NoErr
                (put a (set_ws (\<lambda>ws. ws\<lparr>closingData := frame_data req\<rparr>) c) ln), False)
      else if opcode req = 9 then do {
        (c', trs) \<leftarrow> ws_write 10 (frame_data req) c;
        Some (triggers trs (put a c' ln), True) }
      else if opcode req = 10 then Some (ln, True)
      else if fin req then do { ln \<leftarrow> callWSData E a (frame_data req) ln; Some (ln, True) }
      else Some (put a (set_ws (\<lambda>ws. ws\<lparr>contFrame := Some (frame_data req)\<rparr>) c) ln, True)) }"

section \<open>Reading\<close>

text \<open>The statements after a request has been served.\<close>

definition finish_read :: "env \<Rightarrow> nat \<Rightarrow> write_result \<Rightarrow> listener \<Rightarrow> listener option" where
  "finish_read E a wr ln =
     (let ln = put a ((store ln a)\<lparr>conn_srs := new_srs\<rparr>) ln in
      if conn_out (store ln a) \<noteq> [] then map_option fst (writeConn E a wr ln) else Some ln)"

text \<open>
  The handlers of complete requests: the input is cut behind the request, the handler is
  called, and the connection is closed when it says so.
\<close>

definition serve_http :: "env \<Rightarrow> nat \<Rightarrow> http \<Rightarrow> write_result \<Rightarrow> listener \<Rightarrow> listener option" where
  "serve_http E a req wr ln = do {
     (c, _) \<leftarrow> truncateInputBuffer (uint (bodyLen req) + uint (hdrLen req)) (store ln a);
     (c', trs, more) \<leftarrow> e_http E req c;
     let ln = triggers trs (put a (api c c') (emit (FxHTTP (conn_fd c) req) ln));
     (if \<not> more then Some (closeConnWithError E a [] NoErr ln) else finish_read E a wr ln) }"

definition serve_redis :: "env \<Rightarrow> nat \<Rightarrow> redis \<Rightarrow> write_result \<Rightarrow> listener \<Rightarrow> listener option" where
  "serve_redis E a req wr ln = do {
     (c, _) \<leftarrow> truncateInputBuffer (uint (redis_read req)) (store ln a);
     (c', trs, more) \<leftarrow> e_redis E req c;
     let ln = triggers trs (put a (api c c') (emit (FxRedis (conn_fd c) req) ln));
     (if \<not> more then Some (closeConnWithError E a [] NoErr ln) else finish_read E a wr ln) }"

text \<open>The parser of the connection on the whole input buffer, under the lock.\<close>

definition run_parser :: "env \<Rightarrow> conn \<Rightarrow> (conn \<times> go_error option) option" where
  "run_parser E c =
     (case conn_ws c of
        Some ws \<Rightarrow>
          if ws_closed ws then Some (c, Some ErrWaitMore)
          else do {
            (ws', inp, e) \<leftarrow> ws_parse ws (conn_in c);
            Some (c\<lparr>conn_ws := Some ws', conn_in := inp\<rparr>, e) }
      | None \<Rightarrow> do {
          (s, inp, e) \<leftarrow> process (e_url E) (e_max E) (conn_srs c) (conn_in c);
          Some (c\<lparr>conn_srs := s, conn_in := inp\<rparr>, e) })"

text \<open>
  The part of \<open>readConn\<close> from the label \<open>PARSE_NEXT\<close> on; a WebSocket goes back to it, with
  no new input, while frames remain in the buffer.
\<close>

partial_function (option) parse_next :: "env \<Rightarrow> nat \<Rightarrow> bytes \<Rightarrow> write_result \<Rightarrow> listener \<Rightarrow> listener option" where
  "parse_next E a buf wr ln = do {
     c \<leftarrow> spinLock (store ln a);
     let c = c\<lparr>conn_in := conn_in c @ buf\<rparr>;
     (if int (length (conn_in c)) > e_max E
      then Some (closeConnWithError E a (bs ''oversize'') Plain (put a c ln))
      else do {
        (c, err) \<leftarrow> run_parser E c;
        let ln = put a (spinUnlock c) ln;
        (if err = Some ErrWaitMore then Some ln
         else if err \<noteq> None then Some (closeConnWithError E a (bs ''read'') Plain ln)
         else case conn_ws c of
           Some ws \<Rightarrow> do {
             let req = parsedFrame ws;
             (c, remain) \<leftarrow> truncateInputBuffer (frame_len req) (store ln a);
             (ln, more) \<leftarrow> onWebsocket E a req (put a c ln);
             (if \<not> more then Some ln
              else if remain > 0 then parse_next E a [] wr ln
              else finish_read E a wr ln) }
         | None \<Rightarrow>
             (case srs_http (conn_srs c) of
                Some req \<Rightarrow> serve_http E a req wr ln
              | None \<Rightarrow> do { req \<leftarrow> srs_redis (conn_srs c); serve_redis E a req wr ln })) }) }"

definition readConn :: "env \<Rightarrow> nat \<Rightarrow> read_result \<Rightarrow> write_result \<Rightarrow> listener \<Rightarrow> listener option" where
  "readConn E a rd wr ln =
     (case rd of
        ReadErr e \<Rightarrow>
          if e = EAGAIN then on_poll (ModRead (conn_fd (store ln a))) ln
          else Some (closeConnWithError E a (bs ''read'') (cause_of e) ln)
      | ReadN d \<Rightarrow>
          if d = [] then Some (closeConnWithError E a [] NoErr ln)
          else parse_next E a d wr ln)"

section \<open>Events\<close>

text \<open>
  What the system calls of one event return: \<open>Accept\<close> (with whether \<open>SetNonblock\<close> and the
  creation of the SSL object succeed), the writes, the read, and the clock.
\<close>

datatype accept_result = AcceptErr sys_err | Accepted int bool bool

record io =
  io_accept :: accept_result
  io_write :: write_result
  io_read :: read_result
  io_reply :: write_result
  io_now :: int
  io_sweep :: int

text \<open>The flag says whether the callback goes on to the timeouts.\<close>

definition accept_conn :: "io \<Rightarrow> listener \<Rightarrow> (listener \<times> bool) option" where
  "accept_conn i ln =
     (case io_accept i of
        AcceptErr e \<Rightarrow> if e = EAGAIN then Some (ln, False) else Some (emit (FxError (bs ''accept'')) ln, False)
      | Accepted nfd nonblock ssl_ok \<Rightarrow>
          if \<not> nonblock then Some (emit (FxError (bs ''setnonblock'')) ln, False)
          else if ln_ssl ln \<and> \<not> ssl_ok then Some (emit (FxError (bs ''ssl'')) ln, False)
          else do {
            let a = free_addr ln;
            let ln = put a (new_conn nfd (ln_ssl ln)) (ln\<lparr>free_addr := Suc a\<rparr>);
            ln \<leftarrow> on_poll (AddRead nfd) ln;
            let ln = attachConn a (io_now i) (ln\<lparr>fdconns := (fdconns ln)(nfd \<mapsto> a)\<rparr>);
            Some (count_fd 1 ln, True) })"

definition conn_event :: "env \<Rightarrow> nat \<Rightarrow> u32 \<Rightarrow> io \<Rightarrow> listener \<Rightarrow> listener option" where
  "conn_event E a ev i ln = do {
     let ln = attachConn a (io_now i) (detach a ln);
     ln \<leftarrow> (if ev AND WRITE > 0 then map_option fst (writeConn E a (io_write i) ln) else Some ln);
     ln \<leftarrow> (if ev AND READ > 0 then readConn E a (io_read i) (io_reply i) ln else Some ln);
     (if ev AND EOF > 0 then Some (closeConnWithError E a (bs ''eof'') NoErr ln) else Some ln) }"

text \<open>The loop over the tail of the list that closes connections that have timed out.\<close>

partial_function (option) sweep :: "env \<Rightarrow> int \<Rightarrow> nat \<Rightarrow> listener \<Rightarrow> listener option" where
  "sweep E now a ln =
     (if a = fdhead then Some ln
      else if conn_ts (store ln a) < now - Timeout ln
      then (let ln = closeConnWithError E a (bs ''timeout'') Plain ln in sweep E now (prevs ln a) ln)
      else Some ln)"

definition handle :: "env \<Rightarrow> int \<Rightarrow> u32 \<Rightarrow> io \<Rightarrow> listener \<Rightarrow> listener option" where
  "handle E fd ev i ln =
     (if fd = ln_fd ln then do {
        (ln, go) \<leftarrow> accept_conn i ln;
        (if go \<and> Timeout ln > 0 then sweep E (io_sweep i) (prevs ln fdtail) ln else Some ln) }
      else case fdconns ln fd of
        None \<Rightarrow> Some ln
      | Some a \<Rightarrow> do {
          ln \<leftarrow> conn_event E a ev i ln;
          (if Timeout ln > 0 then sweep E (io_sweep i) (prevs ln fdtail) ln else Some ln) })"

text \<open>The handlers \<open>Serve\<close> installs when the application has none.\<close>

definition default_OnRedis :: "redis \<Rightarrow> conn \<Rightarrow> (conn \<times> int list \<times> bool) option" where
  "default_OnRedis r c = do { c \<leftarrow> WriteError (bs ''OnRedis handler not found'') c; Some (c, [], True) }"

definition default_OnHTTP :: "http \<Rightarrow> conn \<Rightarrow> (conn \<times> int list \<times> bool) option" where
  "default_OnHTTP r c = do { c \<leftarrow> http_Text 500 (bs ''OnHTTP handler not found'') c; Some (c, [], True) }"

text \<open>The deferred calls of \<open>Serve\<close>: every connection of the map is closed, in any order.\<close>

definition Serve_stop :: "env \<Rightarrow> nat list \<Rightarrow> listener \<Rightarrow> listener" where
  "Serve_stop E as ln = fold (\<lambda>a. closeConnWithError E a [] NoErr) as ln"

end
