(* ===== verification/Listener_Inv.thy ===== *)
theory Listener_Inv
  imports Listener
begin

text \<open>
  The invariant of the event loop's state (server.go, \<open>detach\<close> of conn.go): the doubly linked
  list of connections, the descriptor map, the counter and the poller agree. Detaching,
  attaching and closing a connection are operations on the list the pointers represent.
\<close>

section \<open>Doubly linked lists\<close>

fun linked :: "(nat \<Rightarrow> nat) \<Rightarrow> (nat \<Rightarrow> nat) \<Rightarrow> nat list \<Rightarrow> bool" where
  "linked nx pv (a # b # xs) \<longleftrightarrow> nx a = b \<and> pv b = a \<and> linked nx pv (b # xs)"
| "linked nx pv xs \<longleftrightarrow> True"

lemma linked_append: "linked nx pv (xs @ y # ys) \<longleftrightarrow> linked nx pv (xs @ [y]) \<and> linked nx pv (y # ys)"
proof (induction xs)
  case (Cons x xs)
  then show ?case by (cases xs) auto
qed simp

lemma linked_nx_upd: "p \<notin> set (butlast xs) \<Longrightarrow> linked (nx(p := v)) pv xs = linked nx pv xs"
  by (induction nx pv xs rule: linked.induct) (auto split: if_splits)

lemma linked_pv_upd: "p \<notin> set (tl xs) \<Longrightarrow> linked nx (pv(p := v)) xs = linked nx pv xs"
  by (induction nx pv xs rule: linked.induct) auto

lemma linked_upd:
  assumes "p \<notin> set (butlast xs)" and "q \<notin> set (tl xs)"
  shows "linked (nx(p := v)) (pv(q := w)) xs = linked nx pv xs"
  using assms by (simp add: linked_nx_upd linked_pv_upd)

lemma linked_detach:
  assumes "linked nx pv (xs @ p # a # n # ys)" and "distinct (xs @ p # a # n # ys)"
  shows "linked (nx(p := n)) (pv(n := p)) (xs @ p # n # ys)" and "nx a = n" and "pv a = p"
proof -
  have l: "linked nx pv (xs @ [p])" "nx p = a" "pv a = p" "nx a = n" "pv n = a" "linked nx pv (n # ys)"
    using assms(1) linked_append [of nx pv xs p "a # n # ys"] by auto
  then show "nx a = n" "pv a = p" by simp_all
  have "n \<notin> set (tl (xs @ [p]))" using assms(2) by (cases xs) auto
  then have "linked (nx(p := n)) (pv(n := p)) (xs @ [p])"
    using l(1) assms(2) by (subst linked_upd) simp_all
  moreover have "linked (nx(p := n)) (pv(n := p)) (n # ys)"
    using l(6) assms(2) by (subst linked_upd) (auto dest: in_set_butlastD split: if_splits)
  ultimately show "linked (nx(p := n)) (pv(n := p)) (xs @ p # n # ys)"
    using linked_append [of _ _ xs p "n # ys"] by simp
qed

lemma linked_attach:
  assumes "linked nx pv (h # n # ys)" and "distinct (h # n # ys)" and "a \<notin> set (h # n # ys)"
  shows "linked (nx(a := n, h := a)) (pv(n := a, a := h)) (h # a # n # ys)"
proof -
  have "a \<notin> set (butlast (n # ys))" "h \<notin> set (butlast (n # ys))"
    using assms(2,3) by (auto dest: in_set_butlastD split: if_splits)
  then have "linked (nx(a := n, h := a)) (pv(n := a, a := h)) (n # ys)"
    using assms by (simp add: linked_upd)
  then show ?thesis using assms by auto
qed

section \<open>The invariant\<close>

text \<open>
  \<open>as\<close> are the open connections, the most recently used first: the linked list runs
  through them in this order, the map of descriptors knows exactly them, the counter is
  their number, each is open, unlocked (those of \<open>K\<close> excepted) and on the poller's
  interest list. The listening descriptor is no connection and is polled, and the queue of
  triggers is well formed.
\<close>

definition ln_inv :: "nat set \<Rightarrow> listener \<Rightarrow> nat list \<Rightarrow> bool" where
  "ln_inv K ln as \<longleftrightarrow>
     linked (nexts ln) (prevs ln) (fdhead # as @ [fdtail]) \<and> distinct (fdhead # as @ [fdtail]) \<and>
     (\<forall>a\<in>set as. a < free_addr ln \<and> \<not> conn_closed (store ln a) \<and> (a \<in> K \<or> \<not> lock (store ln a)) \<and>
        fdconns ln (conn_fd (store ln a)) = Some a \<and> interest (ln_poll ln) (conn_fd (store ln a)) \<noteq> None) \<and>
     (\<forall>fd a. fdconns ln fd = Some a \<longrightarrow> a \<in> set as \<and> conn_fd (store ln a) = fd) \<and>
     fdcount ln = of_nat (length as) \<and> 2 \<le> free_addr ln \<and>
     fdconns ln (ln_fd ln) = None \<and> interest (ln_poll ln) (ln_fd ln) \<noteq> None \<and>
     (\<exists>fds. pending (ln_poll ln) fds)"

abbreviation ln_ok :: "listener \<Rightarrow> nat list \<Rightarrow> bool" where
  "ln_ok \<equiv> ln_inv {}"

lemma ln_invD:
  assumes "ln_inv K ln as"
  shows "linked (nexts ln) (prevs ln) (fdhead # as @ [fdtail])" and "distinct (fdhead # as @ [fdtail])"
    and "a \<in> set as \<Longrightarrow> a < free_addr ln" and "a \<in> set as \<Longrightarrow> \<not> conn_closed (store ln a)"
    and "a \<in> set as \<Longrightarrow> a \<in> K \<or> \<not> lock (store ln a)"
    and "a \<in> set as \<Longrightarrow> fdconns ln (conn_fd (store ln a)) = Some a"
    and "a \<in> set as \<Longrightarrow> interest (ln_poll ln) (conn_fd (store ln a)) \<noteq> None"
    and "fdconns ln fd = Some a \<Longrightarrow> a \<in> set as" and "fdconns ln fd = Some a \<Longrightarrow> conn_fd (store ln a) = fd"
    and "fdcount ln = of_nat (length as)" and "2 \<le> free_addr ln"
    and "fdconns ln (ln_fd ln) = None" and "interest (ln_poll ln) (ln_fd ln) \<noteq> None"
    and "\<exists>fds. pending (ln_poll ln) fds"
  using assms unfolding ln_inv_def by (elim conjE; simp)+

lemma ln_invI:
  assumes "linked (nexts ln) (prevs ln) (fdhead # as @ [fdtail])" and "distinct (fdhead # as @ [fdtail])"
    and "\<And>a. a \<in> set as \<Longrightarrow> a < free_addr ln" and "\<And>a. a \<in> set as \<Longrightarrow> \<not> conn_closed (store ln a)"
    and "\<And>a. a \<in> set as \<Longrightarrow> a \<in> K \<or> \<not> lock (store ln a)"
    and "\<And>a. a \<in> set as \<Longrightarrow> fdconns ln (conn_fd (store ln a)) = Some a"
    and "\<And>a. a \<in> set as \<Longrightarrow> interest (ln_poll ln) (conn_fd (store ln a)) \<noteq> None"
    and "\<And>fd a. fdconns ln fd = Some a \<Longrightarrow> a \<in> set as" and "\<And>fd a. fdconns ln fd = Some a \<Longrightarrow> conn_fd (store ln a) = fd"
    and "fdcount ln = of_nat (length as)" and "2 \<le> free_addr ln"
    and "fdconns ln (ln_fd ln) = None" and "interest (ln_poll ln) (ln_fd ln) \<noteq> None"
    and "\<exists>fds. pending (ln_poll ln) fds"
  shows "ln_inv K ln as"
  unfolding ln_inv_def using assms by (intro conjI ballI allI impI) auto

lemma split_middle:
  assumes "a \<in> set as"
  obtains xs p n ys where "h # as @ [t] = xs @ p # a # n # ys" and "h # remove1 a as @ [t] = xs @ p # n # ys"
proof -
  obtain us vs where as: "as = us @ a # vs" "a \<notin> set us" using split_list_first [OF assms] by blast
  have "\<exists>xs p. h # us = xs @ [p]" by (cases "h # us" rule: rev_cases) auto
  then obtain xs p where p: "h # us = xs @ [p]" by blast
  obtain n ys where n: "vs @ [t] = n # ys" by (cases "vs @ [t]") auto
  have "h # as @ [t] = xs @ p # a # n # ys" using as p n by (metis append_Cons append_assoc append_Nil)
  moreover have "h # remove1 a as @ [t] = xs @ p # n # ys"
    using as p n by (simp add: remove1_append)
  ultimately show thesis by (rule that)
qed

lemma detach_linked:
  assumes "linked (nexts ln) (prevs ln) (fdhead # as @ [fdtail])" and "distinct (fdhead # as @ [fdtail])" and "a \<in> set as"
  shows "linked (nexts (detach a ln)) (prevs (detach a ln)) (fdhead # remove1 a as @ [fdtail])"
proof -
  obtain xs p n ys where e: "fdhead # as @ [fdtail] = xs @ p # a # n # ys"
    "fdhead # remove1 a as @ [fdtail] = xs @ p # n # ys" using split_middle [OF assms(3)] .
  note l = linked_detach [OF assms(1,2) [unfolded e(1)]]
  have "p \<noteq> a" using assms(2) unfolding e(1) by auto
  with l show ?thesis unfolding e(2) by (simp add: detach_def Let_def)
qed

lemma attach_linked:
  assumes "linked (nexts ln) (prevs ln) (fdhead # as @ [fdtail])" and "distinct (fdhead # as @ [fdtail])"
    and "a \<notin> set (fdhead # as @ [fdtail])"
  shows "linked (nexts (attachConn a now ln)) (prevs (attachConn a now ln)) (fdhead # (a # as) @ [fdtail])"
proof -
  obtain n ys where n: "as @ [fdtail] = n # ys" by (cases "as @ [fdtail]") auto
  then have nx: "nexts ln fdhead = n" using assms(1) by simp
  have "linked ((nexts ln)(a := n, fdhead := a)) ((prevs ln)(n := a, a := fdhead)) (fdhead # a # n # ys)"
    using assms unfolding n by (rule linked_attach)
  then show ?thesis using nx n by (simp add: attachConn_def Let_def put_def)
qed


section \<open>Steps that leave the list alone\<close>

text \<open>The descriptors a list of effects closes.\<close>

definition closes :: "effect list \<Rightarrow> int list" where
  "closes fs = concat (map (\<lambda>e. case e of FxClose fd \<Rightarrow> [fd] | _ \<Rightarrow> []) fs)"

lemma closes_simps [simp]:
  "closes [] = []" "closes (fs @ gs) = closes fs @ closes gs" "closes (FxClose fd # fs) = fd # closes fs"
  "closes (FxError t # fs) = closes fs" "closes (FxFdCount n # fs) = closes fs" "closes (FxWSClose fd d # fs) = closes fs"
  "closes (FxSslClose fd # fs) = closes fs"
  "closes (FxWrite fd d # fs) = closes fs" "closes (FxShortWrite # fs) = closes fs" "closes (FxWSData fd d # fs) = closes fs"
  "closes (FxHTTP fd h # fs) = closes fs" "closes (FxRedis fd r # fs) = closes fs"
  by (simp_all add: closes_def)

text \<open>
  \<open>quiet a ln ln'\<close>: nothing but the buffers and the WebSocket of the connection \<open>a\<close>, the
  poller's flags and triggers, and the effects have changed, and no descriptor was closed.
\<close>

definition quiet :: "nat \<Rightarrow> listener \<Rightarrow> listener \<Rightarrow> bool" where
  "quiet a ln ln' \<longleftrightarrow> (\<exists>c p f.
     ln' = ln\<lparr>store := (store ln)(a := c), ln_poll := p, fx := fx ln @ f\<rparr> \<and> closes f = [] \<and>
     conn_fd c = conn_fd (store ln a) \<and> conn_closed c = conn_closed (store ln a) \<and> conn_ts c = conn_ts (store ln a) \<and>
     (\<forall>fd. interest p fd = None \<longleftrightarrow> interest (ln_poll ln) fd = None) \<and>
     ((\<exists>fds. pending (ln_poll ln) fds) \<longrightarrow> (\<exists>fds. pending p fds)))"

lemma quiet_refl [simp]: "quiet a ln ln"
  unfolding quiet_def by (intro exI [of _ "store ln a"] exI [of _ "ln_poll ln"] exI [of _ "[]"]) simp

lemma quiet_trans [trans]:
  assumes "quiet a l1 l2" and "quiet a l2 l3"
  shows "quiet a l1 l3"
proof -
  obtain c p f where 2: "l2 = l1\<lparr>store := (store l1)(a := c), ln_poll := p, fx := fx l1 @ f\<rparr>"
    "conn_fd c = conn_fd (store l1 a)" "conn_closed c = conn_closed (store l1 a)" "conn_ts c = conn_ts (store l1 a)"
    "\<forall>fd. interest p fd = None \<longleftrightarrow> interest (ln_poll l1) fd = None"
    "(\<exists>fds. pending (ln_poll l1) fds) \<longrightarrow> (\<exists>fds. pending p fds)" "closes f = []" using assms(1) unfolding quiet_def by blast
  obtain c' p' f' where 3: "l3 = l2\<lparr>store := (store l2)(a := c'), ln_poll := p', fx := fx l2 @ f'\<rparr>"
    "conn_fd c' = conn_fd (store l2 a)" "conn_closed c' = conn_closed (store l2 a)" "conn_ts c' = conn_ts (store l2 a)"
    "\<forall>fd. interest p' fd = None \<longleftrightarrow> interest (ln_poll l2) fd = None"
    "(\<exists>fds. pending (ln_poll l2) fds) \<longrightarrow> (\<exists>fds. pending p' fds)" "closes f' = []" using assms(2) unfolding quiet_def by blast
  have "l3 = l1\<lparr>store := (store l1)(a := c'), ln_poll := p', fx := fx l1 @ f @ f'\<rparr>" "closes (f @ f') = []" using 2(1,7) 3(1,7) by simp_all
  moreover have "conn_fd c' = conn_fd (store l1 a)" "conn_closed c' = conn_closed (store l1 a)" "conn_ts c' = conn_ts (store l1 a)"
    using 2 3 by simp_all
  moreover have "\<forall>fd. interest p' fd = None \<longleftrightarrow> interest (ln_poll l1) fd = None" using 2(1,5) 3(5) by simp
  moreover have "(\<exists>fds. pending (ln_poll l1) fds) \<longrightarrow> (\<exists>fds. pending p' fds)" using 2(1,6) 3(6) by simp
  ultimately show ?thesis unfolding quiet_def by blast
qed

lemma quiet_put:
  "conn_fd c = conn_fd (store ln a) \<Longrightarrow> conn_closed c = conn_closed (store ln a) \<Longrightarrow> conn_ts c = conn_ts (store ln a) \<Longrightarrow>
   quiet a ln (put a c ln)"
  unfolding quiet_def put_def by (intro exI [of _ c] exI [of _ "ln_poll ln"] exI [of _ "[]"]) simp

lemma quiet_emit: "closes [e] = [] \<Longrightarrow> quiet a ln (emit e ln)"
  unfolding quiet_def emit_def by (intro exI [of _ "store ln a"] exI [of _ "ln_poll ln"] exI [of _ "[e]"]) simp

lemma fold_Trigger:
  "interest (fold Trigger fds p) = interest p"
  "\<exists>gs. pending p gs \<Longrightarrow> \<exists>gs. pending (fold Trigger fds p) gs"
proof (induction fds arbitrary: p)
  case (Cons fd fds)
  { case 1 then show ?case by (simp add: Cons.IH) (simp add: Trigger_def) }
  { case 2
    then have "\<exists>gs. pending (Trigger fd p) gs" using pending_Trigger by blast
    from Cons.IH(2) [OF this] show ?case by simp }
qed auto

lemma quiet_triggers: "quiet a ln (triggers fds ln)"
  unfolding quiet_def triggers_def
  by (intro exI [of _ "store ln a"] exI [of _ "fold Trigger fds (ln_poll ln)"] exI [of _ "[]"])
    (simp add: fold_Trigger)

lemma quiet_mod:
  assumes "on_poll (epoll_mod fd out) ln = Some ln'"
  shows "quiet a ln ln'" and "store ln' = store ln"
proof -
  have e: "interest (ln_poll ln) fd \<noteq> None" "ln' = ln\<lparr>ln_poll := (ln_poll ln)\<lparr>interest := (interest (ln_poll ln))(fd \<mapsto> out)\<rparr>\<rparr>"
    using assms by (auto simp: on_poll_def epoll_mod_def split: bind_splits if_splits)
  then show "store ln' = store ln" by simp
  show "quiet a ln ln'" unfolding quiet_def
    using e by (intro exI [of _ "store ln a"] exI [of _ "(ln_poll ln)\<lparr>interest := (interest (ln_poll ln))(fd \<mapsto> out)\<rparr>"] exI [of _ "[]"])
      auto
qed

lemma quiet_inv:
  assumes "ln_inv K ln as" and "quiet a ln ln'"
  shows "ln_inv (insert a K) ln' as"
proof -
  obtain c p f where q: "ln' = ln\<lparr>store := (store ln)(a := c), ln_poll := p, fx := fx ln @ f\<rparr>"
    "conn_fd c = conn_fd (store ln a)" "conn_closed c = conn_closed (store ln a)"
    "\<forall>fd. interest p fd = None \<longleftrightarrow> interest (ln_poll ln) fd = None"
    "(\<exists>fds. pending (ln_poll ln) fds) \<longrightarrow> (\<exists>fds. pending p fds)" using assms(2) unfolding quiet_def by blast
  then show ?thesis using assms(1) unfolding ln_inv_def q(1) by (simp add: q(2-4))
qed

lemma ln_inv_unlocked: "ln_inv (insert a K) ln as \<Longrightarrow> a \<notin> set as \<or> \<not> lock (store ln a) \<Longrightarrow> ln_inv K ln as"
  by (auto simp: ln_inv_def)

lemma ln_inv_mono: "ln_inv K ln as \<Longrightarrow> K \<subseteq> L \<Longrightarrow> ln_inv L ln as"
  by (auto simp: ln_inv_def)


section \<open>Closing a connection\<close>

lemma close_closed: "conn_closed (store ln a) \<Longrightarrow> closeConnWithError E a t e ln = ln"
  by (simp add: closeConnWithError_def Let_def)

lemma detach_simps [simp]:
  "store (detach a ln) = store ln" "fdconns (detach a ln) = fdconns ln" "ln_poll (detach a ln) = ln_poll ln"
  "fdcount (detach a ln) = fdcount ln" "free_addr (detach a ln) = free_addr ln" "ln_fd (detach a ln) = ln_fd ln"
  "fx (detach a ln) = fx ln" "Timeout (detach a ln) = Timeout ln" "ln_ssl (detach a ln) = ln_ssl ln"
  by (simp_all add: detach_def Let_def)

lemma emit_simps [simp]:
  "store (emit e ln) = store ln" "fdconns (emit e ln) = fdconns ln" "ln_poll (emit e ln) = ln_poll ln"
  "fdcount (emit e ln) = fdcount ln" "free_addr (emit e ln) = free_addr ln" "ln_fd (emit e ln) = ln_fd ln"
  "fx (emit e ln) = fx ln @ [e]" "Timeout (emit e ln) = Timeout ln" "ln_ssl (emit e ln) = ln_ssl ln"
  "nexts (emit e ln) = nexts ln" "prevs (emit e ln) = prevs ln"
  by (simp_all add: emit_def)

lemma put_simps [simp]:
  "store (put a c ln) = (store ln)(a := c)" "fdconns (put a c ln) = fdconns ln" "ln_poll (put a c ln) = ln_poll ln"
  "fdcount (put a c ln) = fdcount ln" "free_addr (put a c ln) = free_addr ln" "ln_fd (put a c ln) = ln_fd ln"
  "fx (put a c ln) = fx ln" "Timeout (put a c ln) = Timeout ln" "ln_ssl (put a c ln) = ln_ssl ln"
  "nexts (put a c ln) = nexts ln" "prevs (put a c ln) = prevs ln"
  by (simp_all add: put_def)

lemma close_step_fx:
  "\<exists>f. call_ws_close c ln = ln\<lparr>fx := fx ln @ f\<rparr> \<and> closes f = []"
  "\<exists>f. count_fd d ln = ln\<lparr>fdcount := fdcount ln + d, fx := fx ln @ f\<rparr> \<and> closes f = []"
  "\<exists>f. sys_close E fd ln = ln\<lparr>ln_poll := forget fd (ln_poll ln), fx := fx ln @ f\<rparr> \<and> closes f = [fd]"
  "\<exists>f. report t e ln = ln\<lparr>fx := fx ln @ f\<rparr> \<and> closes f = []"
proof -
  have n: "ln = ln\<lparr>fx := fx ln @ []\<rparr>" by simp
  show "\<exists>f. call_ws_close c ln = ln\<lparr>fx := fx ln @ f\<rparr> \<and> closes f = []"
    using n by (cases "conn_ws c") (auto simp: call_ws_close_def emit_def intro: exI [of _ "[]"] exI [of _ "[FxWSClose fd d]" for fd d])
  show "\<exists>f. count_fd d ln = ln\<lparr>fdcount := fdcount ln + d, fx := fx ln @ f\<rparr> \<and> closes f = []"
    by (auto simp: count_fd_def emit_def intro: exI [of _ "[FxFdCount x]" for x])
  show "\<exists>f. sys_close E fd ln = ln\<lparr>ln_poll := forget fd (ln_poll ln), fx := fx ln @ f\<rparr> \<and> closes f = [fd]"
    by (cases "e_close_ok E fd") (auto simp: sys_close_def emit_def intro: exI [of _ "[FxClose fd]"] exI [of _ "[FxClose fd, FxError x]" for x])
  show "\<exists>f. report t e ln = ln\<lparr>fx := fx ln @ f\<rparr> \<and> closes f = []"
    using n by (cases e) (auto simp: report_def emit_def intro: exI [of _ "[]"] exI [of _ "[FxError x]" for x])
qed

lemma close_shape:
  assumes "\<not> conn_closed (store ln a)"
  shows "\<exists>f. closeConnWithError E a t e ln = ln\<lparr>
     store := (store ln)(a := (store ln a)\<lparr>conn_closed := True\<rparr>), fdcount := fdcount ln - 1,
     nexts := nexts (detach a ln), prevs := prevs (detach a ln),
     fdconns := (fdconns ln)(conn_fd (store ln a) := None),
     ln_poll := forget (conn_fd (store ln a)) (ln_poll ln), fx := fx ln @ f\<rparr>
   \<and> closes f = [conn_fd (store ln a)]"
proof -
  define c where "c = store ln a"
  define l1 where "l1 = put a (c\<lparr>conn_closed := True\<rparr>) ln"
  obtain f2 where f2: "call_ws_close c l1 = l1\<lparr>fx := fx l1 @ f2\<rparr>" "closes f2 = []" using close_step_fx(1) by blast
  define l2 where "l2 = call_ws_close c l1"
  obtain f3 where f3: "count_fd (- 1) l2 = l2\<lparr>fdcount := fdcount l2 + (- 1), fx := fx l2 @ f3\<rparr>" "closes f3 = []"
    using close_step_fx(2) by blast
  define l3 where "l3 = detach a (count_fd (- 1) l2)"
  define l4 where "l4 = l3\<lparr>fdconns := (fdconns l3)(conn_fd c := None)\<rparr>"
  obtain f5 where f5: "sys_close E (conn_fd c) l4 = l4\<lparr>ln_poll := forget (conn_fd c) (ln_poll l4), fx := fx l4 @ f5\<rparr>"
    "closes f5 = [conn_fd c]" using close_step_fx(3) by blast
  define l5 where "l5 = sys_close E (conn_fd c) l4"
  obtain f6 where f6: "report t e l5 = l5\<lparr>fx := fx l5 @ f6\<rparr>" "closes f6 = []" using close_step_fx(4) by blast
  define f7 where "f7 = (if conn_ssl c then [FxSslClose (conn_fd c)] else [])"
  have c: "closeConnWithError E a t e ln = (if conn_ssl c then emit (FxSslClose (conn_fd c)) (report t e l5) else report t e l5)"
    using assms unfolding closeConnWithError_def Let_def l5_def l4_def l3_def l2_def l1_def c_def by simp
  have "closeConnWithError E a t e ln = l5\<lparr>fx := fx l5 @ f6 @ f7\<rparr>" unfolding c f6(1) f7_def by (simp add: emit_def)
  also have "l5 = l4\<lparr>ln_poll := forget (conn_fd c) (ln_poll l4), fx := fx l4 @ f5\<rparr>" unfolding l5_def f5(1) ..
  also have "l4 = ln\<lparr>store := (store ln)(a := c\<lparr>conn_closed := True\<rparr>), fdcount := fdcount ln - 1,
     nexts := nexts (detach a ln), prevs := prevs (detach a ln),
     fdconns := (fdconns ln)(conn_fd c := None), fx := fx ln @ f2 @ f3\<rparr>"
    unfolding l4_def l3_def unfolding f3(1) unfolding l2_def unfolding f2(1) unfolding l1_def by (simp add: put_def detach_def Let_def)
  finally show ?thesis unfolding c_def [symmetric]
    using f2(2) f3(2) f5(2) f6(2) by (intro exI [of _ "f2 @ f3 @ f5 @ f6 @ f7"]) (simp add: f7_def)
qed

lemma close_inv:
  assumes "ln_inv (insert a K) ln as" and "a \<in> set as"
  shows "ln_inv K (closeConnWithError E a t e ln) (remove1 a as)"
proof -
  note I = ln_invD [OF assms(1)]
  obtain f where c: "closeConnWithError E a t e ln = ln\<lparr>
     store := (store ln)(a := (store ln a)\<lparr>conn_closed := True\<rparr>), fdcount := fdcount ln - 1,
     nexts := nexts (detach a ln), prevs := prevs (detach a ln),
     fdconns := (fdconns ln)(conn_fd (store ln a) := None),
     ln_poll := forget (conn_fd (store ln a)) (ln_poll ln), fx := fx ln @ f\<rparr>"
    using close_shape [OF I(4) [OF assms(2)]] by blast
  have s: "b \<in> set (remove1 a as) \<longleftrightarrow> b \<in> set as \<and> b \<noteq> a" for b using I(2) by (simp add: set_remove1_eq)
  have other: "conn_fd (store ln b) \<noteq> conn_fd (store ln a)" if "b \<in> set (remove1 a as)" for b
    using I(6) [OF assms(2)] I(6) [of b] that by (auto simp: s)
  have other': "b \<noteq> a" if "fdconns ln fd = Some b" "fd \<noteq> conn_fd (store ln a)" for b fd
    using I(9) [OF that(1)] that(2) by auto
  have lf: "conn_fd (store ln a) \<noteq> ln_fd ln" using I(6) [OF assms(2)] I(12) by auto
  show ?thesis
  proof (rule ln_invI)
    show "linked (nexts (closeConnWithError E a t e ln)) (prevs (closeConnWithError E a t e ln)) (fdhead # remove1 a as @ [fdtail])"
      unfolding c using detach_linked [OF I(1,2) assms(2)] by simp
    show "distinct (fdhead # remove1 a as @ [fdtail])" using I(2) by (auto simp: distinct_remove1 s)
    show "fdcount (closeConnWithError E a t e ln) = of_nat (length (remove1 a as))"
      unfolding c using assms(2) I(10) length_pos_if_in_set [OF assms(2)]
      by (simp add: length_remove1 of_nat_diff Suc_leI)
    show "\<exists>fds. pending (ln_poll (closeConnWithError E a t e ln)) fds" unfolding c using I(14) by (simp add: forget_def)
    show "\<And>fd b. fdconns (closeConnWithError E a t e ln) fd = Some b \<Longrightarrow> b \<in> set (remove1 a as)"
      unfolding c using I(8) other' by (auto simp: s split: if_splits)
    show "\<And>fd b. fdconns (closeConnWithError E a t e ln) fd = Some b \<Longrightarrow> conn_fd (store (closeConnWithError E a t e ln) b) = fd"
      unfolding c using I(9) other' by (auto split: if_splits)
  next
    fix b assume b: "b \<in> set (remove1 a as)"
    then have "b \<in> set as" "b \<noteq> a" by (auto simp: s)
    then show "b < free_addr (closeConnWithError E a t e ln)" "\<not> conn_closed (store (closeConnWithError E a t e ln) b)"
      "b \<in> K \<or> \<not> lock (store (closeConnWithError E a t e ln) b)"
      "fdconns (closeConnWithError E a t e ln) (conn_fd (store (closeConnWithError E a t e ln) b)) = Some b"
      "interest (ln_poll (closeConnWithError E a t e ln)) (conn_fd (store (closeConnWithError E a t e ln) b)) \<noteq> None"
      unfolding c using I(3) [of b] I(4) [of b] I(5) [of b] I(6) [of b] I(7) [of b] other [OF b] by (simp_all add: forget_def)
  qed (use I(11,12,13) lf in \<open>simp_all add: c forget_def\<close>)
qed

end
