(* ===== verification/Listener_Runs.thy ===== *)
theory Listener_Runs
  imports Listener_Inv
begin

text \<open>
  Serving one connection (\<open>readConn\<close>, \<open>writeConn\<close> and \<open>onWebsocket\<close>) touches that connection
  only: it changes its buffers, or closes it, and leaves its lock free.
\<close>

section \<open>What the handlers of one connection do\<close>

text \<open>
  While the loop serves the connection \<open>a\<close>, the state changes by quiet steps and by closing
  \<open>a\<close> only.
\<close>

inductive runs :: "env \<Rightarrow> nat \<Rightarrow> listener \<Rightarrow> listener \<Rightarrow> bool" for E a where
  runs_quiet: "quiet a ln ln' \<Longrightarrow> runs E a ln ln'"
| runs_close: "runs E a ln (closeConnWithError E a t e ln)"
| runs_trans: "runs E a l1 l2 \<Longrightarrow> runs E a l2 l3 \<Longrightarrow> runs E a l1 l3"

definition idle :: "nat \<Rightarrow> listener \<Rightarrow> bool" where
  "idle a ln \<longleftrightarrow> conn_closed (store ln a) \<or> \<not> lock (store ln a)"

lemma close_sets_closed [simp]: "conn_closed (store (closeConnWithError E a t e ln) a)"
  using close_closed close_shape [of ln a E t e] by (cases "conn_closed (store ln a)") auto

lemma idle_close [simp]: "idle a (closeConnWithError E a t e ln)"
  by (simp add: idle_def)

lemma runs_inv:
  assumes "runs E a ln ln'" and "ln_inv (insert a K) ln as" and "a \<in> set as \<or> conn_closed (store ln a)"
  shows "ln_inv (insert a K) ln' (if conn_closed (store ln' a) then remove1 a as else as)"
    and "a \<in> set as \<or> conn_closed (store ln' a)"
proof -
  have "ln_inv (insert a K) ln' (if conn_closed (store ln' a) then remove1 a as else as) \<and> (conn_closed (store ln a) \<longrightarrow> conn_closed (store ln' a))"
    using assms
  proof (induction arbitrary: as rule: runs.induct)
    case (runs_quiet ln ln')
    have c: "conn_closed (store ln' a) = conn_closed (store ln a)" using runs_quiet(1) by (auto simp: quiet_def)
    have "a \<notin> set as" if "conn_closed (store ln a)" using ln_invD(4) [OF runs_quiet(2)] that by blast
    then show ?case using quiet_inv [OF runs_quiet(2,1)] by (simp add: c remove1_idem)
  next
    case (runs_close ln t e)
    show ?case
    proof (cases "a \<in> set as")
      case True
      have "ln_inv (insert a (insert a K)) ln as" using runs_close by simp
      from close_inv [OF this True] show ?thesis by simp
    next
      case False
      then show ?thesis using runs_close by (simp add: close_closed remove1_idem)
    qed
  next
    case (runs_trans l1 l2 l3)
    note 2 = runs_trans.IH(1) [OF runs_trans.prems]
    show ?case
    proof (cases "conn_closed (store l2 a)")
      case True
      then have "ln_inv (insert a K) l2 (remove1 a as)" using 2 by simp
      from runs_trans.IH(2) [OF this] True
      have "ln_inv (insert a K) l3 (remove1 a (remove1 a as))" "conn_closed (store l3 a)" by auto
      moreover have "a \<notin> set (remove1 a as)" using ln_invD(2) [OF runs_trans.prems(1)] by (simp add: set_remove1_eq)
      ultimately show ?thesis by (simp add: remove1_idem)
    next
      case False
      then show ?thesis using 2 runs_trans.IH(2) [of as] runs_trans.prems(2) by auto
    qed
  qed
  then show "ln_inv (insert a K) ln' (if conn_closed (store ln' a) then remove1 a as else as)"
    and "a \<in> set as \<or> conn_closed (store ln' a)" using assms(3) by auto
qed

lemma runs_ok:
  assumes "runs E a ln ln'" and "ln_inv (insert a K) ln as" and "a \<in> set as \<or> conn_closed (store ln a)" and "idle a ln'"
  shows "ln_inv K ln' (if conn_closed (store ln' a) then remove1 a as else as)"
proof -
  note i = runs_inv(1) [OF assms(1-3)]
  show ?thesis using assms(4) ln_invD(4) [OF i, of a] by (intro ln_inv_unlocked [OF i]) (auto simp: idle_def split: if_splits)
qed

lemma runs_keeps:
  assumes "runs E a ln ln'"
  shows "conn_ts (store ln' b) = conn_ts (store ln b) \<and> conn_fd (store ln' b) = conn_fd (store ln b) \<and>
    free_addr ln' = free_addr ln \<and> ln_fd ln' = ln_fd ln \<and> Timeout ln' = Timeout ln \<and> ln_ssl ln' = ln_ssl ln \<and>
    (b \<noteq> a \<longrightarrow> store ln' b = store ln b)"
  using assms
proof (induction rule: runs.induct)
  case (runs_quiet ln ln')
  then show ?case by (auto simp: quiet_def)
next
  case (runs_close ln t e)
  show ?case
  proof (cases "conn_closed (store ln a)")
    case True
    then show ?thesis by (simp add: close_closed)
  next
    case False
    then obtain f where c: "closeConnWithError E a t e ln = ln\<lparr>
     store := (store ln)(a := (store ln a)\<lparr>conn_closed := True\<rparr>), fdcount := fdcount ln - 1,
     nexts := nexts (detach a ln), prevs := prevs (detach a ln),
     fdconns := (fdconns ln)(conn_fd (store ln a) := None),
     ln_poll := forget (conn_fd (store ln a)) (ln_poll ln), fx := fx ln @ f\<rparr>"
      using close_shape by blast
    show ?thesis unfolding c by auto
  qed
next
  case (runs_trans l1 l2 l3)
  then show ?case by auto
qed

lemma runs_refl [simp, intro]: "runs E a ln ln"
  by (simp add: runs_quiet)

lemmas runs_step = runs_trans [OF runs_quiet]

lemma spinLock_Some: "spinLock c = Some c' \<longleftrightarrow> \<not> lock c \<and> c' = c\<lparr>lock := True\<rparr>"
  by (auto simp: spinLock_def)

lemma out_tail_Some: "out_tail n c = Some c' \<Longrightarrow> \<exists>d. c' = c\<lparr>conn_out := d\<rparr>"
  by (auto simp: out_tail_def split: bind_splits)

lemma runs_put:
  "conn_fd c = conn_fd (store ln a) \<Longrightarrow> conn_closed c = conn_closed (store ln a) \<Longrightarrow> conn_ts c = conn_ts (store ln a) \<Longrightarrow>
   runs E a ln (put a c ln)"
  by (rule runs_quiet) (rule quiet_put)

lemma runs_sent: "runs E a ln (sent a n c ln)" and store_sent [simp]: "store (sent a n c ln) = store ln"
  by (simp_all add: sent_def runs_quiet quiet_emit)

lemma runs_mod:
  assumes "on_poll (ModRead fd) l = Some ln' \<or> on_poll (ModReadWrite fd) l = Some ln'" and "runs E a ln l"
    and "\<not> lock (store l a)"
  shows "runs E a ln ln'" and "idle a ln'" 
proof -
  obtain b where "on_poll (epoll_mod fd b) l = Some ln'" using assms(1) by (auto simp: ModRead_def [abs_def] ModReadWrite_def [abs_def] on_poll_def)
  from quiet_mod [OF this] show "runs E a ln ln'" "idle a ln'" using assms(2,3) by (auto simp: idle_def intro: runs_trans runs_quiet)
qed


lemma writeConn_runs:
  assumes "writeConn E a wr ln = Some (ln', n)"
  shows "runs E a ln ln'" and "idle a ln'"
proof -
  define c where "c = (store ln a)\<lparr>lock := True\<rparr>"
  have p: "runs E a l (put a (spinUnlock d) l)" if "d = c \<or> (\<exists>x. d = c\<lparr>conn_out := x\<rparr>)" "store l a = store ln a" for d l
    using that by (intro runs_put) (auto simp: c_def spinUnlock_def)
  have q: "runs E a ln (put a (spinUnlock d) (sent a m c ln))" if "d = c \<or> (\<exists>x. d = c\<lparr>conn_out := x\<rparr>)" for m d
    using runs_trans [OF runs_sent p] that by simp
  have u: "\<not> lock (store (put a (spinUnlock d) l) a)" for d l by (simp add: spinUnlock_def)
  have ot: "d = c \<or> (\<exists>x. d = c\<lparr>conn_out := x\<rparr>)" if "(if b then out_tail m c else Some c) = Some d" for b m d
    using that by (auto split: if_splits dest: out_tail_Some)
  have "runs E a ln ln' \<and> idle a ln'"
  proof (cases "conn_out c = []")
    case True
    then have "on_poll (ModRead (conn_fd c)) (put a (spinUnlock c) ln) = Some ln'"
      using assms unfolding writeConn_def by (auto simp: spinLock_Some c_def [symmetric] split: bind_splits)
    then show ?thesis using runs_mod [OF disjI1 p u, of _ c ln] by auto
  next
    case F: False
    show ?thesis
    proof (cases wr)
      case (WriteErr m e)
      show ?thesis
      proof (cases "e = EAGAIN")
        case True
        then obtain d where d: "(if m > 0 then out_tail m c else Some c) = Some d"
          "on_poll (ModReadWrite (conn_fd c)) (put a (spinUnlock d) (sent a m c ln)) = Some ln'"
          using assms F WriteErr unfolding writeConn_def by (auto simp: spinLock_Some c_def [symmetric] split: bind_splits if_splits)
        show ?thesis using runs_mod [OF disjI2 q [OF ot [OF d(1)]] u] d(2) by auto
      next
        case False
        then have "ln' = closeConnWithError E a (bs ''write'') (cause_of e) (put a (spinUnlock c) ln)"
          using assms F WriteErr unfolding writeConn_def by (auto simp: spinLock_Some c_def [symmetric] split: bind_splits if_splits)
        then show ?thesis using runs_trans [OF p [of c ln] runs_close] by auto
      qed
    next
      case (Wrote m)
      show ?thesis
      proof (cases "m = length (conn_out c)")
        case True
        define l where "l = put a (spinUnlock (c\<lparr>conn_out := []\<rparr>)) (sent a (int m) c ln)"
        have l: "runs E a ln l" "\<not> lock (store l a)" using q u unfolding l_def by auto
        have "ln' = closeConnWithError E a [] NoErr l \<or> on_poll (ModRead (conn_fd c)) l = Some ln'"
          using assms F Wrote True unfolding writeConn_def
          by (auto simp: spinLock_Some c_def [symmetric] l_def Let_def split: bind_splits if_splits)
        then show ?thesis using runs_mod [OF _ l] runs_trans [OF l(1) runs_close] by auto
      next
        case False
        then obtain d l where d: "out_tail (int m) c = Some d" "on_poll (ModReadWrite (conn_fd c)) (put a (spinUnlock d) (sent a (int m) c ln)) = Some l"
          "ln' = emit FxShortWrite l"
          using assms F Wrote unfolding writeConn_def by (auto simp: spinLock_Some c_def [symmetric] Let_def split: bind_splits if_splits)
        have l: "runs E a ln l" "idle a l" using runs_mod [OF disjI2 q [OF ot [of True "int m"]] u] d(1,2) by auto
        then show ?thesis unfolding d(3) using runs_trans [OF l(1) runs_quiet [OF quiet_emit]] by (simp add: idle_def)
      qed
    qed
  qed
  then show "runs E a ln ln'" and "idle a ln'" by auto
qed

lemma finish_read_runs:
  assumes "finish_read E a wr ln = Some ln'" and "\<not> lock (store ln a)"
  shows "runs E a ln ln' \<and> idle a ln'"
proof -
  define l where "l = put a ((store ln a)\<lparr>conn_srs := new_srs\<rparr>) ln"
  have l: "runs E a ln l" "idle a l" using assms(2) by (auto simp: l_def idle_def intro: runs_put)
  have "ln' = l \<or> (\<exists>n. writeConn E a wr l = Some (ln', n))"
    using assms(1) unfolding finish_read_def l_def [symmetric] by (auto simp: Let_def split: if_splits)
  then show ?thesis using l writeConn_runs [of E a wr l ln'] by (auto intro: runs_trans)
qed

lemma truncate_Some:
  "truncateInputBuffer sz c = Some (c', n) \<Longrightarrow> \<exists>d. c' = c\<lparr>conn_in := d\<rparr> \<and> \<not> lock c \<and> n = length d"
  unfolding truncateInputBuffer_def spinLock_def spinUnlock_def
  by (auto split: bind_splits if_splits intro!: exI conn.equality)

lemma truncate_prefix:
  assumes "\<not> lock c" and "conn_in c = x @ y" and "n = int (length x)"
  shows "truncateInputBuffer n c = Some (c\<lparr>conn_in := y\<rparr>, length y)"
  using assms by (auto simp: truncateInputBuffer_def spinLock_def spinUnlock_def gslice_def intro!: conn.equality)

lemma api_simps [simp]:
  "conn_fd (api c c') = conn_fd c" "conn_closed (api c c') = conn_closed c" "conn_ts (api c c') = conn_ts c"
  "lock (api c c') = lock c" "conn_in (api c c') = conn_in c" "conn_srs (api c c') = conn_srs c" "conn_ssl (api c c') = conn_ssl c"
  "conn_out (api c c') = conn_out c'" "conn_ws (api c c') = conn_ws c'"
  by (simp_all add: api_def)

lemma triggers_simps [simp]:
  "store (triggers fds ln) = store ln" "fdconns (triggers fds ln) = fdconns ln"
  "fdcount (triggers fds ln) = fdcount ln" "free_addr (triggers fds ln) = free_addr ln" "ln_fd (triggers fds ln) = ln_fd ln"
  "fx (triggers fds ln) = fx ln" "Timeout (triggers fds ln) = Timeout ln" "ln_ssl (triggers fds ln) = ln_ssl ln"
  "nexts (triggers fds ln) = nexts ln" "prevs (triggers fds ln) = prevs ln"
  by (simp_all add: triggers_def)

lemma set_ws_simps [simp]:
  "conn_fd (set_ws f c) = conn_fd c" "conn_closed (set_ws f c) = conn_closed c" "conn_ts (set_ws f c) = conn_ts c"
  "lock (set_ws f c) = lock c" "conn_in (set_ws f c) = conn_in c" "conn_srs (set_ws f c) = conn_srs c" "conn_ssl (set_ws f c) = conn_ssl c"
  "conn_out (set_ws f c) = conn_out c" "conn_ws (set_ws f c) = map_option f (conn_ws c)"
  by (simp_all add: set_ws_def)

lemma served_runs:
  assumes "conn_fd c = conn_fd (store ln a)" "conn_closed c = conn_closed (store ln a)" "conn_ts c = conn_ts (store ln a)"
    and "closes [e] = []"
  shows "runs E a ln (triggers trs (put a (api c c') (emit e ln)))"
  using assms by (intro runs_quiet quiet_trans [OF quiet_emit quiet_trans [OF quiet_put quiet_triggers]]) simp_all

lemma finish_or_close_runs:
  assumes "runs E a ln l" and "\<not> lock (store l a)"
    and "(if \<not> b then Some (closeConnWithError E a t e l) else finish_read E a wr l) = Some ln'"
  shows "runs E a ln ln' \<and> idle a ln'"
  using assms finish_read_runs [OF _ assms(2), of E wr ln'] by (auto split: if_splits intro: runs_trans runs_close)

lemma serve_http_runs:
  assumes "serve_http E a req wr ln = Some ln'"
  shows "runs E a ln ln' \<and> idle a ln'"
proof -
  obtain c m c' trs b where c: "truncateInputBuffer (uint (bodyLen req) + uint (hdrLen req)) (store ln a) = Some (c, m)"
    and r: "(if \<not> b then Some (closeConnWithError E a [] NoErr (triggers trs (put a (api c c') (emit (FxHTTP (conn_fd c) req) ln))))
       else finish_read E a wr (triggers trs (put a (api c c') (emit (FxHTTP (conn_fd c) req) ln)))) = Some ln'"
    using assms unfolding serve_http_def by (auto simp: Let_def split: bind_splits prod.splits)
  show ?thesis using truncate_Some [OF c] by (intro finish_or_close_runs [OF served_runs _ r]) auto
qed

lemma serve_redis_runs:
  assumes "serve_redis E a req wr ln = Some ln'"
  shows "runs E a ln ln' \<and> idle a ln'"
proof -
  obtain c m c' trs b where c: "truncateInputBuffer (uint (redis_read req)) (store ln a) = Some (c, m)"
    and r: "(if \<not> b then Some (closeConnWithError E a [] NoErr (triggers trs (put a (api c c') (emit (FxRedis (conn_fd c) req) ln))))
       else finish_read E a wr (triggers trs (put a (api c c') (emit (FxRedis (conn_fd c) req) ln)))) = Some ln'"
    using assms unfolding serve_redis_def by (auto simp: Let_def split: bind_splits prod.splits)
  show ?thesis using truncate_Some [OF c] by (intro finish_or_close_runs [OF served_runs _ r]) auto
qed

lemma callWSData_runs:
  assumes "callWSData E a d ln = Some ln'"
  shows "runs E a ln ln'" and "lock (store ln' a) = lock (store ln a)"
proof -
  obtain c' trs where "ln' = triggers trs (put a (api (store ln a) c') (emit (FxWSData (conn_fd (store ln a)) d) ln))"
    using assms unfolding callWSData_def by (auto simp: Let_def split: bind_splits)
  then show "runs E a ln ln'" and "lock (store ln' a) = lock (store ln a)" by (simp_all add: served_runs)
qed

lemma ws_write_Some:
  assumes "ws_write ty p c = Some (c', trs)"
  shows "conn_fd c' = conn_fd c \<and> conn_closed c' = conn_closed c \<and> conn_ts c' = conn_ts c \<and> lock c' = lock c"
  using assms by (auto simp: ws_write_def conn_Write_def spinLock_def spinUnlock_def split: bind_splits if_splits)

text \<open>The branches of \<open>onWebsocket\<close>, by the operation code of the frame.\<close>

abbreviation set_cont :: "nat \<Rightarrow> bytes option \<Rightarrow> listener \<Rightarrow> listener" where
  "set_cont a d ln \<equiv> put a (set_ws (\<lambda>ws. ws\<lparr>contFrame := d\<rparr>) (store ln a)) ln"

lemma onWebsocket_eqs:
  assumes "conn_ws (store ln a) = Some ws"
  shows "opcode req = 0 \<Longrightarrow> contFrame ws = None \<Longrightarrow> onWebsocket E a req ln = Some (closeConnWithError E a (bs ''websocket'') Plain ln, False)"
    and "opcode req = 0 \<Longrightarrow> contFrame ws = Some cont \<Longrightarrow> onWebsocket E a req ln =
      (if int (length (cont @ frame_data req)) > e_max E
       then Some (closeConnWithError E a (bs ''websocket'') Plain (set_cont a (Some (cont @ frame_data req)) ln), False)
       else if fin req then callWSData E a (cont @ frame_data req) (set_cont a (Some (cont @ frame_data req)) ln) \<bind> (\<lambda>ln. Some (set_cont a None ln, True))
       else Some (set_cont a (Some (cont @ frame_data req)) ln, True))"
    and "opcode req = 8 \<Longrightarrow> onWebsocket E a req ln = Some (closeConnWithError E a [] NoErr
       (put a (set_ws (\<lambda>ws. ws\<lparr>closingData := frame_data req\<rparr>) (store ln a)) ln), False)"
    and "opcode req = 9 \<Longrightarrow> onWebsocket E a req ln = ws_write 10 (frame_data req) (store ln a) \<bind> (\<lambda>(c', trs). Some (triggers trs (put a c' ln), True))"
    and "opcode req = 10 \<Longrightarrow> onWebsocket E a req ln = Some (ln, True)"
    and "opcode req \<notin> {0, 8, 9, 10} \<Longrightarrow> fin req \<Longrightarrow> onWebsocket E a req ln = callWSData E a (frame_data req) ln \<bind> (\<lambda>ln. Some (ln, True))"
    and "opcode req \<notin> {0, 8, 9, 10} \<Longrightarrow> \<not> fin req \<Longrightarrow> onWebsocket E a req ln = Some (set_cont a (Some (frame_data req)) ln, True)"
  unfolding onWebsocket_def by (simp_all add: assms Let_def)

lemma onWebsocket_runs:
  assumes "onWebsocket E a req ln = Some (ln', b)" and "\<not> lock (store ln a)"
  shows "runs E a ln ln' \<and> (if b then \<not> lock (store ln' a) else idle a ln')"
proof -
  obtain ws where ws: "conn_ws (store ln a) = Some ws"
    using assms(1) by (cases "conn_ws (store ln a)") (simp_all add: onWebsocket_def Let_def)
  note eqs = onWebsocket_eqs [OF ws, of req, where E = E]
  have put: "runs E a l (put a (set_ws f (store l a)) l)" for f l by (rule runs_put) simp_all
  have cls: "runs E a ln (closeConnWithError E a t e (put a (set_ws f (store ln a)) ln))" for f t e
    using put runs_close runs_trans by blast
  consider "opcode req = 0" "contFrame ws = None" | cont where "opcode req = 0" "contFrame ws = Some cont"
    | "opcode req = 8" | "opcode req = 9" | "opcode req = 10"
    | "opcode req \<notin> {0, 8, 9, 10}" "fin req" | "opcode req \<notin> {0, 8, 9, 10}" "\<not> fin req"
    by (cases "contFrame ws") blast+
  then show ?thesis
  proof cases
    case 1
    then show ?thesis using assms(1) unfolding eqs(1) [OF 1] by (auto intro: runs_close)
  next
    case (2 cont)
    define l where "l = set_cont a (Some (cont @ frame_data req)) ln"
    have l: "runs E a ln l" "\<not> lock (store l a)" using put assms(2) by (auto simp: l_def)
    consider "(ln', b) = (closeConnWithError E a (bs ''websocket'') Plain l, False)" | "(ln', b) = (l, True)"
      | l2 where "callWSData E a (cont @ frame_data req) l = Some l2" "ln' = set_cont a None l2" b
      using assms(1) unfolding eqs(2) [OF 2] l_def [symmetric] by (auto split: bind_splits if_splits)
    then show ?thesis
    proof cases
      case (3 l2)
      note c = callWSData_runs [OF 3(1)]
      show ?thesis unfolding 3(2) using runs_trans [OF l(1) runs_trans [OF c(1) put]] c(2) l(2) 3(3) by simp
    qed (use l runs_trans [OF l(1) runs_close] in auto)
  next
    case 3
    then show ?thesis using assms(1) cls unfolding eqs(3) [OF 3] by auto
  next
    case 4
    then obtain c' trs where c: "ws_write 10 (frame_data req) (store ln a) = Some (c', trs)" "ln' = triggers trs (put a c' ln)" b
      using assms(1) unfolding eqs(4) [OF 4] by (auto split: bind_splits)
    show ?thesis unfolding c(2) using ws_write_Some [OF c(1)] c(3) assms(2)
      by (auto intro!: runs_quiet quiet_trans [OF quiet_put quiet_triggers])
  next
    case 5
    then show ?thesis using assms unfolding eqs(5) [OF 5] by auto
  next
    case 6
    then have "callWSData E a (frame_data req) ln = Some ln'" b using assms(1) unfolding eqs(6) [OF 6] by (auto split: bind_splits)
    then show ?thesis using callWSData_runs [of E a "frame_data req" ln ln'] assms(2) by simp
  next
    case 7
    then show ?thesis using assms put unfolding eqs(7) [OF 7] by auto
  qed
qed

lemma run_parser_Some:
  assumes "run_parser E c = Some (c', e)"
  shows "conn_fd c' = conn_fd c \<and> conn_closed c' = conn_closed c \<and> conn_ts c' = conn_ts c \<and> lock c' = lock c"
  using assms by (cases "conn_ws c") (auto simp: run_parser_def split: bind_splits if_splits)

lemma parse_next_runs:
  "parse_next E a buf wr ln = Some ln' \<Longrightarrow> runs E a ln ln' \<and> idle a ln'"
proof (induction rule: parse_next.raw_induct [rotated 1, consumes 1, case_names Step])
  case (Step f E a buf wr ln ln')
  define c where "c = (store ln a)\<lparr>lock := True, conn_in := conn_in (store ln a) @ buf\<rparr>"
  have lk: "spinLock (store ln a) = Some ((store ln a)\<lparr>lock := True\<rparr>)"
    using Step(2) by (auto simp: spinLock_def split: if_splits)
  show ?case
  proof (cases "e_max E < int (length (conn_in c))")
    case True
    then have "ln' = closeConnWithError E a (bs ''oversize'') Plain (put a c ln)"
      using Step(2) by (simp add: lk c_def)
    moreover have "runs E a ln (put a c ln)" by (rule runs_put) (simp_all add: c_def)
    ultimately show ?thesis using runs_trans runs_close by auto
  next
    case False
    obtain d err where d: "run_parser E c = Some (d, err)"
      using Step(2) False by (cases "run_parser E c"; cases "the (run_parser E c)") (simp_all add: lk c_def)
    define l where "l = put a (spinUnlock d) ln"
    have l: "runs E a ln l" "\<not> lock (store l a)"
      using run_parser_Some [OF d] by (auto simp: l_def spinUnlock_def c_def intro!: runs_put)
    have r: "(if err = Some ErrWaitMore then Some l
         else if err \<noteq> None then Some (closeConnWithError E a (bs ''read'') Plain l)
         else case conn_ws d of
           Some ws \<Rightarrow> do {
             (c, remain) \<leftarrow> truncateInputBuffer (frame_len (parsedFrame ws)) (store l a);
             (ln, more) \<leftarrow> onWebsocket E a (parsedFrame ws) (put a c l);
             (if \<not> more then Some ln
              else if remain > 0 then f E a [] wr ln
              else finish_read E a wr ln) }
         | None \<Rightarrow>
             (case srs_http (conn_srs d) of
                Some req \<Rightarrow> serve_http E a req wr l
              | None \<Rightarrow> do { req \<leftarrow> srs_redis (conn_srs d); serve_redis E a req wr l })) = Some ln'"
      using Step(2) False d unfolding lk c_def l_def Let_def by simp
    consider (err) "err \<noteq> None" | (ws) ws where "err = None" "conn_ws d = Some ws"
      | (request) "err = None" "conn_ws d = None"
      by (cases err; cases "conn_ws d") auto
    then show ?thesis
    proof cases
      case err
      then have "ln' = l \<or> ln' = closeConnWithError E a (bs ''read'') Plain l" using r by (simp split: if_splits)
      then show ?thesis using l runs_trans [OF l(1) runs_close] by (auto simp: idle_def)
    next
      case request
      note s = r [unfolded request, simplified]
      show ?thesis
      proof (cases "srs_http (conn_srs d)")
        case None
        then obtain req where "serve_redis E a req wr l = Some ln'" using s by (cases "srs_redis (conn_srs d)") auto
        then show ?thesis using serve_redis_runs runs_trans [OF l(1)] by blast
      next
        case (Some req)
        then show ?thesis using s serve_http_runs [of E a req wr l ln'] runs_trans [OF l(1)] by auto
      qed
    next
      case 3: (ws ws)
      obtain c2 rem where t: "truncateInputBuffer (frame_len (parsedFrame ws)) (store l a) = Some (c2, rem)"
        using r 3 by (cases "truncateInputBuffer (frame_len (parsedFrame ws)) (store l a)") auto
      obtain l2 b where w: "onWebsocket E a (parsedFrame ws) (put a c2 l) = Some (l2, b)"
        using r 3 t by (cases "onWebsocket E a (parsedFrame ws) (put a c2 l)") auto
      have c2: "runs E a l (put a c2 l)" "\<not> lock c2" using truncate_Some [OF t] l(2) by (auto intro!: runs_put)
      note o = onWebsocket_runs [OF w]
      have l2: "runs E a ln l2" "if b then \<not> lock (store l2 a) else idle a l2"
        using o c2 runs_trans [OF l(1) runs_trans [OF c2(1)]] by auto
      have "(if \<not> b then Some l2 else if rem > 0 then f E a [] wr l2 else finish_read E a wr l2) = Some ln'"
        using r 3 t w by simp
      then show ?thesis using l2 Step(1) [of E a "[]" wr l2 ln'] finish_read_runs [of E a wr l2 ln']
        by (auto split: if_splits intro: runs_trans)
    qed
  qed
qed

end
