(* ===== verification/Listener_Serve.thy ===== *)
theory Listener_Serve
  imports Listener_Runs
begin

text \<open>
  Whole events of the server (\<open>Serve\<close> of server.go): accepting a connection, serving one and
  closing those that timed out keep the invariant, keep the connections in the order of
  their last use, and close every descriptor exactly once.
\<close>

section \<open>Events and the invariant\<close>

lemma readConn_runs:
  assumes "readConn E a rd wr ln = Some ln'" and "idle a ln"
  shows "runs E a ln ln' \<and> idle a ln'"
proof (cases rd)
  case (ReadErr e)
  then have "ln' = closeConnWithError E a (bs ''read'') (cause_of e) ln \<or> on_poll (ModRead (conn_fd (store ln a))) ln = Some ln'"
    using assms(1) by (auto simp: readConn_def split: if_splits)
  moreover have "runs E a ln ln' \<and> idle a ln'" if "on_poll (ModRead (conn_fd (store ln a))) ln = Some ln'"
  proof -
    have "on_poll (epoll_mod (conn_fd (store ln a)) False) ln = Some ln'" using that by (simp add: on_poll_def ModRead_def)
    from quiet_mod [OF this] assms(2) show ?thesis by (auto simp: idle_def intro: runs_quiet)
  qed
  ultimately show ?thesis using runs_close by auto
next
  case (ReadN d)
  then have "ln' = closeConnWithError E a [] NoErr ln \<or> parse_next E a d wr ln = Some ln'"
    using assms(1) by (auto simp: readConn_def split: if_splits)
  then show ?thesis using parse_next_runs runs_close by auto
qed

text \<open>The part of a connection's event behind the list operations.\<close>

lemma conn_event_runs:
  assumes "conn_event E a ev i ln = Some ln'" and "\<not> lock (store ln a)"
  shows "runs E a (attachConn a (io_now i) (detach a ln)) ln'" and "idle a ln'"
proof -
  define l where "l = attachConn a (io_now i) (detach a ln)"
  have l: "idle a l" using assms(2) by (simp add: l_def idle_def attachConn_def Let_def)
  obtain l1 l2 where 1: "(if ev AND WRITE > 0 then map_option fst (writeConn E a (io_write i) l) else Some l) = Some l1"
    and 2: "(if ev AND READ > 0 then readConn E a (io_read i) (io_reply i) l1 else Some l1) = Some l2"
    and 3: "(if ev AND EOF > 0 then Some (closeConnWithError E a (bs ''eof'') NoErr l2) else Some l2) = Some ln'"
    using assms(1) unfolding conn_event_def l_def Let_def by (auto split: bind_splits)
  have 1: "runs E a l l1 \<and> idle a l1" using 1 l writeConn_runs [of E a "io_write i" l l1] by (auto split: if_splits)
  have 2: "runs E a l1 l2 \<and> idle a l2" using 1 2 readConn_runs [of E a "io_read i" "io_reply i" l1 l2] by (auto split: if_splits)
  have "runs E a l2 ln' \<and> idle a ln'" using 2 3 runs_close by (auto split: if_splits)
  then show "runs E a (attachConn a (io_now i) (detach a ln)) ln'" and "idle a ln'"
    unfolding l_def [symmetric] using 1 2 runs_trans by blast+
qed

lemma attach_simps [simp]:
  "store (attachConn a now ln) = (store ln)(a := (store ln a)\<lparr>conn_ts := now\<rparr>)" "fdconns (attachConn a now ln) = fdconns ln"
  "ln_poll (attachConn a now ln) = ln_poll ln" "fdcount (attachConn a now ln) = fdcount ln"
  "free_addr (attachConn a now ln) = free_addr ln" "ln_fd (attachConn a now ln) = ln_fd ln" "fx (attachConn a now ln) = fx ln"
  "Timeout (attachConn a now ln) = Timeout ln" "ln_ssl (attachConn a now ln) = ln_ssl ln"
  by (simp_all add: attachConn_def Let_def put_def)

lemma touch_inv:
  assumes "ln_inv K ln as" and "a \<in> set as"
  shows "ln_inv K (attachConn a now (detach a ln)) (a # remove1 a as)"
proof -
  note I = ln_invD [OF assms(1)]
  have s: "set (remove1 a as) = set as - {a}" using I(2) by (simp add: set_remove1_eq)
  have d: "distinct (fdhead # remove1 a as @ [fdtail])" using I(2) by (auto simp: distinct_remove1 s)
  have n: "a \<notin> set (fdhead # remove1 a as @ [fdtail])"
    using I(2) assms(2) by (cases "a = 0"; cases "a = 1") (auto simp: s)
  have m: "b \<in> set (a # remove1 a as) \<longleftrightarrow> b \<in> set as" for b using assms(2) by (auto simp: s)
  show ?thesis
  proof (rule ln_invI)
    show "linked (nexts (attachConn a now (detach a ln))) (prevs (attachConn a now (detach a ln))) (fdhead # (a # remove1 a as) @ [fdtail])"
      by (rule attach_linked [OF detach_linked [OF I(1,2) assms(2)] d n])
    show "distinct (fdhead # (a # remove1 a as) @ [fdtail])" using d n by auto
    show "fdcount (attachConn a now (detach a ln)) = of_nat (length (a # remove1 a as))"
      using I(10) assms(2) length_pos_if_in_set [OF assms(2)] by (simp add: length_remove1)
    fix b assume "b \<in> set (a # remove1 a as)"
    then have "b \<in> set as" by (simp only: m)
    note J = I(3) [OF this] I(4) [OF this] I(5) [OF this] I(6) [OF this] I(7) [OF this]
    show "b < free_addr (attachConn a now (detach a ln))" "\<not> conn_closed (store (attachConn a now (detach a ln)) b)"
      "b \<in> K \<or> \<not> lock (store (attachConn a now (detach a ln)) b)"
      "fdconns (attachConn a now (detach a ln)) (conn_fd (store (attachConn a now (detach a ln)) b)) = Some b"
      "interest (ln_poll (attachConn a now (detach a ln))) (conn_fd (store (attachConn a now (detach a ln)) b)) \<noteq> None"
      using J by (cases "b = a"; simp)+
  next
    show "\<And>fd b. fdconns (attachConn a now (detach a ln)) fd = Some b \<Longrightarrow> b \<in> set (a # remove1 a as)"
      using I(8) by (simp only: m attach_simps detach_simps)
    show "\<And>fd b. fdconns (attachConn a now (detach a ln)) fd = Some b \<Longrightarrow> conn_fd (store (attachConn a now (detach a ln)) b) = fd"
      using I(9) by auto
  qed (use I(11-14) in simp_all)
qed

lemma on_poll_add:
  assumes "on_poll (AddRead fd) ln = Some ln'"
  shows "interest (ln_poll ln) fd = None" and
    "ln' = ln\<lparr>ln_poll := (ln_poll ln)\<lparr>interest := (interest (ln_poll ln))(fd \<mapsto> False)\<rparr>\<rparr>"
  using assms by (auto simp: on_poll_def AddRead_def epoll_add_def split: bind_splits if_splits)

lemma accept_inv:
  assumes "ln_inv K ln as" and "accept_conn i ln = Some (ln', go)"
  shows "ln_inv K ln' (if go then free_addr ln # as else as)"
    and "go \<Longrightarrow> conn_ts (store ln' (free_addr ln)) = io_now i" and "a < free_addr ln \<Longrightarrow> store ln' a = store ln a"
    and "Timeout ln' = Timeout ln" and "ln_fd ln' = ln_fd ln" and "closes (fx ln') = closes (fx ln)" and "free_addr ln' = (if go then Suc (free_addr ln) else free_addr ln)"
proof -
  note I = ln_invD [OF assms(1)]
  have "ln_inv K ln' (if go then free_addr ln # as else as) \<and> (go \<longrightarrow> conn_ts (store ln' (free_addr ln)) = io_now i) \<and>
    (a < free_addr ln \<longrightarrow> store ln' a = store ln a) \<and> Timeout ln' = Timeout ln \<and> ln_fd ln' = ln_fd ln \<and> closes (fx ln') = closes (fx ln) \<and>
    free_addr ln' = (if go then Suc (free_addr ln) else free_addr ln)"
  proof (cases go)
    case False
    then have "ln' = ln \<or> (\<exists>t. ln' = emit (FxError t) ln)"
      using assms(2) by (auto simp: accept_conn_def Let_def split: accept_result.splits if_splits bind_splits)
    moreover have "ln_inv K (emit t ln) as" for t using assms(1) by (simp add: ln_inv_def)
    ultimately show ?thesis using assms(1) False by auto
  next
    case True
    define b where "b = free_addr ln"
    obtain nfd nb so where acc: "io_accept i = Accepted nfd nb so"
      using assms(2) True by (auto simp: accept_conn_def split: accept_result.splits if_splits)
    define l where "l = put b (new_conn nfd (ln_ssl ln)) (ln\<lparr>free_addr := Suc b\<rparr>)"
    have "on_poll (AddRead nfd) l \<bind> (\<lambda>m. Some (count_fd 1 (attachConn b (io_now i) (m\<lparr>fdconns := (fdconns m)(nfd \<mapsto> b)\<rparr>)), True)) = Some (ln', go)"
      using assms(2) True unfolding accept_conn_def acc by (simp add: Let_def l_def b_def split: if_splits)
    then obtain m where m: "on_poll (AddRead nfd) l = Some m" "ln' = count_fd 1 (attachConn b (io_now i) (m\<lparr>fdconns := (fdconns m)(nfd \<mapsto> b)\<rparr>))"
      by (cases "on_poll (AddRead nfd) l") auto
    note m' = on_poll_add [OF m(1)]
    have ni: "interest (ln_poll ln) nfd = None" using m'(1) by (simp add: l_def)
    have nf1: "fdconns ln nfd \<noteq> Some x" for x using I(7) [OF I(8), of nfd x] I(9) [of nfd x] ni by auto
    have nf: "fdconns ln nfd = None" "nfd \<noteq> ln_fd ln" using nf1 I(13) ni by (cases "fdconns ln nfd"; auto)+
    have nb: "b \<notin> set as" "2 \<le> b" using I(3) I(11) by (auto simp: b_def)
    have other: "conn_fd (store ln x) \<noteq> nfd" if "x \<in> set as" for x using nf(1) I(6) [OF that] by auto
    have ne: "x \<noteq> b" if "x \<in> set as" for x using that nb by auto
    define l' where "l' = attachConn b (io_now i) (m\<lparr>fdconns := (fdconns m)(nfd \<mapsto> b)\<rparr>)"
    have lk: "linked (nexts l') (prevs l') (fdhead # (b # as) @ [fdtail])"
      unfolding l'_def using I(1,2) nb by (intro attach_linked) (auto simp: m'(2) l_def)
    have ln': "ln' = l'\<lparr>fdcount := fdcount l' + 1, fx := fx l' @ [FxFdCount (sint (fdcount l' + 1))]\<rparr>"
      unfolding m(2) l'_def [symmetric] by (simp add: count_fd_def emit_def)
    have st: "store l' = (store ln)(b := (new_conn nfd (ln_ssl ln))\<lparr>conn_ts := io_now i\<rparr>)"
      "fdconns l' = (fdconns ln)(nfd \<mapsto> b)" "interest (ln_poll l') = (interest (ln_poll ln))(nfd \<mapsto> False)"
      "writesFd (ln_poll l') = writesFd (ln_poll ln)" "fdcount l' = fdcount ln" "free_addr l' = Suc b" "ln_fd l' = ln_fd ln"
      "Timeout l' = Timeout ln" "fx l' = fx ln"
      unfolding l'_def m'(2) l_def by simp_all
    have "ln_inv K ln' (b # as)"
    proof (rule ln_invI)
      show "linked (nexts ln') (prevs ln') (fdhead # (b # as) @ [fdtail])" unfolding ln' using lk by simp
      show "distinct (fdhead # (b # as) @ [fdtail])" using I(2) nb by auto
      show "fdcount ln' = of_nat (length (b # as))" unfolding ln' by (simp add: st I(10))
      show "\<exists>fds. pending (ln_poll ln') fds" unfolding ln' using I(14) by (simp add: st)
      show "2 \<le> free_addr ln'" "fdconns ln' (ln_fd ln') = None" "interest (ln_poll ln') (ln_fd ln') \<noteq> None"
        unfolding ln' using I(12,13) nf nb by (simp_all add: st)
    next
      fix x assume "x \<in> set (b # as)"
      then consider "x = b" | "x \<in> set as" "x \<noteq> b" "conn_fd (store ln x) \<noteq> nfd" using other ne by auto
      then show "x < free_addr ln'" "\<not> conn_closed (store ln' x)" "x \<in> K \<or> \<not> lock (store ln' x)"
        "fdconns ln' (conn_fd (store ln' x)) = Some x" "interest (ln_poll ln') (conn_fd (store ln' x)) \<noteq> None"
        unfolding ln' using I(3) [of x] I(4) [of x] I(5) [of x] I(6) [of x] I(7) [of x]
        by (cases; simp add: st new_conn_def b_def)+
    next
      fix fd x assume "fdconns ln' fd = Some x"
      then have "fd = nfd \<and> x = b \<or> fdconns ln fd = Some x" unfolding ln' by (auto simp: st split: if_splits)
      then show "x \<in> set (b # as)" "conn_fd (store ln' x) = fd"
        using I(8) [of fd x] I(9) [of fd x] nb(1) unfolding ln' by (auto simp: st new_conn_def)
    qed
    then show ?thesis using True unfolding b_def [symmetric] by (simp add: ln' st b_def)
  qed
  then show "ln_inv K ln' (if go then free_addr ln # as else as)"
    and "go \<Longrightarrow> conn_ts (store ln' (free_addr ln)) = io_now i" and "a < free_addr ln \<Longrightarrow> store ln' a = store ln a"
    and "Timeout ln' = Timeout ln" and "ln_fd ln' = ln_fd ln" and "closes (fx ln') = closes (fx ln)" and "free_addr ln' = (if go then Suc (free_addr ln) else free_addr ln)" by blast+
qed

section \<open>Every descriptor is closed once\<close>

text \<open>
  The descriptors that were closed together with those of the open connections are those of
  all connections ever set up. A descriptor for which \<open>SetNonblock\<close> or the TLS accept fails
  never becomes a connection: the code neither closes it nor keeps it, and it is not counted here.
\<close>

definition balanced :: "listener \<Rightarrow> nat list \<Rightarrow> bool" where
  "balanced ln as \<longleftrightarrow> mset (closes (fx ln)) + mset (map (\<lambda>a. conn_fd (store ln a)) as) =
     mset (map (\<lambda>a. conn_fd (store ln a)) [2..<free_addr ln])"

lemma balanced_cong:
  assumes "balanced ln as" and "\<And>b. conn_fd (store ln' b) = conn_fd (store ln b)" and "free_addr ln' = free_addr ln"
    and "mset (closes (fx ln')) + mset (map (\<lambda>a. conn_fd (store ln a)) as') = mset (closes (fx ln)) + mset (map (\<lambda>a. conn_fd (store ln a)) as)"
  shows "balanced ln' as'"
  using assms by (simp add: balanced_def)

lemma mset_map_remove1: "a \<in> set as \<Longrightarrow> add_mset (f a) (mset (map f (remove1 a as))) = mset (map f as)"
  by (induction as) auto

lemma runs_closes:
  assumes "runs E a ln ln'"
  shows "(conn_closed (store ln a) \<longrightarrow> conn_closed (store ln' a)) \<and>
    closes (fx ln') = closes (fx ln) @ (if conn_closed (store ln' a) \<and> \<not> conn_closed (store ln a) then [conn_fd (store ln a)] else [])"
  using assms
proof (induction rule: runs.induct)
  case (runs_quiet ln ln')
  then show ?case by (auto simp: quiet_def)
next
  case (runs_close ln t e)
  show ?case
  proof (cases "conn_closed (store ln a)")
    case True
    then show ?thesis by (simp add: close_closed)
  next
    case False
    from close_shape [OF this, of E t e] obtain f where
      "fx (closeConnWithError E a t e ln) = fx ln @ f" "closes f = [conn_fd (store ln a)]" by auto
    then show ?thesis using False by simp
  qed
next
  case (runs_trans l1 l2 l3)
  have "conn_fd (store l2 a) = conn_fd (store l1 a)" using runs_keeps [OF runs_trans(1), of a] by simp
  then show ?case using runs_trans(3,4) by (auto split: if_splits)
qed

lemma runs_balanced:
  assumes "runs E a ln ln'" and "a \<in> set as \<or> conn_closed (store ln a)" and "conn_closed (store ln a) \<Longrightarrow> a \<notin> set as" and "balanced ln as"
  shows "balanced ln' (if conn_closed (store ln' a) then remove1 a as else as)"
proof (rule balanced_cong [OF assms(4)])
  note k = runs_keeps [OF assms(1)]
  show "conn_fd (store ln' b) = conn_fd (store ln b)" for b using k by simp
  show "free_addr ln' = free_addr ln" using k by simp
  show "mset (closes (fx ln')) + mset (map (\<lambda>a. conn_fd (store ln a)) (if conn_closed (store ln' a) then remove1 a as else as)) =
    mset (closes (fx ln)) + mset (map (\<lambda>a. conn_fd (store ln a)) as)"
    using runs_closes [OF assms(1)] assms(2,3) mset_map_remove1 [of a as "\<lambda>a. conn_fd (store ln a)"]
    by (cases "a \<in> set as") (auto simp: remove1_idem simp del: mset_map split: if_splits)
qed

lemma accept_balanced:
  assumes "ln_inv K ln as" and "accept_conn i ln = Some (ln', go)" and "balanced ln as"
  shows "balanced ln' (if go then free_addr ln # as else as)"
proof -
  note a = accept_inv [OF assms(1,2)]
  note I = ln_invD [OF assms(1)]
  have "mset (map (\<lambda>a. conn_fd (store ln' a)) as) = mset (map (\<lambda>a. conn_fd (store ln a)) as)"
    using I(3) a(3) by (intro arg_cong [of _ _ mset] map_cong) auto
  moreover have "mset (map (\<lambda>a. conn_fd (store ln' a)) [2..<free_addr ln]) = mset (map (\<lambda>a. conn_fd (store ln a)) [2..<free_addr ln])"
    using a(3) by (intro arg_cong [of _ _ mset] map_cong) auto
  ultimately show ?thesis using assms(3) I(11) unfolding balanced_def a(6,7) by (auto simp del: mset_map upt_Suc simp: upt_Suc_append)
qed

lemma touch_balanced:
  assumes "a \<in> set as" and "balanced ln as"
  shows "balanced (attachConn a now (detach a ln)) (a # remove1 a as)"
  using mset_map_remove1 [OF assms(1), of "\<lambda>a. conn_fd (store ln a)"]
  by (intro balanced_cong [OF assms(2)]) (auto simp del: mset_map)

section \<open>Timeouts\<close>

lemma linked_last: "linked nx pv (h # as @ [t]) \<Longrightarrow> pv t = last (h # as)"
  by (induction as arbitrary: h) auto

definition expired :: "int \<Rightarrow> listener \<Rightarrow> nat \<Rightarrow> bool" where
  "expired now ln a \<longleftrightarrow> conn_ts (store ln a) < now - Timeout ln"

lemma close_tail:
  assumes "ln_ok ln (cs @ [a])"
  shows "ln_ok (closeConnWithError E a t e ln) cs" and "prevs (closeConnWithError E a t e ln) a = prevs (closeConnWithError E a t e ln) fdtail"
    and "\<exists>f. fx (closeConnWithError E a t e ln) = fx ln @ f \<and> closes f = [conn_fd (store ln a)]"
proof -
  note I = ln_invD [OF assms]
  have "ln_inv (insert a {}) ln (cs @ [a])" using ln_inv_mono [OF assms] by blast
  from close_inv [OF this, of E t e] I(2) show o: "ln_ok (closeConnWithError E a t e ln) cs" by (simp add: remove1_append)
  have c: "\<not> conn_closed (store ln a)" using I(4) by simp
  then obtain f where f: "closeConnWithError E a t e ln = ln\<lparr>
     store := (store ln)(a := (store ln a)\<lparr>conn_closed := True\<rparr>), fdcount := fdcount ln - 1,
     nexts := nexts (detach a ln), prevs := prevs (detach a ln),
     fdconns := (fdconns ln)(conn_fd (store ln a) := None),
     ln_poll := forget (conn_fd (store ln a)) (ln_poll ln), fx := fx ln @ f\<rparr>" "closes f = [conn_fd (store ln a)]"
    using close_shape by blast
  have l: "linked (nexts ln) (prevs ln) ((fdhead # cs) @ a # [fdtail])" using I(1) by simp
  then have "linked (nexts ln) (prevs ln) (fdhead # cs @ [a])" "nexts ln a = fdtail"
    using linked_append [of _ _ "fdhead # cs" a "[fdtail]"] by auto
  then have "prevs ln a = last (fdhead # cs)" "nexts ln a = fdtail" using linked_last by auto
  moreover have "a \<noteq> fdtail" using I(2) by auto
  ultimately have "prevs (closeConnWithError E a t e ln) a = last (fdhead # cs)"
    unfolding f(1) by (simp add: detach_def Let_def)
  with linked_last [OF ln_invD(1) [OF o]]
  show "prevs (closeConnWithError E a t e ln) a = prevs (closeConnWithError E a t e ln) fdtail" by simp
  show "\<exists>f. fx (closeConnWithError E a t e ln) = fx ln @ f \<and> closes f = [conn_fd (store ln a)]"
    unfolding f(1) using f(2) by (intro exI [of _ f]) simp
qed

lemma sweep_result:
  assumes "ln_ok ln as"
  shows "\<exists>ln' f. sweep E now (prevs ln fdtail) ln = Some ln' \<and> ln_ok ln' (rev (dropWhile (expired now ln) (rev as))) \<and>
     (\<forall>b. conn_ts (store ln' b) = conn_ts (store ln b) \<and> conn_fd (store ln' b) = conn_fd (store ln b)) \<and>
     Timeout ln' = Timeout ln \<and> ln_fd ln' = ln_fd ln \<and> free_addr ln' = free_addr ln \<and>
     fx ln' = fx ln @ f \<and> closes f = map (\<lambda>a. conn_fd (store ln a)) (takeWhile (expired now ln) (rev as))"
  using assms
proof (induction as arbitrary: ln rule: rev_induct)
  case Nil
  have "prevs ln fdtail = fdhead" using linked_last [OF ln_invD(1) [OF Nil]] by simp
  then show ?case using Nil by (subst sweep.simps) (auto intro: exI [of _ "[]"])
next
  case (snoc a cs)
  have p: "prevs ln fdtail = a" using linked_last [OF ln_invD(1) [OF snoc.prems]] by simp
  have a: "a \<noteq> fdhead" using ln_invD(2) [OF snoc.prems] by auto
  show ?case
  proof (cases "expired now ln a")
    case False
    then show ?thesis unfolding p using snoc.prems a by (subst sweep.simps) (auto simp: expired_def intro: exI [of _ "[]"])
  next
    case True
    define l where "l = closeConnWithError E a (bs ''timeout'') Plain ln"
    note k = runs_keeps [OF runs_close, of E a "bs ''timeout''" Plain ln, folded l_def]
    have e: "expired now l = expired now ln" by (rule ext) (simp add: expired_def k)
    obtain f where f: "fx l = fx ln @ f" "closes f = [conn_fd (store ln a)]" using close_tail(3) [OF snoc.prems] unfolding l_def by blast
    have ok: "ln_ok l cs" using close_tail(1) [OF snoc.prems] unfolding l_def .
    have pv: "prevs l a = prevs l fdtail" using close_tail(2) [OF snoc.prems] unfolding l_def .
    from snoc.IH [OF ok] obtain ln' g where r: "sweep E now (prevs l fdtail) l = Some ln'"
      "ln_ok ln' (rev (dropWhile (expired now ln) (rev cs)))"
      "\<forall>b. conn_ts (store ln' b) = conn_ts (store l b) \<and> conn_fd (store ln' b) = conn_fd (store l b)"
      "Timeout ln' = Timeout l" "ln_fd ln' = ln_fd l" "free_addr ln' = free_addr l"
      "fx ln' = fx l @ g" "closes g = map (\<lambda>a. conn_fd (store l a)) (takeWhile (expired now ln) (rev cs))"
      unfolding e by blast
    have s: "sweep E now (prevs ln fdtail) ln = Some ln'"
      unfolding p using a True r(1) by (subst sweep.simps) (simp add: expired_def l_def [symmetric] pv)
    show ?thesis
      by (rule exI [of _ ln'], rule exI [of _ "f @ g"]) (use s r True f k in \<open>auto\<close>)
  qed
qed

definition ordered :: "int \<Rightarrow> listener \<Rightarrow> nat list \<Rightarrow> bool" where
  "ordered T ln as \<longleftrightarrow> sorted_wrt (\<lambda>a b. conn_ts (store ln b) \<le> conn_ts (store ln a)) as \<and>
     (\<forall>a\<in>set as. conn_ts (store ln a) \<le> T)"

lemma dropWhile_sorted:
  "sorted_wrt (\<lambda>a b. P b \<longrightarrow> P a) xs \<Longrightarrow> dropWhile P xs = filter (\<lambda>x. \<not> P x) xs \<and> takeWhile P xs = filter P xs"
  by (induction xs) (auto simp: filter_empty_conv filter_id_conv intro: sym)

lemma ordered_expired:
  assumes "ordered T ln as"
  shows "rev (dropWhile (expired now ln) (rev as)) = filter (\<lambda>a. \<not> expired now ln a) as"
    and "takeWhile (expired now ln) (rev as) = rev (filter (expired now ln) as)"
proof -
  have "sorted_wrt (\<lambda>a b. expired now ln b \<longrightarrow> expired now ln a) (rev as)"
    using assms unfolding ordered_def sorted_wrt_rev by (auto simp: expired_def elim!: sorted_wrt_mono_rel [rotated])
  from dropWhile_sorted [OF this]
  show "rev (dropWhile (expired now ln) (rev as)) = filter (\<lambda>a. \<not> expired now ln a) as"
    and "takeWhile (expired now ln) (rev as) = rev (filter (expired now ln) as)" by (simp_all add: rev_filter)
qed

lemma ordered_mono: "ordered T ln as \<Longrightarrow> T \<le> T' \<Longrightarrow> ordered T' ln as"
  by (auto simp: ordered_def)

lemma ordered_cong: "ordered T ln as \<Longrightarrow> (\<And>b. b \<in> set as \<Longrightarrow> conn_ts (store ln' b) = conn_ts (store ln b)) \<Longrightarrow> ordered T ln' as"
  unfolding ordered_def by (auto elim!: sorted_wrt_mono_rel [rotated])

lemma ordered_filter: "ordered T ln as \<Longrightarrow> ordered T ln (filter P as)"
  by (auto simp: ordered_def sorted_wrt_filter)

lemma ordered_remove1: "ordered T ln as \<Longrightarrow> ordered T ln (remove1 a as)"
proof -
  have "sorted_wrt R xs \<Longrightarrow> sorted_wrt R (remove1 a xs)" for R and xs :: "nat list"
    by (induction xs) (auto dest: notin_set_remove1)
  then show "ordered T ln as \<Longrightarrow> ordered T ln (remove1 a as)" by (auto simp: ordered_def dest: notin_set_remove1)
qed

lemma ordered_cons:
  "ordered T ln as \<Longrightarrow> T \<le> now \<Longrightarrow> conn_ts (store ln a) = now \<Longrightarrow> ordered now ln (a # as)"
  by (fastforce simp: ordered_def)


section \<open>One event\<close>

text \<open>The open connections after an event of the connection \<open>a\<close>, before the timeouts.\<close>

lemma conn_event_inv:
  assumes "ln_ok ln as" and "a \<in> set as" and "conn_event E a ev i ln = Some ln'"
  shows "ln_ok ln' (if conn_closed (store ln' a) then remove1 a as else a # remove1 a as)"
    and "\<And>b. conn_ts (store ln' b) = (if b = a then io_now i else conn_ts (store ln b))"
    and "Timeout ln' = Timeout ln" and "ln_fd ln' = ln_fd ln" and "\<And>b. b \<noteq> a \<Longrightarrow> store ln' b = store ln b"
    and "balanced ln as \<Longrightarrow> balanced ln' (if conn_closed (store ln' a) then remove1 a as else a # remove1 a as)"
proof -
  define l where "l = attachConn a (io_now i) (detach a ln)"
  have u: "\<not> lock (store ln a)" using ln_invD(5) [OF assms(1,2)] by simp
  note r = conn_event_runs [OF assms(3) u, folded l_def]
  have "ln_ok l (a # remove1 a as)" unfolding l_def using assms(1,2) by (rule touch_inv)
  then have "ln_inv (insert a {}) l (a # remove1 a as)" using ln_inv_mono by blast
  from runs_ok [OF r(1) this _ r(2)]
  show "ln_ok ln' (if conn_closed (store ln' a) then remove1 a as else a # remove1 a as)" by (simp split: if_splits)
  note k = runs_keeps [OF r(1)]
  show "\<And>b. conn_ts (store ln' b) = (if b = a then io_now i else conn_ts (store ln b))" "Timeout ln' = Timeout ln" "ln_fd ln' = ln_fd ln"
    "\<And>b. b \<noteq> a \<Longrightarrow> store ln' b = store ln b"
    using k by (auto simp: l_def)
  have "\<not> conn_closed (store l a)" using ln_invD(4) [OF assms(1,2)] by (simp add: l_def)
  then show "balanced ln' (if conn_closed (store ln' a) then remove1 a as else a # remove1 a as)" if "balanced ln as"
    using runs_balanced [OF r(1) _ _ touch_balanced [OF assms(2) that, of "io_now i", folded l_def]] by (simp split: if_splits)
qed

text \<open>The list of an event: accepted connections and the one that had the event come first.\<close>

lemma handle_result:
  assumes "ln_ok ln as" and "handle E fd ev i ln = Some ln'"
  shows "\<exists>l as'. ln_ok l as' \<and> Timeout l = Timeout ln \<and> ln_fd l = ln_fd ln \<and>
     (ordered T ln as \<longrightarrow> T \<le> io_now i \<longrightarrow> ordered (io_now i) l as') \<and> (balanced ln as \<longrightarrow> balanced l as') \<and>
     (ln' = l \<and> (Timeout ln \<le> 0 \<or> as' = as) \<or> Timeout ln > 0 \<and> sweep E (io_sweep i) (prevs l fdtail) l = Some ln')"
proof -
  note I = ln_invD [OF assms(1)]
  have id: "\<exists>l as'. ln_ok l as' \<and> Timeout l = Timeout ln \<and> ln_fd l = ln_fd ln \<and>
     (ordered T ln as \<longrightarrow> T \<le> io_now i \<longrightarrow> ordered (io_now i) l as') \<and> (balanced ln as \<longrightarrow> balanced l as') \<and>
     (ln' = l \<and> (Timeout ln \<le> 0 \<or> as' = as) \<or> Timeout ln > 0 \<and> sweep E (io_sweep i) (prevs l fdtail) l = Some ln')"
    if "ln_ok l as'" "Timeout l = Timeout ln" "ln_fd l = ln_fd ln" "ordered T ln as \<Longrightarrow> T \<le> io_now i \<Longrightarrow> ordered (io_now i) l as'"
      "balanced ln as \<Longrightarrow> balanced l as'"
      "ln' = l \<and> (Timeout ln \<le> 0 \<or> as' = as) \<or> Timeout ln > 0 \<and> sweep E (io_sweep i) (prevs l fdtail) l = Some ln'" for l as'
    using that by blast
  show ?thesis
  proof (cases "fd = ln_fd ln")
    case True
    then obtain l go where l: "accept_conn i ln = Some (l, go)"
      "(if go \<and> Timeout l > 0 then sweep E (io_sweep i) (prevs l fdtail) l else Some l) = Some ln'"
      using assms(2) by (auto simp: handle_def split: bind_splits)
    note a = accept_inv [OF assms(1) l(1)]
    show ?thesis
    proof (rule id [OF a(1,4,5)])
      assume o: "ordered T ln as" and T: "T \<le> io_now i"
      have o': "ordered T l as" using o by (rule ordered_cong) (simp add: a(3) I(3))
      show "ordered (io_now i) l (if go then free_addr ln # as else as)"
        using ordered_cons [OF o' T a(2)] ordered_mono [OF o' T] by auto
    next
      show "balanced ln as \<Longrightarrow> balanced l (if go then free_addr ln # as else as)" by (rule accept_balanced [OF assms(1) l(1)])
    next
      show "ln' = l \<and> (Timeout ln \<le> 0 \<or> (if go then free_addr ln # as else as) = as) \<or>
        Timeout ln > 0 \<and> sweep E (io_sweep i) (prevs l fdtail) l = Some ln'" using l(2) a(4) by (auto split: if_splits)
    qed
  next
    case F: False
    show ?thesis
    proof (cases "fdconns ln fd")
      case None
      then have "ln' = ln" using assms(2) F by (simp add: handle_def)
      then show ?thesis using assms(1) ordered_mono by (intro id [of ln as]) auto
    next
      case (Some a)
      have a: "a \<in> set as" using I(8) [OF Some] .
      obtain l where l: "conn_event E a ev i ln = Some l"
        "(if Timeout l > 0 then sweep E (io_sweep i) (prevs l fdtail) l else Some l) = Some ln'"
        using assms(2) F Some by (auto simp: handle_def split: bind_splits)
      note c = conn_event_inv [OF assms(1) a l(1)]
      show ?thesis
      proof (rule id [OF c(1,3,4)])
        assume o: "ordered T ln as" and T: "T \<le> io_now i"
        have na: "a \<notin> set (remove1 a as)" using I(2) by (simp add: set_remove1_eq)
        have o': "ordered T l (remove1 a as)" using ordered_remove1 [OF o] by (rule ordered_cong) (use na c(2) in auto)
        show "ordered (io_now i) l (if conn_closed (store l a) then remove1 a as else a # remove1 a as)"
          using ordered_cons [OF o' T, of a] ordered_mono [OF o' T] c(2) by simp
      next
        show "balanced ln as \<Longrightarrow> balanced l (if conn_closed (store l a) then remove1 a as else a # remove1 a as)" by (rule c(6))
      next
        show "ln' = l \<and> (Timeout ln \<le> 0 \<or> (if conn_closed (store l a) then remove1 a as else a # remove1 a as) = as) \<or>
          Timeout ln > 0 \<and> sweep E (io_sweep i) (prevs l fdtail) l = Some ln'" using l(2) c(3) by (auto split: if_splits)
      qed
    qed
  qed
qed


lemma sweep_balanced:
  assumes "ln_ok ln as" and "balanced ln as" and "sweep E now (prevs ln fdtail) ln = Some ln'"
  shows "balanced ln' (rev (dropWhile (expired now ln) (rev as)))"
proof -
  obtain f where f: "\<forall>b. conn_fd (store ln' b) = conn_fd (store ln b)" "free_addr ln' = free_addr ln"
     "fx ln' = fx ln @ f" "closes f = map (\<lambda>a. conn_fd (store ln a)) (takeWhile (expired now ln) (rev as))"
    using sweep_result [OF assms(1), of E now] assms(3) by auto
  have "mset (map (\<lambda>a. conn_fd (store ln a)) (rev as)) = mset (map (\<lambda>a. conn_fd (store ln a)) (takeWhile (expired now ln) (rev as))) +
     mset (map (\<lambda>a. conn_fd (store ln a)) (dropWhile (expired now ln) (rev as)))"
    by (subst takeWhile_dropWhile_id [of "expired now ln" "rev as", symmetric]) (simp only: map_append mset_append)
  then show ?thesis using f by (intro balanced_cong [OF assms(2)]) (simp_all flip: rev_map)
qed

lemma handle_good:
  assumes "ln_ok ln as" and "handle E fd ev i ln = Some ln'"
  shows "\<exists>as'. ln_ok ln' as' \<and> Timeout ln' = Timeout ln \<and> ln_fd ln' = ln_fd ln \<and> (balanced ln as \<longrightarrow> balanced ln' as') \<and>
    (ordered T ln as \<longrightarrow> T \<le> io_now i \<longrightarrow> ordered (io_now i) ln' as')"
proof -
  from handle_result [OF assms, of T] obtain l as' where l: "ln_ok l as'" "Timeout l = Timeout ln" "ln_fd l = ln_fd ln"
    "balanced ln as \<longrightarrow> balanced l as'" "ordered T ln as \<longrightarrow> T \<le> io_now i \<longrightarrow> ordered (io_now i) l as'"
    "ln' = l \<or> sweep E (io_sweep i) (prevs l fdtail) l = Some ln'" by blast
  show ?thesis
  proof (cases "ln' = l")
    case True
    then show ?thesis using l by blast
  next
    case False
    then have s: "sweep E (io_sweep i) (prevs l fdtail) l = Some ln'" using l(6) by blast
    note r = sweep_result [OF l(1), of E "io_sweep i", unfolded s]
    define cs where "cs = rev (dropWhile (expired (io_sweep i) l) (rev as'))"
    have r': "ln_ok ln' cs" "\<forall>b. conn_ts (store ln' b) = conn_ts (store l b)" "Timeout ln' = Timeout l" "ln_fd ln' = ln_fd l"
      using r unfolding cs_def by auto
    have "balanced ln' cs" if "balanced l as'" using sweep_balanced [OF l(1) that s] unfolding cs_def .
    moreover have "ordered (io_now i) ln' cs" if o: "ordered (io_now i) l as'"
      unfolding cs_def ordered_expired(1) [OF o] using ordered_filter [OF o] by (rule ordered_cong) (use r' in auto)
    ultimately show ?thesis using r' l by auto
  qed
qed

section \<open>All runs of the server\<close>

text \<open>
  The states of a running server: it starts, the poll loop takes its turns and handles
  events, and between events any goroutine may write to a connection and flush it.
\<close>

inductive serving :: "env \<Rightarrow> listener \<Rightarrow> bool" for E where
  serving_start: "Serve_start fd ssl timeout ep w = Some ln \<Longrightarrow> serving E ln"
| serving_turn: "serving E ln \<Longrightarrow> Wait_nil evs (ln_poll ln) = Some (calls, p, True) \<Longrightarrow> serving E (ln\<lparr>ln_poll := p\<rparr>)"
| serving_event: "serving E ln \<Longrightarrow> handle E fd ev i ln = Some ln' \<Longrightarrow> serving E ln'"
| serving_write: "serving E ln \<Longrightarrow> conn_Write d (store ln a) = Some (c, n, closed) \<Longrightarrow> serving E (put a c ln)"
| serving_flush: "serving E ln \<Longrightarrow> serving E (triggers (Flush (store ln a)) ln)"

lemma Serve_start_ok:
  assumes "Serve_start fd ssl timeout ep w = Some ln"
  shows "ln_ok ln []" and "balanced ln []"
proof -
  obtain p where p: "OpenPoll ep w = Some p" "on_poll (AddRead fd) (Listen fd ssl timeout p) = Some ln"
    using assms by (auto simp: Serve_start_def split: bind_splits)
  note a = on_poll_add(2) [OF p(2)]
  show "ln_ok ln []" unfolding a using pending_open [OF p(1)] by (auto simp: ln_inv_def Listen_def)
  show "balanced ln []" unfolding a by (simp add: balanced_def Listen_def)
qed

lemma Wait_turn_ok:
  assumes "ln_ok ln as" and "Wait_nil evs (ln_poll ln) = Some (calls, p, True)"
  shows "ln_ok (ln\<lparr>ln_poll := p\<rparr>) as"
proof -
  note k = Wait_turn_kept [OF assms(2) ln_invD(14) [OF assms(1)]]
  have "\<exists>fds. pending p fds" using k(1) by blast
  then show ?thesis using ln_invD [OF assms(1)] k(2) by (intro ln_invI) simp_all
qed

lemma serving_good: "serving E ln \<Longrightarrow> \<exists>as. ln_ok ln as \<and> balanced ln as"
proof (induction rule: serving.induct)
  case (serving_start fd ssl timeout ep w ln)
  then show ?case using Serve_start_ok by blast
next
  case (serving_turn ln evs calls p)
  then obtain as where "ln_ok ln as" "balanced ln as" by blast
  then show ?case using Wait_turn_ok [OF _ serving_turn(2)] by (intro exI [of _ as]) (simp add: balanced_def)
next
  case (serving_event ln fd ev i ln')
  then show ?case using handle_good by blast
next
  case (serving_write ln d a c n closed)
  then obtain as where g: "ln_ok ln as" "balanced ln as" by blast
  have c: "conn_fd c = conn_fd (store ln a)" "conn_closed c = conn_closed (store ln a)" "conn_ts c = conn_ts (store ln a)" "lock c = lock (store ln a)"
    using serving_write(2) by (auto simp: conn_Write_def spinLock_def spinUnlock_def split: bind_splits if_splits)
  have "ln_inv (insert a {}) (put a c ln) as" by (rule quiet_inv [OF g(1) quiet_put]) (use c in simp_all)
  then have "ln_ok (put a c ln) as" by (rule ln_inv_unlocked) (use ln_invD(5) [OF g(1), of a] c(4) in auto)
  moreover have "balanced (put a c ln) as" by (rule balanced_cong [OF g(2)]) (use c in auto)
  ultimately show ?case by blast
next
  case (serving_flush ln a)
  then obtain as where g: "ln_ok ln as" "balanced ln as" by blast
  have "ln_inv (insert a {}) (triggers (Flush (store ln a)) ln) as" by (rule quiet_inv [OF g(1) quiet_triggers])
  then have "ln_ok (triggers (Flush (store ln a)) ln) as" by (rule ln_inv_unlocked) (use ln_invD(5) [OF g(1), of a] in auto)
  moreover have "balanced (triggers (Flush (store ln a)) ln) as" by (rule balanced_cong [OF g(2)]) auto
  ultimately show ?case by blast
qed


section \<open>The connection list as a list\<close>

text \<open>
  The interface of a list ordered by use: \<open>detach\<close> takes an element out, \<open>attach\<close> puts it in
  front.
\<close>

locale lru_list =
  fixes represents :: "'s \<Rightarrow> nat list \<Rightarrow> bool" and detach_op :: "nat \<Rightarrow> 's \<Rightarrow> 's" and attach_op :: "nat \<Rightarrow> int \<Rightarrow> 's \<Rightarrow> 's"
    and valid :: "nat \<Rightarrow> bool"
  assumes detach_law: "represents s as \<Longrightarrow> a \<in> set as \<Longrightarrow> represents (detach_op a s) (remove1 a as)"
    and attach_law: "represents s as \<Longrightarrow> a \<notin> set as \<Longrightarrow> valid a \<Longrightarrow> represents (attach_op a t s) (a # as)"
    and represents_distinct: "represents s as \<Longrightarrow> distinct as"
    and represents_valid: "represents s as \<Longrightarrow> a \<in> set as \<Longrightarrow> valid a"
begin

lemma touch:
  assumes "represents s as" and "a \<in> set as"
  shows "represents (attach_op a t (detach_op a s)) (a # remove1 a as)"
  using attach_law [OF detach_law [OF assms]] represents_distinct [OF assms(1)] represents_valid [OF assms]
  by (simp add: set_remove1_eq)

lemma touches:
  assumes "represents s as" and "set ts \<subseteq> set as"
  shows "represents (fold (\<lambda>a s. attach_op a t (detach_op a s)) ts s) (fold (\<lambda>a as. a # remove1 a as) ts as)"
  using assms
proof (induction ts arbitrary: s as)
  case (Cons a ts)
  have "set (a # remove1 a as) = set as" using Cons.prems represents_distinct [OF Cons.prems(1)] by (auto simp: set_remove1_eq)
  then show ?case using Cons.IH [OF touch [OF Cons.prems(1)], of a] Cons.prems(2) by auto
qed simp

end

definition represents :: "listener \<Rightarrow> nat list \<Rightarrow> bool" where
  "represents ln as \<longleftrightarrow> linked (nexts ln) (prevs ln) (fdhead # as @ [fdtail]) \<and> distinct (fdhead # as @ [fdtail])"

interpretation lru: lru_list represents detach attachConn "\<lambda>a. a \<noteq> fdhead \<and> a \<noteq> fdtail"
proof
  fix s as a t assume r: "represents s as"
  then have d: "distinct (fdhead # as @ [fdtail])" by (simp add: represents_def)
  then show "distinct as" by simp
  show "a \<noteq> fdhead \<and> a \<noteq> fdtail" if "a \<in> set as" using d that by (cases "a = fdhead"; cases "a = fdtail") auto
  show "represents (detach a s) (remove1 a as)" if "a \<in> set as"
    using r detach_linked [OF _ _ that, of s] notin_set_remove1 [of _ as a] d unfolding represents_def by (auto simp: distinct_remove1)
  show "represents (attachConn a t s) (a # as)" if "a \<notin> set as" "a \<noteq> fdhead \<and> a \<noteq> fdtail"
    using r attach_linked [of s as a t] that d unfolding represents_def by auto
qed

section \<open>Properties\<close>

text \<open>
  C1: in every state a running server can reach, whatever the network, the handlers and the
  writing goroutines do, the list of connections, the descriptor map, the connection counter
  and the poller agree; no open connection is locked between events; and every descriptor
  that was ever accepted and became a connection is either open or was closed exactly once.
\<close>

theorem serving_invariant:
  assumes "serving E ln"
  shows "\<exists>as. ln_ok ln as \<and> balanced ln as"
  using assms by (rule serving_good)

text \<open>A server without handlers, and the system calls of an event in which a client connects.\<close>

definition quiet_env :: env where
  "quiet_env = \<lparr>e_url = (\<lambda>_. None), e_max = 1048576, e_http = default_OnHTTP, e_redis = default_OnRedis,
     e_wsdata = (\<lambda>_ c. Some (c, [])), e_close_ok = (\<lambda>_. True)\<rparr>"

definition sample_io :: "accept_result \<Rightarrow> read_result \<Rightarrow> int \<Rightarrow> io" where
  "sample_io acc rd now = \<lparr>io_accept = acc, io_write = WriteErr (- 1) EAGAIN, io_read = rd, io_reply = WriteErr (- 1) EAGAIN,
     io_now = now, io_sweep = now\<rparr>"

definition sample_start :: listener where
  "sample_start = the (Serve_start 5 False 100 (Some 3) (Some 4))"

definition sample_accepted :: listener where
  "sample_accepted = the (handle quiet_env 5 1 (sample_io (Accepted 7 True True) (ReadErr EAGAIN) 10) sample_start)"

lemma sample_start_eq: "Serve_start 5 False 100 (Some 3) (Some 4) = Some sample_start"
  unfolding sample_start_def by (simp add: Serve_start_def OpenPoll_def AddRead_def epoll_add_def on_poll_def Listen_def)

lemma sample_start_Timeout: "Timeout sample_start = 100" "ln_fd sample_start = 5" "ln_ssl sample_start = False" "free_addr sample_start = 2"
  unfolding sample_start_def by (simp_all add: Serve_start_def OpenPoll_def AddRead_def epoll_add_def on_poll_def Listen_def)

lemma sample_accepted_eq:
  "handle quiet_env 5 1 (sample_io (Accepted 7 True True) (ReadErr EAGAIN) 10) sample_start = Some sample_accepted"
  "ln_ok sample_accepted [2]" "ordered 10 sample_accepted [2]"
proof -
  have "\<exists>l. accept_conn (sample_io (Accepted 7 True True) (ReadErr EAGAIN) 10) sample_start = Some (l, True)"
    unfolding sample_start_def by (simp add: accept_conn_def sample_io_def Serve_start_def OpenPoll_def AddRead_def epoll_add_def on_poll_def Listen_def)
  then obtain l where l: "accept_conn (sample_io (Accepted 7 True True) (ReadErr EAGAIN) 10) sample_start = Some (l, True)" by blast
  note a = accept_inv [OF Serve_start_ok(1) [OF sample_start_eq] l]
  have ok: "ln_ok l [2]" and ts: "conn_ts (store l 2) = 10" and tm: "Timeout l = 100"
    using a(1,2,4) by (simp_all add: sample_start_Timeout sample_io_def)
  from sweep_result [OF ok, of quiet_env 10] obtain ln' where s: "sweep quiet_env 10 (prevs l fdtail) l = Some ln'"
    "ln_ok ln' [2]" "conn_ts (store ln' 2) = 10" by (auto simp: expired_def ts tm)
  have h: "handle quiet_env 5 1 (sample_io (Accepted 7 True True) (ReadErr EAGAIN) 10) sample_start = Some ln'"
    using l s(1) tm by (simp add: handle_def sample_start_Timeout sample_io_def)
  then have "sample_accepted = ln'" by (simp add: sample_accepted_def)
  then show "handle quiet_env 5 1 (sample_io (Accepted 7 True True) (ReadErr EAGAIN) 10) sample_start = Some sample_accepted"
    "ln_ok sample_accepted [2]" "ordered 10 sample_accepted [2]" using h s(2,3) by (simp_all add: ordered_def)
qed

theorem serving_invariant_witness: "\<exists>as. ln_ok sample_accepted as \<and> balanced sample_accepted as"
  by (rule serving_invariant [OF serving_event [OF serving_start [OF sample_start_eq] sample_accepted_eq(1)]])

text \<open>
  C23: the pointer operations of the connection list implement a plain list ordered by use.
  On the cells between the two sentinels, detaching removes a connection, attaching puts a
  new one in front, and serving connections in any order moves each one to the front.
\<close>

theorem connection_list_refines:
  assumes "represents ln as" and "a \<in> set as" and "b \<notin> set (fdhead # as @ [fdtail])" and "set ts \<subseteq> set as"
  shows "represents (detach a ln) (remove1 a as) \<and> represents (attachConn b now ln) (b # as) \<and>
    represents (fold (\<lambda>a ln. attachConn a now (detach a ln)) ts ln) (fold (\<lambda>a as. a # remove1 a as) ts as)"
  using lru.detach_law [OF assms(1,2)] lru.attach_law [OF assms(1)] lru.touches [OF assms(1,4)] assms(3) by auto

theorem connection_list_refines_witness:
  "represents (detach 2 (attachConn 3 0 (attachConn 2 0 sample_start))) (remove1 2 [3, 2]) \<and>
    represents (attachConn 4 9 (attachConn 3 0 (attachConn 2 0 sample_start))) [4, 3, 2] \<and>
    represents (fold (\<lambda>a ln. attachConn a 9 (detach a ln)) [2, 3, 2] (attachConn 3 0 (attachConn 2 0 sample_start)))
      (fold (\<lambda>a as. a # remove1 a as) [2, 3, 2] [3, 2])"
proof (rule connection_list_refines)
  have "represents sample_start []" using ln_invD(1,2) [OF Serve_start_ok(1) [OF sample_start_eq]] by (simp add: represents_def)
  from lru.attach_law [OF lru.attach_law [OF this, of 2 0], of 3 0]
  show "represents (attachConn 3 0 (attachConn 2 0 sample_start)) [3, 2]" by simp
qed simp_all

text \<open>
  C22: the connections stay sorted by the time of their last event, while the clock does not
  go back, whatever happens in an event.
\<close>

theorem handle_ordered:
  assumes "ln_ok ln as" and "ordered T ln as" and "T \<le> io_now i" and "handle E fd ev i ln = Some ln'"
  shows "\<exists>as'. ln_ok ln' as' \<and> ordered (io_now i) ln' as'"
  using handle_good [OF assms(1,4), of T] assms(2,3) by blast

theorem handle_ordered_witness: "\<exists>as'. ln_ok sample_accepted as' \<and> ordered 10 sample_accepted as'"
  using handle_ordered [OF Serve_start_ok(1) [OF sample_start_eq] _ _ sample_accepted_eq(1), of 0]
  by (simp add: ordered_def sample_io_def)

text \<open>
  C21: the timeout loop ends; on connections sorted by the time of their last event it closes
  exactly those that have been silent for longer than the timeout, each one once, the oldest
  first, and keeps the others in their order.
\<close>

theorem sweep_closes_expired:
  assumes "ln_ok ln as" and "ordered T ln as"
  shows "\<exists>ln' f. sweep E now (prevs ln fdtail) ln = Some ln' \<and>
     ln_ok ln' (filter (\<lambda>a. \<not> conn_ts (store ln a) < now - Timeout ln) as) \<and> fx ln' = fx ln @ f \<and>
     closes f = map (\<lambda>a. conn_fd (store ln a)) (rev (filter (\<lambda>a. conn_ts (store ln a) < now - Timeout ln) as))"
  using sweep_result [OF assms(1), of E now] unfolding ordered_expired [OF assms(2)] expired_def by blast

theorem sweep_closes_expired_witness:
  "\<exists>ln' f. sweep quiet_env 500 (prevs sample_accepted fdtail) sample_accepted = Some ln' \<and>
     ln_ok ln' (filter (\<lambda>a. \<not> conn_ts (store sample_accepted a) < 500 - Timeout sample_accepted) [2]) \<and> fx ln' = fx sample_accepted @ f \<and>
     closes f = map (\<lambda>a. conn_fd (store sample_accepted a))
       (rev (filter (\<lambda>a. conn_ts (store sample_accepted a) < 500 - Timeout sample_accepted) [2]))"
  by (rule sweep_closes_expired [OF sample_accepted_eq(2,3)])

end
