(* ===== verification/Listener_Ws.thy ===== *)
theory Listener_Ws
  imports Listener_Serve
begin

text \<open>
  A WebSocket session on the server: frames in the input buffer are taken one after the
  other (\<open>readConn\<close> from its label on, \<open>onWebsocket\<close>), messages are put together from their
  fragments and handed to the application.
\<close>

section \<open>Frames and messages\<close>

text \<open>A frame as the client sends it: final flag, operation code, form of its length, masking key and payload.\<close>

type_synonym cframe = "bool \<times> byte \<times> len_form \<times> bytes \<times> bytes"

fun cframe_bytes :: "cframe \<Rightarrow> bytes" where
  "cframe_bytes (f, op, form, key, p) = client_frame f op form key p"

fun cframe_ok :: "cframe \<Rightarrow> bool" where
  "cframe_ok (f, op, form, key, p) \<longleftrightarrow> op < 16 \<and> length key = 4 \<and> form_ok form (length p)"

text \<open>What matters of a frame to the receiver.\<close>

fun cframe_view :: "cframe \<Rightarrow> bool \<times> byte \<times> bytes" where
  "cframe_view (f, op, form, key, p) = (f, op, p)"

text \<open>
  A message as a list of fragments, each followed by control frames (ping and pong): the
  first fragment has the operation code of the message, the others 0, and the last one is
  final.
\<close>

type_synonym fragment = "bytes \<times> (byte \<times> bytes) list"

fun fragments :: "byte \<Rightarrow> fragment list \<Rightarrow> (bool \<times> byte \<times> bytes) list" where
  "fragments op [] = []"
| "fragments op ((p, cs) # fs) = (fs = [], op, p) # map (\<lambda>(c, d). (True, c, d)) cs @ fragments 0 fs"

definition message_ok :: "int \<Rightarrow> byte \<times> fragment list \<Rightarrow> bool" where
  "message_ok lim m \<longleftrightarrow> fst m \<notin> {0, 8, 9, 10} \<and> snd m \<noteq> [] \<and> int (length (concat (map fst (snd m)))) \<le> lim \<and>
     (\<forall>(p, cs)\<in>set (snd m). \<forall>(c, d)\<in>set cs. c \<in> {9, 10})"

abbreviation message_data :: "byte \<times> fragment list \<Rightarrow> bytes" where
  "message_data m \<equiv> concat (map fst (snd m))"

section \<open>Reassembly\<close>

text \<open>
  The messages a receiver delivers and the message it holds, as a function of the frames;
  \<open>None\<close> when a frame makes it close the connection.
\<close>

fun ws_session :: "int \<Rightarrow> bytes option \<Rightarrow> (bool \<times> byte \<times> bytes) list \<Rightarrow> (bytes list \<times> bytes option) option" where
  "ws_session lim cont [] = Some ([], cont)"
| "ws_session lim cont ((f, op, p) # fs) =
     (if op = 0 then
        (case cont of
           None \<Rightarrow> None
         | Some c \<Rightarrow>
             if int (length (c @ p)) > lim then None
             else if f then map_option (\<lambda>(ms, ct). ((c @ p) # ms, ct)) (ws_session lim None fs)
             else ws_session lim (Some (c @ p)) fs)
      else if op = 8 then None
      else if op = 9 \<or> op = 10 then ws_session lim cont fs
      else if f then map_option (\<lambda>(ms, ct). (p # ms, ct)) (ws_session lim cont fs)
      else ws_session lim (Some p) fs)"

lemma ws_session_control:
  "\<forall>(c, d)\<in>set cs. c \<in> {9, 10} \<Longrightarrow> ws_session lim cont (map (\<lambda>(c, d). (True, c, d)) cs @ fs) = ws_session lim cont fs"
  by (induction cs) auto

lemma ws_session_rest:
  assumes "fs \<noteq> []" and "\<forall>(p, cs)\<in>set fs. \<forall>(c, d)\<in>set cs. c \<in> {9, 10}" and "int (length (x @ concat (map fst fs))) \<le> lim"
  shows "ws_session lim (Some x) (fragments 0 fs @ rest) =
    map_option (\<lambda>(ms, ct). ((x @ concat (map fst fs)) # ms, ct)) (ws_session lim None rest)"
  using assms
proof (induction fs arbitrary: x)
  case (Cons f fs)
  obtain p cs where f: "f = (p, cs)" by (cases f)
  have c: "\<forall>(c, d)\<in>set cs. c \<in> {9, 10}" using Cons.prems(2) f by auto
  have l: "\<not> int (length (x @ p)) > lim" using Cons.prems(3) f by simp
  show ?case
  proof (cases "fs = []")
    case True
    then show ?thesis using f l ws_session_control [OF c, of lim None rest] by simp
  next
    case False
    then show ?thesis using Cons.IH [of "x @ p"] Cons.prems f l ws_session_control [OF c, of lim "Some (x @ p)"] by simp
  qed
qed simp

lemma ws_session_message:
  assumes "message_ok lim m"
  shows "ws_session lim None (fragments (fst m) (snd m) @ rest) =
    map_option (\<lambda>(ms, ct). (message_data m # ms, ct)) (ws_session lim None rest)"
proof -
  obtain p cs fs where s: "snd m = (p, cs) # fs" using assms by (cases "snd m") (auto simp: message_ok_def)
  have c: "\<forall>(c, d)\<in>set cs. c \<in> {9, 10}" using assms s by (auto simp: message_ok_def)
  have o: "fst m \<noteq> 0" "fst m \<noteq> 8" "fst m \<noteq> 9" "fst m \<noteq> 10" using assms by (auto simp: message_ok_def)
  show ?thesis
  proof (cases "fs = []")
    case True
    then show ?thesis using s o ws_session_control [OF c, of lim None rest] by simp
  next
    case False
    have "ws_session lim (Some p) (fragments 0 fs @ rest) = map_option (\<lambda>(ms, ct). ((p @ concat (map fst fs)) # ms, ct)) (ws_session lim None rest)"
      using assms s False by (intro ws_session_rest) (auto simp: message_ok_def)
    then show ?thesis using s o False ws_session_control [OF c, of lim "Some p" "fragments 0 fs @ rest"] by simp
  qed
qed

lemma ws_session_messages:
  "list_all (message_ok lim) ms \<Longrightarrow>
   ws_session lim None (concat (map (\<lambda>m. fragments (fst m) (snd m)) ms)) = Some (map message_data ms, None)"
  by (induction ms) (simp_all add: ws_session_message)

section \<open>The server\<close>

definition messages :: "effect list \<Rightarrow> bytes list" where
  "messages fs = concat (map (\<lambda>e. case e of FxWSData fd d \<Rightarrow> [d] | _ \<Rightarrow> []) fs)"

lemma messages_simps [simp]: "messages [] = []" "messages (fs @ gs) = messages fs @ messages gs" "messages (FxWSData fd d # fs) = d # messages fs"
  by (simp_all add: messages_def)

text \<open>What is asked of the application: its handler returns, and does not close or drop the WebSocket.\<close>

definition ws_handler :: "env \<Rightarrow> bool" where
  "ws_handler E \<longleftrightarrow> (\<forall>d c. \<not> lock c \<longrightarrow> (\<exists>c' trs. e_wsdata E d c = Some (c', trs) \<and> conn_ws c' = conn_ws c))"

text \<open>A connection that waits for frames, holding part of a message.\<close>

definition ws_ready :: "nat \<Rightarrow> bytes option \<Rightarrow> listener \<Rightarrow> bool" where
  "ws_ready a cont ln \<longleftrightarrow> \<not> lock (store ln a) \<and>
     (\<exists>ws. conn_ws (store ln a) = Some ws \<and> \<not> ws_closed ws \<and> contFrame ws = cont)"

lemma callWSData_ready:
  assumes "ws_handler E" and "ws_ready a cont ln"
  shows "\<exists>ln'. callWSData E a d ln = Some ln' \<and> ws_ready a cont ln' \<and> messages (fx ln') = messages (fx ln) @ [d] \<and>
    conn_in (store ln' a) = conn_in (store ln a)"
proof -
  obtain c' trs where c: "e_wsdata E d (store ln a) = Some (c', trs)" "conn_ws c' = conn_ws (store ln a)"
    using assms unfolding ws_handler_def ws_ready_def by blast
  have "callWSData E a d ln = Some (triggers trs (put a (api (store ln a) c') (emit (FxWSData (conn_fd (store ln a)) d) ln)))"
    unfolding callWSData_def using c(1) by (simp add: Let_def)
  then show ?thesis using c(2) assms(2) by (auto simp: ws_ready_def)
qed

lemma onWebsocket_ready:
  assumes "ws_handler E" and "ws_ready a cont ln" and "ws_session (e_max E) cont ((fin req, opcode req, frame_data req) # fs) = Some (ms, ct)"
  shows "\<exists>ln' cont' ns ms'. onWebsocket E a req ln = Some (ln', True) \<and> ws_ready a cont' ln' \<and> messages (fx ln') = messages (fx ln) @ ns \<and>
    conn_in (store ln' a) = conn_in (store ln a) \<and> ws_session (e_max E) cont' fs = Some (ms', ct) \<and> ms = ns @ ms'"
proof -
  obtain ws where ws: "conn_ws (store ln a) = Some ws" "\<not> ws_closed ws" "contFrame ws = cont" "\<not> lock (store ln a)"
    using assms(2) by (auto simp: ws_ready_def)
  note eqs = onWebsocket_eqs [OF ws(1), of req, where E = E]
  have sc: "ws_ready a x (set_cont a x l)" "messages (fx (set_cont a x l)) = messages (fx l)" "conn_in (store (set_cont a x l) a) = conn_in (store l a)"
    if "ws_ready a y l" for x y l using that by (auto simp: ws_ready_def)
  consider (cont) "opcode req = 0" | (ping) "opcode req = 9" | (pong) "opcode req = 10"
    | (last) "opcode req \<notin> {0, 8, 9, 10}" "fin req" | (first) "opcode req \<notin> {0, 8, 9, 10}" "\<not> fin req"
    using assms(3) by (auto split: if_splits)
  then show ?thesis
  proof cases
    case cont
    then obtain c where c: "cont = Some c" "\<not> e_max E < int (length (c @ frame_data req))"
      using assms(3) by (auto split: option.splits if_splits)
    have cf: "contFrame ws = Some c" using ws(3) c(1) by simp
    define l where "l = set_cont a (Some (c @ frame_data req)) ln"
    note s = sc [OF assms(2), of "Some (c @ frame_data req)", folded l_def]
    show ?thesis
    proof (cases "fin req")
      case True
      obtain l2 where l2: "callWSData E a (c @ frame_data req) l = Some l2" "ws_ready a (Some (c @ frame_data req)) l2"
         "messages (fx l2) = messages (fx l) @ [c @ frame_data req]" "conn_in (store l2 a) = conn_in (store l a)"
        using callWSData_ready [OF assms(1) s(1)] by blast
      have "onWebsocket E a req ln = Some (set_cont a None l2, True)"
        unfolding eqs(2) [OF cont cf] l_def [symmetric] using c(2) True l2(1) by simp
      moreover obtain ms' where "ws_session (e_max E) None fs = Some (ms', ct)" "ms = (c @ frame_data req) # ms'"
        using assms(3) cont c True by auto
      ultimately show ?thesis using sc [OF l2(2), of None] l2(3,4) s(2,3)
        by (intro exI [of _ "set_cont a None l2"] exI [of _ None] exI [of _ "[c @ frame_data req]"] exI [of _ ms']) simp
    next
      case False
      have "onWebsocket E a req ln = Some (l, True)" unfolding eqs(2) [OF cont cf] l_def [symmetric] using c(2) False by simp
      then show ?thesis using s assms(3) cont c False
        by (intro exI [of _ l] exI [of _ "Some (c @ frame_data req)"] exI [of _ "[]"] exI [of _ ms]) simp
    qed
  next
    case ping
    have "\<exists>c' trs. ws_write 10 (frame_data req) (store ln a) = Some (c', trs) \<and> conn_ws c' = conn_ws (store ln a) \<and> \<not> lock c' \<and>
        conn_in c' = conn_in (store ln a)"
      using ws(4) by (cases "conn_closed (store ln a)") (auto simp: ws_write_def conn_Write_def spinLock_def spinUnlock_def)
    then obtain c' trs where c: "ws_write 10 (frame_data req) (store ln a) = Some (c', trs)" "conn_ws c' = conn_ws (store ln a)" "\<not> lock c'"
        "conn_in c' = conn_in (store ln a)" by blast
    have "onWebsocket E a req ln = Some (triggers trs (put a c' ln), True)" unfolding eqs(4) [OF ping] using c(1) by simp
    then show ?thesis using c ws assms(3) ping
      by (intro exI [of _ "triggers trs (put a c' ln)"] exI [of _ cont] exI [of _ "[]"] exI [of _ ms]) (simp add: ws_ready_def)
  next
    case pong
    then show ?thesis using eqs(5) [OF pong] assms(2,3)
      by (intro exI [of _ ln] exI [of _ cont] exI [of _ "[]"] exI [of _ ms]) simp
  next
    case last
    obtain l2 where l2: "callWSData E a (frame_data req) ln = Some l2" "ws_ready a cont l2"
       "messages (fx l2) = messages (fx ln) @ [frame_data req]" "conn_in (store l2 a) = conn_in (store ln a)"
      using callWSData_ready [OF assms(1,2)] by blast
    obtain ms' where "ws_session (e_max E) cont fs = Some (ms', ct)" "ms = frame_data req # ms'"
      using assms(3) last by auto
    then show ?thesis using l2 unfolding eqs(6) [OF last]
      by (intro exI [of _ l2] exI [of _ cont] exI [of _ "[frame_data req]"] exI [of _ ms']) simp
  next
    case first
    then show ?thesis using eqs(7) [OF first] sc [OF assms(2), of "Some (frame_data req)"] assms(3)
      by (intro exI [of _ "set_cont a (Some (frame_data req)) ln"] exI [of _ "Some (frame_data req)"] exI [of _ "[]"] exI [of _ ms]) simp
  qed
qed


text \<open>One frame of the buffer: parsed, cut off the buffer and given to \<open>onWebsocket\<close>.\<close>

lemma parse_next_frame:
  assumes "ws_handler E" and "ws_ready a cont ln" and "cframe_ok f" and "conn_in (store ln a) @ buf = cframe_bytes f @ rest"
    and "int (length (cframe_bytes f @ rest)) \<le> e_max E" and "ws_session (e_max E) cont (cframe_view f # fs) = Some (ms, ct)"
  shows "\<exists>ln' cont' ns ms'. parse_next E a buf wr ln = (if rest = [] then finish_read E a wr ln' else parse_next E a [] wr ln') \<and>
    ws_ready a cont' ln' \<and> messages (fx ln') = messages (fx ln) @ ns \<and> conn_in (store ln' a) = rest \<and>
    ws_session (e_max E) cont' fs = Some (ms', ct) \<and> ms = ns @ ms'"
proof -
  obtain is_fin op form key p where f: "f = (is_fin, op, form, key, p)" by (cases f)
  let ?c = "store ln a" and ?b = "client_frame is_fin op form key p"
  obtain ws where ws: "conn_ws ?c = Some ws" "\<not> ws_closed ws" "contFrame ws = cont" "\<not> lock ?c"
    using assms(2) by (auto simp: ws_ready_def)
  define req where "req = \<lparr>frame_data = p, opcode = op, fin = is_fin, frame_len = int (length ?b)\<rparr>"
  obtain inp where inp: "ws_parse ws (?b @ rest) = Some (ws\<lparr>parsedFrame := req\<rparr>, inp, None)"
      "length inp = length ?b + length rest" "drop (length ?b) inp = rest"
    using ws_parse_frame [of op key form p ws is_fin rest] assms(3) by (auto simp: f req_def)
  define c where "c = ?c\<lparr>conn_ws := Some (ws\<lparr>parsedFrame := req\<rparr>), conn_in := inp\<rparr>"
  define d where "d = c\<lparr>conn_in := rest\<rparr>"
  have ld: "ws_ready a cont (put a d ln)" using ws by (simp add: ws_ready_def d_def c_def)
  have p: "run_parser E (?c\<lparr>lock := True, conn_in := ?b @ rest\<rparr>) = Some (c\<lparr>lock := True\<rparr>, None)"
    using ws inp by (simp add: run_parser_def c_def)
  have i: "inp = take (length ?b) inp @ rest" unfolding inp(3) [symmetric] by simp
  have t: "truncateInputBuffer (int (length ?b)) c = Some (d, length rest)"
    unfolding d_def using ws(4) i inp(2) by (intro truncate_prefix [of _ "take (length ?b) inp"]) (simp_all add: c_def)
  obtain ln' cont' ns ms' where o: "onWebsocket E a req (put a d ln) = Some (ln', True)" "ws_ready a cont' ln'"
      "messages (fx ln') = messages (fx (put a d ln)) @ ns" "conn_in (store ln' a) = conn_in (store (put a d ln) a)"
      "ws_session (e_max E) cont' fs = Some (ms', ct)" "ms = ns @ ms'"
    using onWebsocket_ready [OF assms(1) ld, of req fs ms ct] assms(6) by (auto simp: f req_def)
  have u: "spinUnlock (c\<lparr>lock := True\<rparr>) = c" using ws(4) by (simp add: spinUnlock_def c_def)
  have pp: "put a d (put a c ln) = put a d ln" by (simp add: put_def)
  have w: "conn_ws c = Some (ws\<lparr>parsedFrame := req\<rparr>)" "frame_len req = int (length ?b)" by (simp_all add: c_def req_def)
  have b: "conn_in ?c @ buf = ?b @ rest" "\<not> e_max E < int (length (conn_in ?c @ buf))" using assms(4,5) by (simp_all add: f)
  have lk: "spinLock ?c = Some (?c\<lparr>lock := True\<rparr>)" using ws(4) by (simp add: spinLock_def)
  have "parse_next E a buf wr ln = (if rest = [] then finish_read E a wr ln' else parse_next E a [] wr ln')"
    by (subst parse_next.simps) (simp add: Let_def lk b(1) b(2) [simplified] p u w t pp o(1))
  then show ?thesis using o by (intro exI [of _ ln'] exI [of _ cont'] exI [of _ ns] exI [of _ ms']) (simp add: d_def)
qed

text \<open>What may be left behind the last complete frame.\<close>

definition cframe_part :: "bytes \<Rightarrow> bool" where
  "cframe_part q \<longleftrightarrow> q = [] \<or> (\<exists>f r. cframe_ok f \<and> q @ r = cframe_bytes f \<and> r \<noteq> [])"

lemma parse_next_part:
  assumes "ws_ready a cont ln" and "cframe_part q" and "q \<noteq> []" and "conn_in (store ln a) @ buf = q" and "int (length q) \<le> e_max E"
  shows "\<exists>l. parse_next E a buf wr ln = Some l \<and> ws_ready a cont l \<and> fx l = fx ln \<and> conn_in (store l a) = q"
proof -
  let ?c = "store ln a"
  obtain ws where ws: "conn_ws ?c = Some ws" "\<not> ws_closed ws" "contFrame ws = cont" "\<not> lock ?c"
    using assms(1) by (auto simp: ws_ready_def)
  obtain is_fin op form key p r where "cframe_ok (is_fin, op, form, key, p)" "q @ r = client_frame is_fin op form key p" "r \<noteq> []"
    using assms(2,3) unfolding cframe_part_def by auto
  then have w: "ws_parse ws q = Some (ws, q, Some ErrWaitMore)" using ws_parse_partial [of op key form p q r is_fin ws] by simp
  let ?d = "?c\<lparr>conn_in := q\<rparr>"
  have p: "run_parser E (?c\<lparr>lock := True, conn_in := q\<rparr>) = Some (?d\<lparr>lock := True\<rparr>, Some ErrWaitMore)"
    using ws w by (simp add: run_parser_def)
  have u: "spinUnlock (?d\<lparr>lock := True\<rparr>) = ?d" using ws(4) by (simp add: spinUnlock_def)
  have lk: "spinLock ?c = Some (?c\<lparr>lock := True\<rparr>)" using ws(4) by (simp add: spinLock_def)
  have b: "\<not> e_max E < int (length (conn_in ?c @ buf))" using assms(4,5) by simp
  have "parse_next E a buf wr ln = Some (put a ?d ln)"
    by (subst parse_next.simps) (simp add: Let_def lk assms(4) b [simplified] p [simplified] u [simplified])
  then show ?thesis using ws by (simp add: ws_ready_def)
qed

lemma parse_next_frames:
  assumes "ws_handler E" and "list_all cframe_ok fs" and "cframe_part q" and "fs \<noteq> [] \<or> q \<noteq> []" and "ws_ready a cont ln"
    and "conn_in (store ln a) @ buf = concat (map cframe_bytes fs) @ q" and "int (length (concat (map cframe_bytes fs) @ q)) \<le> e_max E"
    and "ws_session (e_max E) cont (map cframe_view fs) = Some (ms, ct)"
  shows "\<exists>l. parse_next E a buf wr ln = (if q = [] then finish_read E a wr l else Some l) \<and> ws_ready a ct l \<and>
    messages (fx l) = messages (fx ln) @ ms \<and> conn_in (store l a) = q"
  using assms(2,4-)
proof (induction fs arbitrary: cont ln buf ms)
  case Nil
  then show ?case using parse_next_part [OF Nil(3) assms(3), of buf E wr] by auto
next
  case (Cons f fs)
  define rest where "rest = concat (map cframe_bytes fs) @ q"
  have f: "cframe_ok f" "list_all cframe_ok fs" using Cons.prems(1) by auto
  have b: "conn_in (store ln a) @ buf = cframe_bytes f @ rest" "int (length (cframe_bytes f @ rest)) \<le> e_max E"
    using Cons.prems(4,5) by (simp_all add: rest_def)
  obtain l cont' ns ms' where l: "parse_next E a buf wr ln = (if rest = [] then finish_read E a wr l else parse_next E a [] wr l)"
      "ws_ready a cont' l" "messages (fx l) = messages (fx ln) @ ns" "conn_in (store l a) = rest"
      "ws_session (e_max E) cont' (map cframe_view fs) = Some (ms', ct)" "ms = ns @ ms'"
    using parse_next_frame [OF assms(1) Cons.prems(3) f(1) b, of "map cframe_view fs" ms ct wr] Cons.prems(6) by auto
  show ?case
  proof (cases "fs = [] \<and> q = []")
    case True
    then show ?thesis using l by (intro exI [of _ l]) (simp add: rest_def)
  next
    case False
    have n: "rest \<noteq> []" using False f(2) by (cases fs) (auto simp: rest_def client_frame_def frame_prefix_def)
    have "\<exists>l'. parse_next E a [] wr l = (if q = [] then finish_read E a wr l' else Some l') \<and> ws_ready a ct l' \<and>
        messages (fx l') = messages (fx l) @ ms' \<and> conn_in (store l' a) = q"
      using False f(2) l b(2) by (intro Cons.IH) (simp_all add: rest_def)
    then show ?thesis using l(1,3,6) n by auto
  qed
qed

text \<open>
  C11: bytes of a WebSocket client, read by the server in one go or added to what it has
  buffered, that consist of whole masked frames and perhaps the beginning of another one: when the frames
  are messages, cut into fragments in any way with pings and pongs between them, the loop of
  \<open>readConn\<close> ends, the handler of the application has been called with exactly these
  messages, in order and each put together from its fragments, the connection stays open for
  more, and the beginning of the next frame is what is left in the input buffer.
\<close>

theorem ws_session_delivers:
  assumes "ws_handler E" and "list_all (message_ok (e_max E)) ms" and "map cframe_view fs = concat (map (\<lambda>m. fragments (fst m) (snd m)) ms)"
    and "list_all cframe_ok fs" and "cframe_part q" and "fs \<noteq> [] \<or> q \<noteq> []"
    and "ws_ready a None ln" and "conn_in (store ln a) @ buf = concat (map cframe_bytes fs) @ q"
    and "int (length (concat (map cframe_bytes fs) @ q)) \<le> e_max E"
  shows "\<exists>l. parse_next E a buf wr ln = (if q = [] then finish_read E a wr l else Some l) \<and> ws_ready a None l \<and>
    messages (fx l) = messages (fx ln) @ map message_data ms \<and> conn_in (store l a) = q"
  using assms ws_session_messages [OF assms(2)] by (intro parse_next_frames) auto

definition sample_session :: listener where
  "sample_session = put 2 ((new_conn 7 False)\<lparr>conn_ws := Some new_websocket, conn_in := [0x01]\<rparr>) sample_start"

definition sample_message :: "byte \<times> fragment list" where
  "sample_message = (1, [(bs ''he'', [(9, bs ''?'')]), (bs ''llo'', [])])"

definition sample_frames :: "cframe list" where
  "sample_frames = [(False, 1, Len7, [1, 2, 3, 4], bs ''he''), (True, 9, Len16, [0, 0, 0, 0], bs ''?''), (True, 0, Len64, [5, 6, 7, 8], bs ''llo'')]"

theorem ws_session_delivers_witness:
  "\<exists>l. parse_next quiet_env 2 (tl (concat (map cframe_bytes sample_frames)) @ [0x81]) (Wrote 0) sample_session =
      (if [0x81::byte] = [] then finish_read quiet_env 2 (Wrote 0) l else Some l) \<and> ws_ready 2 None l \<and>
    messages (fx l) = messages (fx sample_session) @ map message_data [sample_message] \<and> conn_in (store l 2) = [0x81]"
proof (rule ws_session_delivers [where fs = sample_frames])
  show "ws_handler quiet_env" by (simp add: ws_handler_def quiet_env_def)
  have "[0x81] @ (tl (client_frame True 1 Len7 [0, 0, 0, 0] [])) = client_frame True 1 Len7 [0, 0, 0, 0] []"
    by (simp add: client_frame_def frame_prefix_def)
  moreover have "tl (client_frame True 1 Len7 [0, 0, 0, 0] []) \<noteq> []" by (simp add: client_frame_def frame_prefix_def)
  ultimately show "cframe_part [0x81]" unfolding cframe_part_def
    by (intro disjI2 exI [of _ "(True, 1, Len7, [0, 0, 0, 0], [])"] exI [of _ "tl (client_frame True 1 Len7 [0, 0, 0, 0] [])"]) simp
  show "conn_in (store sample_session 2) @ tl (concat (map cframe_bytes sample_frames)) @ [0x81] = concat (map cframe_bytes sample_frames) @ [0x81]"
    by (simp add: sample_session_def sample_frames_def client_frame_def frame_prefix_def)
qed (simp_all add: sample_session_def sample_frames_def sample_message_def message_ok_def ws_ready_def new_conn_def new_websocket_def quiet_env_def
      bs_def client_frame_def frame_prefix_def)

end
