(* ===== verification/Listener_Http.thy ===== *)
theory Listener_Http
  imports Listener_Serve
begin

text \<open>
  Requests from the socket to the answer: the reads that make up a request, the call of the
  handler and the write of what it answered, for RESP commands and HTTP requests on one
  connection.
\<close>

section \<open>What the parser takes\<close>

lemma redis_taken:
  assumes "process_redis s xs = Some (s', xs', e)"
  shows "xs' = xs \<and> srs_http s' = srs_http s \<and> (e = None \<longrightarrow> (\<exists>r. srs_redis s' = Some r \<and> length (redis_data r) \<le> length xs))"
  using assms by (auto simp: process_redis_def gslice_Some_iff split: bind_splits option.splits if_splits)

lemma body_taken:
  assumes "process_body s xs = Some (s', xs', e)"
  shows "xs' = xs \<and> (e = None \<longrightarrow> (\<exists>h. srs_http s' = Some h \<and> length (http_data h) \<le> length xs))"
  using assms by (auto simp: process_body_def Let_def split: bind_splits option.splits if_splits)

lemma head_taken:
  assumes "process_head u m s xs = Some (s', xs', e)"
  shows "length xs' = length xs \<and> (e = None \<longrightarrow> (\<exists>h. srs_http s' = Some h \<and> length (http_data h) \<le> length xs))"
proof (cases "bindex (crlf @ crlf) xs")
  case None
  then show ?thesis using assms by (auto simp: process_head_def)
next
  case (Some idx)
  obtain h where h: "srs_http s = Some h" using assms Some by (cases "srs_http s") (simp_all add: process_head_def)
  obtain h' err where p: "http_parse u m (h\<lparr>http_data := take (idx + 4) xs\<rparr>) = Some (h', err)" "length (http_data h') = idx + 4"
    using head_parse_total(1) [OF Some, of u m h] by blast
  have l: "length (http_data h' @ drop (idx + 4) xs) = length xs" "length (http_data h') \<le> length xs"
    using p(2) head_parse_total(2) [OF Some] by simp_all
  then show ?thesis using assms Some h p(1) body_taken [of "s\<lparr>srs_http := Some h', stage := 7\<rparr>" "http_data h' @ drop (idx + 4) xs" s' xs' e]
    by (auto simp: process_head_def Let_def split: option.splits if_splits)
qed

text \<open>The bytes of the request a parser state has completed.\<close>

definition request_data :: "server_read_state \<Rightarrow> bytes" where
  "request_data s = (case srs_http s of Some h \<Rightarrow> http_data h
     | None \<Rightarrow> (case srs_redis s of Some r \<Rightarrow> redis_data r | None \<Rightarrow> []))"

lemma process_taken:
  assumes "process u m new_srs xs = Some (s', xs', e)"
  shows "length xs' = length xs \<and> (e = None \<longrightarrow> length (request_data s') \<le> length xs)"
proof -
  obtain num w err where r: "readByteAndNumberCrLf 42 xs = Some (num, w, err)"
    using readByteAndNumberCrLf_total [of 42 xs] by (cases "readByteAndNumberCrLf 42 xs") auto
  show ?thesis
  proof (cases "err = None \<and> (w = 0 \<or> num \<le> 65535)")
    case False
    then show ?thesis using assms r by (cases err) (auto simp: process_def new_srs_def)
  next
    case True
    have eq: "process_stage u m (enter new_srs num w) xs = Some (s', xs', e)"
      using process_stage0 [of new_srs xs num w u m] r True assms by (simp add: new_srs_def)
    show ?thesis
    proof (cases "w = 0")
      case True
      then show ?thesis using eq head_taken [of u m "enter new_srs num w" xs s' xs' e]
        by (auto simp: process_stage_def enter_def request_data_def)
    next
      case False
      then show ?thesis using eq redis_taken [of "enter new_srs num w" xs s' xs' e]
        by (auto simp: process_stage_def enter_def request_data_def new_srs_def)
    qed
  qed
qed

section \<open>Reads that wait, and the read that completes a request\<close>

abbreviation received :: "nat \<Rightarrow> server_read_state \<Rightarrow> bytes \<Rightarrow> listener \<Rightarrow> listener" where
  "received a s inp ln \<equiv> put a ((store ln a)\<lparr>conn_srs := s, conn_in := inp\<rparr>) ln"

text \<open>A complete request goes to the handler of its protocol.\<close>

definition serve_request :: "env \<Rightarrow> nat \<Rightarrow> server_read_state \<Rightarrow> write_result \<Rightarrow> listener \<Rightarrow> listener option" where
  "serve_request E a s wr ln = (case srs_http s of Some req \<Rightarrow> serve_http E a req wr ln
     | None \<Rightarrow> do { req \<leftarrow> srs_redis s; serve_redis E a req wr ln })"

lemma parse_next_process:
  assumes "\<not> lock (store ln a)" and "conn_ws (store ln a) = None" and "int (length (conn_in (store ln a) @ buf)) \<le> e_max E"
    and "process (e_url E) (e_max E) (conn_srs (store ln a)) (conn_in (store ln a) @ buf) = Some (s, inp, e)"
    and "e = None \<or> e = Some ErrWaitMore"
  shows "parse_next E a buf wr ln =
    (if e = None then serve_request E a s wr (received a s inp ln) else Some (received a s inp ln))"
proof -
  let ?c = "store ln a"
  have lk: "spinLock ?c = Some (?c\<lparr>lock := True\<rparr>)" using assms(1) by (simp add: spinLock_def)
  have p: "run_parser E (?c\<lparr>lock := True, conn_in := conn_in ?c @ buf\<rparr>) =
      Some (?c\<lparr>conn_srs := s, conn_in := inp, lock := True\<rparr>, e)"
    using assms(2,4) by (simp add: run_parser_def)
  have u: "spinUnlock (?c\<lparr>conn_srs := s, conn_in := inp, lock := True\<rparr>) = ?c\<lparr>conn_srs := s, conn_in := inp\<rparr>"
    using assms(1) by (simp add: spinUnlock_def)
  have b: "\<not> e_max E < int (length (conn_in ?c)) + int (length buf)" using assms(3) by simp
  show ?thesis using assms(2,5)
    by (subst parse_next.simps) (auto simp: Let_def lk b p [simplified] u [simplified] serve_request_def split: option.split)
qed

abbreviation reads :: "env \<Rightarrow> nat \<Rightarrow> write_result \<Rightarrow> bytes list \<Rightarrow> listener \<Rightarrow> listener option" where
  "reads E a wr segs ln \<equiv> fold (\<lambda>d l. l \<bind> readConn E a (ReadN d) wr) segs (Some ln)"

lemma reads_parsed:
  assumes "\<not> lock (store ln a)" and "conn_ws (store ln a) = None" and "segs \<noteq> []" and "[] \<notin> set segs"
    and "\<And>ys. process (e_url E) (e_max E) (conn_srs (store ln a)) (conn_in (store ln a) @ ys) =
           process (e_url E) (e_max E) new_srs (xs @ ys)"
    and "srs_inv (conn_srs (store ln a)) (conn_in (store ln a))" and "length (conn_in (store ln a)) = length xs"
    and "process (e_url E) (e_max E) new_srs (xs @ concat segs) = Some (s, inp, None)"
    and "length xs + length (concat (butlast segs)) < length (request_data s)"
    and "int (length xs + length (concat segs)) \<le> e_max E"
  shows "reads E a wr segs ln = serve_request E a s wr (received a s inp ln)"
  using assms
proof (induction segs arbitrary: ln xs)
  case (Cons d segs)
  let ?c = "store ln a" and ?p = "process (e_url E) (e_max E)"
  have d: "d \<noteq> []" using Cons.prems(4) by auto
  have sz: "int (length (conn_in ?c @ d)) \<le> e_max E" using Cons.prems(7,10) by simp
  have rd: "readConn E a (ReadN d) wr ln = parse_next E a d wr ln" using d by (simp add: readConn_def)
  show ?case
  proof (cases "segs = []")
    case True
    then have "?p (conn_srs ?c) (conn_in ?c @ d) = Some (s, inp, None)" using Cons.prems(5,8) by simp
    then show ?thesis using True rd parse_next_process [OF Cons.prems(1,2) sz] by simp
  next
    case False
    have e: "?p (conn_srs ?c) (conn_in ?c @ d) = ?p new_srs (xs @ d)" by (rule Cons.prems(5))
    have inv: "srs_inv new_srs (xs @ d)" by (simp add: srs_inv_def new_srs_def)
    have lt: "length (xs @ d) < length (request_data s)" using Cons.prems(9) False by simp
    have "\<exists>s1 inp1. ?p new_srs (xs @ d) = Some (s1, inp1, Some ErrWaitMore)"
    proof (cases "?p new_srs (xs @ d)")
      case None
      then show ?thesis using srs.panic_stable [OF inv None, of "concat segs"] Cons.prems(8) by simp
    next
      case (Some x)
      obtain s1 inp1 e1 where x: "x = (s1, inp1, e1)" by (cases x)
      have "e1 = Some ErrWaitMore"
      proof (rule ccontr)
        assume n: "e1 \<noteq> Some ErrWaitMore"
        from srs.stable [OF inv Some [unfolded x] n, of "concat segs"] Cons.prems(8) have "e1 = None" "s1 = s" by simp_all
        then show False using process_taken [OF Some [unfolded x]] lt by simp
      qed
      then show ?thesis using Some x by simp
    qed
    then obtain s1 inp1 where w: "?p new_srs (xs @ d) = Some (s1, inp1, Some ErrWaitMore)" by blast
    define l1 where "l1 = received a s1 inp1 ln"
    have n: "readConn E a (ReadN d) wr ln = Some l1"
      unfolding rd l1_def using parse_next_process [OF Cons.prems(1,2) sz, of s1 inp1 "Some ErrWaitMore" wr] e w by simp
    have c1: "store l1 a = ?c\<lparr>conn_srs := s1, conn_in := inp1\<rparr>" "put a z l1 = put a z ln" for z by (simp_all add: l1_def put_def)
    have "reads E a wr segs l1 = serve_request E a s wr (received a s inp l1)"
    proof (rule Cons.IH [where xs = "xs @ d"])
      show "?p (conn_srs (store l1 a)) (conn_in (store l1 a) @ ys) = ?p new_srs ((xs @ d) @ ys)" for ys
        using srs.resume [OF inv w, of ys] by (simp add: c1)
      show "srs_inv (conn_srs (store l1 a)) (conn_in (store l1 a))" using srs.inv_step [OF inv w] by (simp add: c1)
      show "length (conn_in (store l1 a)) = length (xs @ d)" using process_taken [OF w] by (simp add: c1)
    qed (use Cons.prems False in \<open>simp_all add: c1\<close>)
    then show ?thesis using n by (simp add: c1)
  qed
qed simp

section \<open>Conversations\<close>

text \<open>A connection between two requests: nothing to write, the parser at its start, registered with the poller.\<close>

definition between :: "nat \<Rightarrow> bytes \<Rightarrow> listener \<Rightarrow> bool" where
  "between a inp ln \<longleftrightarrow> \<not> lock (store ln a) \<and> \<not> conn_closed (store ln a) \<and> conn_ws (store ln a) = None \<and> conn_srs (store ln a) = new_srs \<and>
     conn_out (store ln a) = [] \<and> conn_in (store ln a) = inp \<and> interest (ln_poll ln) (conn_fd (store ln a)) \<noteq> None"

text \<open>The reply is written and accepted whole by the kernel, and the connection waits for the next request.\<close>

lemma finish_read_wrote:
  assumes "\<not> lock (store ln a)" and "\<not> (\<exists>ws. conn_ws (store ln a) = Some ws \<and> ws_closed ws)" and "conn_out (store ln a) \<noteq> []"
    and "interest (ln_poll ln) (conn_fd (store ln a)) \<noteq> None"
  shows "\<exists>l. finish_read E a (Wrote (length (conn_out (store ln a)))) ln = Some l \<and>
    store l a = (store ln a)\<lparr>conn_srs := new_srs, conn_out := []\<rparr> \<and> interest (ln_poll l) (conn_fd (store ln a)) \<noteq> None \<and>
    fx l = fx ln @ [FxWrite (conn_fd (store ln a)) (conn_out (store ln a))]"
proof -
  have w: "\<not> (case conn_ws (store ln a) of None \<Rightarrow> False | Some ws \<Rightarrow> ws_closed ws)" using assms(2) by (auto split: option.split)
  show ?thesis using assms(1,3,4) w
    by (auto simp: finish_read_def Let_def writeConn_def spinLock_def spinUnlock_def sent_def emit_def on_poll_def ModRead_def epoll_mod_def
      intro!: conn.equality)
qed

definition outputs :: "effect list \<Rightarrow> bytes list" where
  "outputs fs = concat (map (\<lambda>e. case e of FxWrite fd d \<Rightarrow> [d] | _ \<Rightarrow> []) fs)"

lemma outputs_simps [simp]:
  "outputs [] = []" "outputs (fs @ gs) = outputs fs @ outputs gs" "outputs (FxWrite fd d # fs) = d # outputs fs"
  "outputs (FxRedis fd r # fs) = outputs fs" "outputs (FxHTTP fd h # fs) = outputs fs"
  by (simp_all add: outputs_def)

lemma butlast_short:
  assumes "segs \<noteq> []" and "concat segs = x @ y" and "length y < length (last segs)"
  shows "length (concat (butlast segs)) < length x"
proof -
  have "segs = butlast segs @ [last segs]" using assms(1) by simp
  then have "concat segs = concat (butlast segs) @ last segs" by (metis concat.simps concat_append append_Nil2)
  then have "length x + length y = length (concat (butlast segs)) + length (last segs)" using assms(2) by (metis length_append)
  then show ?thesis using assms(3) by simp
qed

text \<open>
  One exchange: the bytes of a request arrive in pieces, the last of which may carry bytes
  behind it; the handler answers, and the kernel takes the answer.
\<close>

definition arrives :: "bytes list \<Rightarrow> bytes \<Rightarrow> bytes \<Rightarrow> bool" where
  "arrives segs x rest \<longleftrightarrow> segs \<noteq> [] \<and> [] \<notin> set segs \<and> concat segs = x @ rest \<and> length rest < length (last segs)"

lemma triggers_none: "triggers [] ln = ln"
  by (simp add: triggers_def)

lemma request_served:
  assumes "between a [] ln" and "arrives segs x rest" and "int (length (concat segs)) \<le> e_max E"
    and "process (e_url E) (e_max E) new_srs (x @ rest) = Some (s, inp, None)" and "length (request_data s) = length x"
    and "\<And>wr. serve_request E a s wr (received a s inp ln) = finish_read E a wr
           (triggers trs (put a ((store ln a)\<lparr>conn_srs := s, conn_in := rest, conn_out := out, conn_ws := w\<rparr>) (emit e ln)))"
    and "outputs [e] = []" and "out \<noteq> []" and "\<not> (\<exists>ws. w = Some ws \<and> ws_closed ws)"
  shows "\<exists>l. reads E a (Wrote (length out)) segs ln = Some l \<and> store l a = (store ln a)\<lparr>conn_in := rest, conn_ws := w\<rparr> \<and>
    interest (ln_poll l) (conn_fd (store ln a)) \<noteq> None \<and> outputs (fx l) = outputs (fx ln) @ [out]"
proof -
  let ?c = "store ln a"
  have b: "\<not> lock ?c" "conn_ws ?c = None" "conn_srs ?c = new_srs" "conn_in ?c = []" "conn_out ?c = []"
    "interest (ln_poll ln) (conn_fd ?c) \<noteq> None" using assms(1) by (simp_all add: between_def)
  have g: "segs \<noteq> []" "[] \<notin> set segs" "concat segs = x @ rest" "length rest < length (last segs)" using assms(2) by (simp_all add: arrives_def)
  have r: "reads E a wr segs ln = serve_request E a s wr (received a s inp ln)" for wr
    by (rule reads_parsed [where xs = "[]"])
      (use b g assms(3-5) butlast_short [OF g(1,3,4)] in \<open>simp_all add: srs_inv_def new_srs_def\<close>)
  define l where "l = triggers trs (put a (?c\<lparr>conn_srs := s, conn_in := rest, conn_out := out, conn_ws := w\<rparr>) (emit e ln))"
  have l: "store l a = ?c\<lparr>conn_srs := s, conn_in := rest, conn_out := out, conn_ws := w\<rparr>" "fx l = fx ln @ [e]"
    "interest (ln_poll l) = interest (ln_poll ln)"
    by (simp_all add: l_def emit_def triggers_def fold_Trigger)
  have "outputs (e # fs) = outputs fs" for fs using assms(7) outputs_simps(2) [of "[e]" fs] by simp
  moreover have "?c\<lparr>conn_in := rest, conn_ws := w\<rparr> = (store l a)\<lparr>conn_srs := new_srs, conn_out := []\<rparr>"
    using b by (simp add: l)
  ultimately show ?thesis using r assms(6,8,9) b finish_read_wrote [of l a E] unfolding l_def [symmetric] by (auto simp: l)
qed

lemma request_answered:
  assumes "between a [] ln" and "arrives segs x rest" and "int (length (concat segs)) \<le> e_max E"
    and "process (e_url E) (e_max E) new_srs (x @ rest) = Some (s, inp, None)" and "length (request_data s) = length x"
    and "\<And>wr. serve_request E a s wr (received a s inp ln) =
           finish_read E a wr (put a ((store ln a)\<lparr>conn_srs := s, conn_in := rest, conn_out := out\<rparr>) (emit e ln))"
    and "outputs [e] = []" and "out \<noteq> []"
  shows "\<exists>l. reads E a (Wrote (length out)) segs ln = Some l \<and> between a rest l \<and> outputs (fx l) = outputs (fx ln) @ [out]"
proof -
  have b: "conn_ws (store ln a) = None" using assms(1) by (simp add: between_def)
  then have "(store ln a)\<lparr>conn_srs := s, conn_in := rest, conn_out := out, conn_ws := None\<rparr> = (store ln a)\<lparr>conn_srs := s, conn_in := rest, conn_out := out\<rparr>"
    by (auto intro!: conn.equality)
  then have "\<exists>l. reads E a (Wrote (length out)) segs ln = Some l \<and> store l a = (store ln a)\<lparr>conn_in := rest, conn_ws := None\<rparr> \<and>
      interest (ln_poll l) (conn_fd (store ln a)) \<noteq> None \<and> outputs (fx l) = outputs (fx ln) @ [out]"
    using assms by (intro request_served [where s = s and inp = inp and trs = "[]" and e = e]) (simp_all add: triggers_none)
  then show ?thesis using assms(1) by (auto simp: between_def)
qed

section \<open>Commands\<close>

text \<open>The application answers a command with a value computed from its arguments.\<close>

definition has_args :: "redis \<Rightarrow> bytes list \<Rightarrow> bool" where
  "has_args r args \<longleftrightarrow> Len r = length args \<and> (\<forall>i < length args. Get r (int i) = Some (args ! i))"

definition redis_app :: "env \<Rightarrow> (bytes list \<Rightarrow> resp) \<Rightarrow> bool" where
  "redis_app E f \<longleftrightarrow> (\<forall>r args c. has_args r args \<longrightarrow> e_redis E r c = map_option (\<lambda>c. (c, [], True)) (reply (f args) c))"

definition command_ok :: "bytes list \<Rightarrow> bool" where
  "command_ok args \<longleftrightarrow> length args \<le> 65535 \<and> length (resp_command args) < 2 ^ 32"

lemma command_answered:
  assumes "redis_app E f" and "command_ok args" and "between a [] ln" and "arrives segs (resp_command args) rest" and "int (length (concat segs)) \<le> e_max E"
  shows "\<exists>l. reads E a (Wrote (length (resp_enc (f args)))) segs ln = Some l \<and> between a rest l \<and> outputs (fx l) = outputs (fx ln) @ [resp_enc (f args)]"
proof -
  let ?c = "store ln a" and ?cmd = "resp_command args"
  obtain s r where p: "process (e_url E) (e_max E) new_srs (?cmd @ rest) = Some (s, ?cmd @ rest, None)"
    "srs_http s = None" "srs_redis s = Some r" "redis_data r = ?cmd" "unat (redis_read r) = length ?cmd" "has_args r args"
    using command_parsed [of args "e_url E" "e_max E" rest] assms(2) unfolding has_args_def command_ok_def by blast
  define c where "c = ?c\<lparr>conn_srs := s, conn_in := rest\<rparr>"
  have b: "\<not> lock ?c" "conn_out ?c = []" "\<not> lock c" "\<not> conn_closed c" using assms(3) by (simp_all add: between_def c_def)
  have n: "uint (redis_read r) = int (length ?cmd)" using p(5) by (metis of_nat_unat)
  have t: "truncateInputBuffer (uint (redis_read r)) (?c\<lparr>conn_srs := s, conn_in := ?cmd @ rest\<rparr>) = Some (c, length rest)"
    using truncate_prefix [OF _ _ n, of "?c\<lparr>conn_srs := s, conn_in := ?cmd @ rest\<rparr>" rest] b(1) by (simp add: c_def)
  have h: "e_redis E r c = Some (c\<lparr>conn_out := resp_enc (f args)\<rparr>, [], True)"
    using assms(1) p(6) reply_append(1) [OF b(3,4), of "f args"] b(2) by (simp add: redis_app_def c_def)
  have "serve_request E a s wr (received a s (?cmd @ rest) ln) =
      finish_read E a wr (put a (?c\<lparr>conn_srs := s, conn_in := rest, conn_out := resp_enc (f args)\<rparr>) (emit (FxRedis (conn_fd ?c) r) ln))" for wr
    by (simp add: serve_request_def p serve_redis_def t h) (simp add: api_def triggers_def put_def emit_def c_def)
  moreover have "resp_enc (f args) \<noteq> []" by (cases "f args") (simp_all add: resp_line_def resp_bulk_def)
  ultimately show ?thesis using p by (intro request_answered [OF assms(3-5)]) (auto simp: request_data_def)
qed

section \<open>HTTP requests\<close>

record http_request =
  rq_method :: bytes
  rq_target :: bytes
  rq_version :: bytes
  rq_headers :: "bytes list"
  rq_body :: bytes

definition rq_head :: "http_request \<Rightarrow> bytes" where
  "rq_head q = request_head (rq_method q) (rq_target q) (rq_version q) (rq_headers q)"

definition rq_path :: "http_request \<Rightarrow> bytes" where
  "rq_path q = unescape_ref False (target_path (rq_target q)) (target_path (rq_target q))"

definition rq_fields :: "int \<Rightarrow> http_request \<Rightarrow> http" where
  "rq_fields m q = fst (parse_headers m (target_request (rq_method q) (rq_target q) (length (rq_head q))) (rq_headers q))"

text \<open>A request the server reads whole: its headers are accepted and announce the length of its body.\<close>

definition request_ok :: "int \<Rightarrow> http_request \<Rightarrow> bool" where
  "request_ok m q \<longleftrightarrow>
     rq_method q \<noteq> [] \<and> hd (rq_method q) \<noteq> 42 \<and> 32 \<notin> set (rq_method q) \<and> 13 \<notin> set (rq_method q) \<and>
     13 \<notin> set (rq_target q) \<and> 32 \<notin> set (rq_version q) \<and> 13 \<notin> set (rq_version q) \<and>
     int (length (rq_method q) + 1 + length (rq_target q)) \<le> 0xffff \<and> list_all plain_line (rq_headers q) \<and>
     prefix (bs ''/'') (rq_path q) \<and>
     (case parse_headers m (target_request (rq_method q) (rq_target q) (length (rq_head q))) (rq_headers q) of
        (r, e) \<Rightarrow> e = None \<and> unat (bodyLen r) = length (rq_body q)) \<and>
     length (rq_head q @ rq_body q) < 2 ^ 32"

text \<open>The application answers with a status, a content type, headers and a body, computed from path and body.\<close>

definition http_app :: "env \<Rightarrow> (bytes \<Rightarrow> bytes \<Rightarrow> int \<times> bytes \<times> header \<times> bytes) \<Rightarrow> bool" where
  "http_app E g \<longleftrightarrow> (\<forall>h body c. Body h = Some body \<longrightarrow> e_http E h c =
     (case g (http_path h) body of (code, ct, hdr, data) \<Rightarrow> map_option (\<lambda>c. (c, [], True)) (respFull code ct hdr data c))) \<and>
     (\<forall>p body. case g p body of (code, ct, hdr, data) \<Rightarrow> list_all entry_ok hdr)"

definition http_answer :: "(bytes \<Rightarrow> bytes \<Rightarrow> int \<times> bytes \<times> header \<times> bytes) \<Rightarrow> http_request \<Rightarrow> bytes" where
  "http_answer g q = (case g (rq_path q) (rq_body q) of (code, ct, hdr, data) \<Rightarrow> response_text code ct hdr data)"

lemma request_parsed:
  fixes rest :: bytes
  assumes "request_ok (e_max E) q" and "\<not> lock (store ln a)"
  defines "c s \<equiv> (store ln a)\<lparr>conn_srs := s, conn_in := rest\<rparr>"
  shows "\<exists>s h inp. process (e_url E) (e_max E) new_srs ((rq_head q @ rq_body q) @ rest) = Some (s, inp, None) \<and>
    length (request_data s) = length (rq_head q @ rq_body q) \<and> http_path h = rq_path q \<and> Body h = Some (rq_body q) \<and>
    wsUpgrade h = wsUpgrade (rq_fields (e_max E) q) \<and>
    http_data h = decoded_head (rq_method q) (rq_target q) (rq_version q) (rq_headers q) @ rq_body q \<and>
    (\<forall>wr. serve_request E a s wr (received a s inp ln) = do {
       (c', trs, more) \<leftarrow> e_http E h (c s);
       let l = triggers trs (put a (api (c s) c') (emit (FxHTTP (conn_fd (store ln a)) h) ln));
       (if \<not> more then Some (closeConnWithError E a [] NoErr l) else finish_read E a wr l) })"
proof -
  let ?c = "store ln a" and ?x = "rq_head q @ rq_body q" and ?r = "rq_fields (e_max E) q"
  have r: "parse_headers (e_max E) (target_request (rq_method q) (rq_target q) (length (rq_head q))) (rq_headers q) = (?r, None)"
    "unat (bodyLen ?r) = length (rq_body q)" using assms(1) by (auto simp: request_ok_def rq_fields_def split: prod.splits)
  have "\<exists>s h inp. process (e_url E) (e_max E) new_srs (rq_head q @ rq_body q @ rest) = Some (s, inp, None)
      \<and> srs_http s = Some h \<and> http_data h = decoded_head (rq_method q) (rq_target q) (rq_version q) (rq_headers q) @ rq_body q
      \<and> length (http_data h) = length ?x \<and> unat (bodyLen h) + unat (hdrLen h) = length ?x
      \<and> http_path h = rq_path q \<and> wsUpgrade h = wsUpgrade ?r \<and> Body h = Some (rq_body q) \<and> drop (unat (bodyLen h) + unat (hdrLen h)) inp = rest"
    using http_request_parsed [of "rq_method q" "rq_target q" "rq_version q" "rq_headers q" "e_max E" ?r "rq_body q" "e_url E" rest] r assms(1)
    unfolding request_ok_def rq_head_def rq_path_def by blast
  then obtain s h inp where p: "process (e_url E) (e_max E) new_srs (?x @ rest) = Some (s, inp, None)"
      "srs_http s = Some h" "length (http_data h) = length ?x" "unat (bodyLen h) + unat (hdrLen h) = length ?x"
      "http_path h = rq_path q" "Body h = Some (rq_body q)" "drop (length ?x) inp = rest" "wsUpgrade h = wsUpgrade ?r"
      "http_data h = decoded_head (rq_method q) (rq_target q) (rq_version q) (rq_headers q) @ rq_body q" by auto
  have n: "uint (bodyLen h) + uint (hdrLen h) = int (length ?x)" using p(4) by (metis of_nat_unat of_nat_add)
  have l: "length inp = length ?x + length rest" using process_taken [OF p(1)] by simp
  have i: "inp = take (length ?x) inp @ rest" unfolding p(7) [symmetric] by simp
  have t: "truncateInputBuffer (uint (bodyLen h) + uint (hdrLen h)) (?c\<lparr>conn_srs := s, conn_in := inp\<rparr>) = Some (c s, length rest)"
    using truncate_prefix [of "?c\<lparr>conn_srs := s, conn_in := inp\<rparr>" "take (length ?x) inp" rest] assms(2) i l n by (simp add: c_def)
  have pp: "put a d (emit e (received a s inp ln)) = put a d (emit e ln)" for d e by (simp add: put_def emit_def)
  have f: "conn_fd (c s) = conn_fd ?c" by (simp add: c_def)
  have "serve_request E a s wr (received a s inp ln) = do {
       (c', trs, more) \<leftarrow> e_http E h (c s);
       let l = triggers trs (put a (api (c s) c') (emit (FxHTTP (conn_fd ?c) h) ln));
       (if \<not> more then Some (closeConnWithError E a [] NoErr l) else finish_read E a wr l) }" for wr
    unfolding serve_request_def p(2) serve_http_def by (simp add: t pp f)
  then show ?thesis using p by (intro exI [of _ s] exI [of _ h] exI [of _ inp]) (simp add: request_data_def)
qed

lemma http_answered:
  assumes "http_app E g" and "request_ok (e_max E) q" and "between a [] ln" and "arrives segs (rq_head q @ rq_body q) rest" and "int (length (concat segs)) \<le> e_max E"
  shows "\<exists>l. reads E a (Wrote (length (http_answer g q))) segs ln = Some l \<and> between a rest l \<and> outputs (fx l) = outputs (fx ln) @ [http_answer g q]"
proof -
  let ?c = "store ln a"
  have b: "\<not> lock ?c" "conn_out ?c = []" using assms(3) by (simp_all add: between_def)
  obtain s h inp where p: "process (e_url E) (e_max E) new_srs ((rq_head q @ rq_body q) @ rest) = Some (s, inp, None)"
      "length (request_data s) = length (rq_head q @ rq_body q)" "http_path h = rq_path q" "Body h = Some (rq_body q)"
    and srv: "\<forall>wr. serve_request E a s wr (received a s inp ln) = do {
       (c', trs, more) \<leftarrow> e_http E h (?c\<lparr>conn_srs := s, conn_in := rest\<rparr>);
       let l = triggers trs (put a (api (?c\<lparr>conn_srs := s, conn_in := rest\<rparr>) c') (emit (FxHTTP (conn_fd ?c) h) ln));
       (if \<not> more then Some (closeConnWithError E a [] NoErr l) else finish_read E a wr l) }"
    using request_parsed [OF assms(2) b(1), of rest] by blast
  obtain code ct hdr data where g: "g (rq_path q) (rq_body q) = (code, ct, hdr, data)" by (cases "g (rq_path q) (rq_body q)")
  have "\<forall>p body. case g p body of (code, ct, hdr, data) \<Rightarrow> list_all entry_ok hdr" using assms(1) by (simp add: http_app_def)
  from spec [OF spec [OF this, of "rq_path q"], of "rq_body q"] have ok: "list_all entry_ok hdr" using g by simp
  have h: "e_http E h (?c\<lparr>conn_srs := s, conn_in := rest\<rparr>) = Some (?c\<lparr>conn_srs := s, conn_in := rest, conn_out := http_answer g q\<rparr>, [], True)"
    using assms(1) p(3,4) g respFull_append [OF _ ok, of "?c\<lparr>conn_srs := s, conn_in := rest\<rparr>" code ct data] b
    by (simp add: http_app_def http_answer_def)
  have "serve_request E a s wr (received a s inp ln) =
      finish_read E a wr (put a (?c\<lparr>conn_srs := s, conn_in := rest, conn_out := http_answer g q\<rparr>) (emit (FxHTTP (conn_fd ?c) h) ln))" for wr
    unfolding spec [OF srv] h by (simp add: api_def triggers_none)
  moreover have "http_answer g q \<noteq> []" by (simp add: http_answer_def g response_text_def)
  ultimately show ?thesis using p by (intro request_answered [OF assms(3-5)]) auto
qed

section \<open>Conversations\<close>

text \<open>
  A protocol the server speaks: requests with the bytes they have on the wire, and the bytes of
  the answer. Its law is one exchange; a conversation is any number of them.
\<close>

locale protocol =
  fixes E :: env and wire :: "'q \<Rightarrow> bytes" and valid :: "'q \<Rightarrow> bool" and answer :: "'q \<Rightarrow> bytes"
  assumes exchange: "valid q \<Longrightarrow> between a [] ln \<Longrightarrow> arrives segs (wire q) rest \<Longrightarrow> int (length (concat segs)) \<le> e_max E \<Longrightarrow>
    \<exists>l. reads E a (Wrote (length (answer q))) segs ln = Some l \<and> between a rest l \<and> outputs (fx l) = outputs (fx ln) @ [answer q]"
begin

lemma conversation:
  assumes "list_all (\<lambda>(q, segs). valid q \<and> arrives segs (wire q) [] \<and> int (length (concat segs)) \<le> e_max E) qs" and "between a [] ln"
  shows "\<exists>l. fold (\<lambda>(q, segs) l. l \<bind> reads E a (Wrote (length (answer q))) segs) qs (Some ln) = Some l \<and>
    between a [] l \<and> outputs (fx l) = outputs (fx ln) @ map (\<lambda>(q, segs). answer q) qs"
  using assms
proof (induction qs arbitrary: ln)
  case (Cons x qs)
  obtain q segs where x: "x = (q, segs)" by (cases x)
  obtain l where l: "reads E a (Wrote (length (answer q))) segs ln = Some l" "between a [] l" "outputs (fx l) = outputs (fx ln) @ [answer q]"
    using exchange [of q a ln segs "[]"] Cons.prems x by auto
  from Cons.IH [OF _ l(2)] Cons.prems(1) obtain l' where
    "fold (\<lambda>(q, segs) l. l \<bind> reads E a (Wrote (length (answer q))) segs) qs (Some l) = Some l'" "between a [] l'"
    "outputs (fx l') = outputs (fx l) @ map (\<lambda>(q, segs). answer q) qs" by auto
  then show ?case using l(1,3) x by simp
qed simp

end

interpretation commands: protocol E resp_command "\<lambda>args. redis_app E f \<and> command_ok args" "\<lambda>args. resp_enc (f args)"
  by unfold_locales (blast intro: command_answered)

interpretation requests: protocol E "\<lambda>q. rq_head q @ rq_body q" "\<lambda>q. http_app E g \<and> request_ok (e_max E) q" "http_answer g"
  by unfold_locales (blast intro: http_answered)

text \<open>The server tells the two apart by the first byte of every request.\<close>

datatype client_request = Command "bytes list" | Request http_request

fun request_bytes :: "client_request \<Rightarrow> bytes" where
  "request_bytes (Command args) = resp_command args"
| "request_bytes (Request q) = rq_head q @ rq_body q"

fun request_valid :: "int \<Rightarrow> client_request \<Rightarrow> bool" where
  "request_valid m (Command args) \<longleftrightarrow> command_ok args"
| "request_valid m (Request q) \<longleftrightarrow> request_ok m q"

fun answer_bytes :: "(bytes list \<Rightarrow> resp) \<Rightarrow> (bytes \<Rightarrow> bytes \<Rightarrow> int \<times> bytes \<times> header \<times> bytes) \<Rightarrow> client_request \<Rightarrow> bytes" where
  "answer_bytes f g (Command args) = resp_enc (f args)"
| "answer_bytes f g (Request q) = http_answer g q"

interpretation port: protocol E request_bytes "\<lambda>q. redis_app E f \<and> http_app E g \<and> request_valid (e_max E) q" "answer_bytes f g"
proof unfold_locales
  fix q a ln segs rest
  assume "redis_app E f \<and> http_app E g \<and> request_valid (e_max E) q" "between a [] ln" "arrives segs (request_bytes q) rest" "int (length (concat segs)) \<le> e_max E"
  then show "\<exists>l. reads E a (Wrote (length (answer_bytes f g q))) segs ln = Some l \<and> between a rest l \<and> outputs (fx l) = outputs (fx ln) @ [answer_bytes f g q]"
    using command_answered [of E f _ a ln segs rest] http_answered [of E g _ a ln segs rest] by (cases q) simp_all
qed

text \<open>
  C2: a client that talks to the server over one connection, RESP commands and HTTP requests in
  any order, each sent when the answer to the one before has been received and each cut into
  reads in any way, gets exactly the answers of the application: for a command the encoding
  of the value computed from its arguments, for a request the response computed from its
  decoded path and its body, in the order of the requests and nothing else. No read makes the
  server panic or close the connection.
\<close>

theorem conversation_answered:
  assumes "redis_app E f" and "http_app E g" and "between a [] ln"
    and "list_all (\<lambda>(q, segs). request_valid (e_max E) q \<and> arrives segs (request_bytes q) [] \<and> int (length (concat segs)) \<le> e_max E) qs"
  shows "\<exists>l. fold (\<lambda>(q, segs) l. l \<bind> reads E a (Wrote (length (answer_bytes f g q))) segs) qs (Some ln) = Some l \<and>
    between a [] l \<and> outputs (fx l) = outputs (fx ln) @ map (\<lambda>(q, segs). answer_bytes f g q) qs"
  using assms by (intro port.conversation) (simp_all add: list_all_iff)

text \<open>
  C37: the server looks for one request per read. Of two commands that arrive in one piece only
  the first is answered; the second one, although complete, stays in the input buffer until
  the client sends something more.
\<close>

theorem pipelined_command_waits:
  assumes "redis_app E f" and "between a [] ln" and "command_ok args" and "int (length (resp_command args @ resp_command args')) \<le> e_max E"
  shows "\<exists>l. readConn E a (ReadN (resp_command args @ resp_command args')) (Wrote (length (resp_enc (f args)))) ln = Some l \<and>
    outputs (fx l) = outputs (fx ln) @ [resp_enc (f args)] \<and> between a (resp_command args') l"
proof -
  have "arrives [resp_command args @ resp_command args'] (resp_command args) (resp_command args')"
    by (simp add: arrives_def resp_command_def)
  from command_answered [OF assms(1,3,2) this] assms(4) show ?thesis by auto
qed

definition sample_env :: env where
  "sample_env = quiet_env\<lparr>e_redis := \<lambda>r c. map_option (\<lambda>c. (c, [], True)) (reply (RInt (int (Len r))) c),
     e_http := \<lambda>h c. do { body \<leftarrow> Body h; c \<leftarrow> respFull 200 [] [] (http_path h @ body) c; Some (c, [], True) }\<rparr>"

definition sample_values :: "bytes list \<Rightarrow> resp" where
  "sample_values args = RInt (int (length args))"

definition sample_pages :: "bytes \<Rightarrow> bytes \<Rightarrow> int \<times> bytes \<times> header \<times> bytes" where
  "sample_pages path body = (200, [], [], path @ body)"

lemma sample_apps: "redis_app sample_env sample_values" "http_app sample_env sample_pages"
  by (simp_all add: redis_app_def http_app_def sample_env_def sample_values_def sample_pages_def has_args_def map_option_case
      split: option.split bind_split)

definition sample_waiting :: listener where
  "sample_waiting = the (on_poll (AddRead 7) (put 2 (new_conn 7 False) sample_start))"

lemma sample_waiting_between: "between 2 [] sample_waiting"
  by (simp add: sample_waiting_def sample_start_def Serve_start_def OpenPoll_def AddRead_def epoll_add_def on_poll_def Listen_def
      between_def new_conn_def)

definition sample_post :: http_request where
  "sample_post = \<lparr>rq_method = bs ''POST'', rq_target = bs ''/a%41?x=1'', rq_version = bs ''HTTP/1.1'', rq_headers = sample_headers, rq_body = bs ''hi''\<rparr>"

lemma sample_post_head: "rq_head sample_post = request_head (bs ''POST'') (bs ''/a%41?x=1'') (bs ''HTTP/1.1'') sample_headers"
  by (simp add: rq_head_def sample_post_def)

lemma sample_post_path: "rq_path sample_post = bs ''/aA''"
  unfolding rq_path_def sample_post_def by code_simp

lemma sample_post_ok: "request_ok 1048576 sample_post"
proof -
  have p: "parse_headers 1048576 (target_request (rq_method sample_post) (rq_target sample_post) (length (rq_head sample_post)))
      (rq_headers sample_post) = (sample_request, None)"
    using sample_request_parsed unfolding sample_post_head by (simp add: sample_post_def)
  have n: "unat (bodyLen sample_request) = length (rq_body sample_post)" by (simp add: sample_request_fields sample_post_def bs_def)
  have l: "length (rq_head sample_post @ rq_body sample_post) = 57"
    using sample_request_length unfolding sample_post_head by (simp add: sample_post_def)
  show ?thesis unfolding request_ok_def p sample_post_path prod.case n l
    by (simp add: sample_post_def) (simp add: bs_def sample_headers_def plain_line_def)
qed

definition sample_ping :: "client_request" where
  "sample_ping = Command [bs ''PING'']"

definition sample_talk :: "(client_request \<times> bytes list) list" where
  "sample_talk = [(sample_ping, [take 3 (request_bytes sample_ping), drop 3 (request_bytes sample_ping)]), (Request sample_post, [rq_head sample_post, bs ''hi''])]"

lemma sample_ping_bytes: "request_bytes sample_ping = bs ''*1'' @ crlf @ bs ''$4'' @ crlf @ bs ''PING'' @ crlf"
  unfolding sample_ping_def by code_simp

theorem conversation_answered_witness:
  "\<exists>l. fold (\<lambda>(q, segs) l. l \<bind> reads sample_env 2 (Wrote (length (answer_bytes sample_values sample_pages q))) segs) sample_talk (Some sample_waiting) = Some l \<and>
    between 2 [] l \<and> outputs (fx l) = outputs (fx sample_waiting) @ map (\<lambda>(q, segs). answer_bytes sample_values sample_pages q) sample_talk"
proof (rule conversation_answered [OF sample_apps sample_waiting_between])
  have "length (rq_head sample_post @ bs ''hi'') = 57" unfolding sample_post_head by (rule sample_request_length)
  then have n: "length (rq_head sample_post) = 55" by (simp add: bs_def)
  then have "rq_head sample_post \<noteq> []" by auto
  moreover have "rq_body sample_post = bs ''hi''" by (simp add: sample_post_def)
  ultimately have "arrives [rq_head sample_post, bs ''hi''] (request_bytes (Request sample_post)) []" by (simp add: arrives_def bs_def)
  moreover have "arrives [take 3 (request_bytes sample_ping), drop 3 (request_bytes sample_ping)] (request_bytes sample_ping) []"
    unfolding sample_ping_bytes by (simp add: arrives_def bs_def crlf_def)
  moreover have "request_valid 1048576 sample_ping" using sample_ping_bytes by (simp add: sample_ping_def command_ok_def bs_def)
  ultimately show "list_all (\<lambda>(q, segs). request_valid (e_max sample_env) q \<and> arrives segs (request_bytes q) [] \<and> int (length (concat segs)) \<le> e_max sample_env) sample_talk"
    using n sample_post_ok sample_ping_bytes by (simp add: sample_talk_def sample_env_def quiet_env_def)
qed

theorem pipelined_command_waits_witness:
  "\<exists>l. readConn sample_env 2 (ReadN (resp_command [bs ''PING''] @ resp_command [])) (Wrote (length (resp_enc (sample_values [bs ''PING''])))) sample_waiting = Some l \<and>
    outputs (fx l) = outputs (fx sample_waiting) @ [resp_enc (sample_values [bs ''PING''])] \<and> between 2 (resp_command []) l"
proof (rule pipelined_command_waits [OF sample_apps(1) sample_waiting_between])
  have p: "resp_command [bs ''PING''] = bs ''*1'' @ crlf @ bs ''$4'' @ crlf @ bs ''PING'' @ crlf" by code_simp
  show "command_ok [bs ''PING'']" unfolding command_ok_def p by (simp add: bs_def)
  have "resp_command [] = bs ''*0'' @ crlf" by code_simp
  then show "int (length (resp_command [bs ''PING''] @ resp_command [])) \<le> e_max sample_env"
    unfolding p by (simp add: sample_env_def quiet_env_def bs_def)
qed

section \<open>A negative length\<close>

definition negative_bulk :: "int \<Rightarrow> bytes" where
  "negative_bulk n = 42 # format_int 10 1 @ crlf @ 36 # format_int 10 (- n) @ crlf"

lemma negative_bulk_process:
  assumes "7 + int (length (format_int 10 (- n))) < n" and "n \<le> 2 ^ 63"
  shows "process u m new_srs (negative_bulk n @ rest) = None"
proof -
  let ?d = "36 # format_int 10 (- n) @ crlf @ rest" and ?w = "length (format_int 10 (- n)) + 3"
  have one: "format_int 10 1 = [49]" by code_simp
  have inp: "negative_bulk n @ rest = 42 # format_int 10 1 @ crlf @ ?d" by (simp add: negative_bulk_def)
  have l: "length (42 # format_int 10 1 @ crlf) = 4" by (simp add: one)
  have h: "readByteAndNumberCrLf 42 (negative_bulk n @ rest) = Some (1, 4, None)"
    unfolding inp using readByteAndNumberCrLf_line [of 1 42 ?d] by (simp add: one)
  define r where "r = new_redis\<lparr>redis_read := word_of_nat 4, nargs := word_of_int 1\<rparr>"
  have r: "uint (redis_read r) = 4" "uint (nargs r) = 1" "ai r = []" by (simp_all add: r_def new_redis_def)
  have "gslice (negative_bulk n @ rest) 4 (int (length (negative_bulk n @ rest))) = Some ?d"
    unfolding inp by (simp add: gslice_def one)
  moreover have "readByteAndNumberCrLf 36 ?d = Some (- n, ?w, None)"
    using readByteAndNumberCrLf_line [of "- n" 36 rest] assms by simp
  moreover have "accept_bulk r (negative_bulk n @ rest) ?w (- n) = None"
  proof -
    have "2 \<le> length (negative_bulk n @ rest)" by (simp add: negative_bulk_def one)
    moreover define x where "x = uint (redis_read r) + int ?w + - n"
    then have "x < 0" using assms(1) by (simp add: r)
    ultimately have "\<not> int (length (negative_bulk n @ rest)) < x + 2" "gat (negative_bulk n @ rest) x = None" by (simp_all add: gat_def)
    then show ?thesis unfolding accept_bulk_def Let_def x_def [symmetric] by simp
  qed
  ultimately have "read_bulk r (negative_bulk n @ rest) = None" using assms(1) by (simp add: read_bulk_def r)
  then have "read_bulks r (negative_bulk n @ rest) = None" by (subst read_bulks.simps) (simp add: r)
  then show ?thesis using process_stage0 [OF _ h, of new_srs u m]
    by (simp add: new_srs_def process_stage_def enter_def process_redis_def r_def)
qed

text \<open>
  C36: a command whose first argument announces a negative length larger than the bytes in front of
  it makes the parser index the buffer below zero. The panic ends the event loop, so one such
  message from any client takes all connections of the server down.
\<close>

theorem negative_bulk_panics:
  assumes "between a [] ln" and "7 + int (length (format_int 10 (- n))) < n" and "n \<le> 2 ^ 63" and "int (length (negative_bulk n)) \<le> e_max E"
  shows "readConn E a (ReadN (negative_bulk n)) wr ln = None"
proof -
  let ?c = "store ln a"
  have b: "\<not> lock ?c" "conn_ws ?c = None" "conn_srs ?c = new_srs" "conn_in ?c = []" using assms(1) by (simp_all add: between_def)
  have "run_parser E (?c\<lparr>lock := True, conn_in := negative_bulk n\<rparr>) = None"
    using b negative_bulk_process [OF assms(2,3), of "e_url E" "e_max E" "[]"] by (simp add: run_parser_def)
  moreover have "negative_bulk n \<noteq> []" by (simp add: negative_bulk_def)
  ultimately show ?thesis using b assms(4)
    by (simp add: readConn_def) (subst parse_next.simps, simp add: spinLock_def Let_def)
qed

theorem negative_bulk_panics_witness:
  "readConn quiet_env 2 (ReadN (bs ''*1'' @ crlf @ bs ''$-20'' @ crlf)) (Wrote 0) sample_waiting = None"
proof -
  have n: "negative_bulk 20 = bs ''*1'' @ crlf @ bs ''$-20'' @ crlf" by code_simp
  have l: "length (format_int 10 (- 20)) = 3" by code_simp
  show ?thesis using negative_bulk_panics [OF sample_waiting_between, of 20 quiet_env "Wrote 0"] unfolding n
    by (simp add: l quiet_env_def bs_def)
qed

end
