(* ===== verification/Http_Query.thy ===== *)
theory Http_Query
  imports Listener_Http
begin

text \<open>
  The query of a request (\<open>http.go\<close>: \<open>Query\<close>, \<open>GetQuery\<close>, \<open>GetQueryInt64\<close>, \<open>GetQueryInt64Default\<close>) on top
  of \<open>ForeachQuery\<close>, and that the parameters a client encodes are the ones a handler finds after the server
  has parsed the request.
\<close>

section \<open>Queries\<close>

text \<open>
  The map of a third-party package \<open>Query\<close> fills: a new map, setting a key, and what \<open>Get\<close> gives,
  also for no map at all. The code relies on it being a map.
\<close>

record 'm query_map =
  qm_new :: 'm
  qm_set :: "bytes \<Rightarrow> bytes \<Rightarrow> 'm \<Rightarrow> 'm"
  qm_get :: "'m option \<Rightarrow> bytes \<Rightarrow> bytes"

definition qm_ok :: "'m query_map \<Rightarrow> bool" where
  "qm_ok M \<longleftrightarrow> (\<forall>k. qm_get M (Some (qm_new M)) k = []) \<and>
     (\<forall>m k v k'. qm_get M (Some (qm_set M k v m)) k' = (if k' = k then v else qm_get M (Some m) k'))"

text \<open>The map is kept with the request once it has been made; it is an argument and a result here.\<close>

definition Query :: "'m query_map \<Rightarrow> http \<Rightarrow> 'm option \<Rightarrow> (http \<times> 'm option) option" where
  "Query M r qmap =
     (if qmap \<noteq> None then Some (r, qmap)
      else if qStart r > 0 then do {
        (r, ps) \<leftarrow> ForeachQuery r;
        Some (r, Some (fold (\<lambda>(k, v). qm_set M k v) ps (qm_new M))) }
      else Some (r, None))"

definition GetQuery :: "'m query_map \<Rightarrow> bytes \<Rightarrow> http \<Rightarrow> 'm option \<Rightarrow> (http \<times> 'm option \<times> bytes) option" where
  "GetQuery M k r qmap = do { (r, m) \<leftarrow> Query M r qmap; Some (r, m, qm_get M m k) }"

definition GetQueryInt64 :: "'m query_map \<Rightarrow> bytes \<Rightarrow> http \<Rightarrow> 'm option \<Rightarrow> (http \<times> 'm option \<times> int \<times> num_err option) option" where
  "GetQueryInt64 M k r qmap = do { (r, m) \<leftarrow> Query M r qmap; Some (r, m, parse_int (qm_get M m k)) }"

definition GetQueryInt64Default :: "'m query_map \<Rightarrow> bytes \<Rightarrow> int \<Rightarrow> http \<Rightarrow> 'm option \<Rightarrow> (http \<times> 'm option \<times> int) option" where
  "GetQueryInt64Default M k v r qmap = do {
     (r, m) \<leftarrow> Query M r qmap;
     Some (r, m, case parse_int (qm_get M m k) of (res, err) \<Rightarrow> if err \<noteq> None then v else res) }"

section \<open>What a client encodes is what the server reads\<close>

fun query_text :: "(bytes \<times> bytes) list \<Rightarrow> bytes" where
  "query_text [] = []"
| "query_text [(k, v)] = QueryEscape k @ 61 # QueryEscape v"
| "query_text ((k, v) # p # ps) = QueryEscape k @ 61 # QueryEscape v @ 38 # query_text (p # ps)"

lemma QueryEscape_bytes:
  assumes "c \<in> set (QueryEscape s)"
  shows "c \<notin> {13, 32, 38, 61, 63}"
proof -
  have h: "upper_hex d \<notin> {13, 32, 38, 61, 63}" if "d < 16" for d
  proof -
    have "\<forall>d \<in> set [0..<16]. upper_hex d \<notin> set [13, 32, 38, 61, 63]" by code_simp
    then show ?thesis using that by simp
  qed
  obtain b where b: "c \<in> set (escape_byte b)" using assms by (auto simp: QueryEscape_def)
  have "unat b < 2 ^ LENGTH(8)" by (rule unsigned_less)
  then have "upper_hex (unat b div 16) \<notin> {13, 32, 38, 61, 63}" "upper_hex (unat b mod 16) \<notin> {13, 32, 38, 61, 63}"
    using h [of "unat b div 16"] h [of "unat b mod 16"] by (simp_all add: less_mult_imp_div_less)
  moreover have "unreserved b \<Longrightarrow> b \<notin> {13, 32, 38, 61, 63}" by (auto simp: unreserved_def)
  ultimately show ?thesis using b by (auto simp: escape_byte_def split: if_splits)
qed

lemma cut_first: "c \<notin> set xs \<Longrightarrow> cut [c] (xs @ c # ys) = (xs, ys)" "c \<notin> set xs \<Longrightarrow> cut [c] xs = (xs, [])"
  using index_byte_first [of c xs ys] index_byte_none [of c xs] by (simp_all add: cut_def index_byte_def)

lemma UnescapeInplace_QueryEscape:
  "\<exists>s' x. UnescapeInplace (QueryEscape s) True = (s', x) \<and> length s' = length (QueryEscape s) \<and> take x s' = s"
  using UnescapeInplace_shape [of "QueryEscape s" True] unescape_ref_QueryEscape [of "QueryEscape s" s]
  by (cases "UnescapeInplace (QueryEscape s) True") auto

lemma foreach_query_text:
  "\<exists>q. foreach_query (query_text ps) = (q, ps) \<and> length q = length (query_text ps)"
proof (induction ps rule: query_text.induct)
  case 1
  then show ?case by (simp add: foreach_query.simps)
next
  case (2 k v)
  obtain k' kx v' vx where u: "UnescapeInplace (QueryEscape k) True = (k', kx)" "length k' = length (QueryEscape k)" "take kx k' = k"
    "UnescapeInplace (QueryEscape v) True = (v', vx)" "length v' = length (QueryEscape v)" "take vx v' = v"
    using UnescapeInplace_QueryEscape by metis
  have n: "38 \<notin> set (QueryEscape k @ 61 # QueryEscape v)" "61 \<notin> set (QueryEscape k)" using QueryEscape_bytes by fastforce+
  show ?case
    by (subst foreach_query.simps) (simp add: cut_first(2) [OF n(1)] cut_first(1) [OF n(2)] u foreach_query.simps [of "[]"])
next
  case (3 k v p ps)
  obtain k' kx v' vx where u: "UnescapeInplace (QueryEscape k) True = (k', kx)" "length k' = length (QueryEscape k)" "take kx k' = k"
    "UnescapeInplace (QueryEscape v) True = (v', vx)" "length v' = length (QueryEscape v)" "take vx v' = v"
    using UnescapeInplace_QueryEscape by metis
  obtain q where q: "foreach_query (query_text (p # ps)) = (q, p # ps)" "length q = length (query_text (p # ps))" using 3 by blast
  have n: "38 \<notin> set (QueryEscape k @ 61 # QueryEscape v)" "61 \<notin> set (QueryEscape k)" using QueryEscape_bytes by fastforce+
  have c: "cut [38] (QueryEscape k @ 61 # QueryEscape v @ 38 # query_text (p # ps)) = (QueryEscape k @ 61 # QueryEscape v, query_text (p # ps))"
    using cut_first(1) [OF n(1), of "query_text (p # ps)"] by simp
  show ?case
    by (subst foreach_query.simps) (simp add: c cut_first(1) [OF n(2)] u q)
qed

lemma qm_fold:
  assumes "qm_ok M"
  shows "qm_get M (Some (fold (\<lambda>(k, v). qm_set M k v) ps m)) k = (case map_of (rev ps) k of None \<Rightarrow> qm_get M (Some m) k | Some v \<Rightarrow> v)"
proof (induction ps rule: rev_induct)
  case (snoc p ps)
  then show ?case using assms by (cases p) (auto simp: qm_ok_def)
qed simp

lemma request_query:
  assumes "request_ok m q" and "rq_target q = p @ 63 # query_text ps" and "63 \<notin> set p"
  shows "\<exists>s h inp. process u m new_srs (rq_head q @ rq_body q @ rest) = Some (s, inp, None) \<and> srs_http s = Some h \<and>
    qStart h \<noteq> 0 \<and> (\<exists>h'. ForeachQuery h = Some (h', ps))"
proof -
  let ?r = "rq_fields m q" and ?M = "rq_method q" and ?t = "rq_target q" and ?v = "rq_version q"
  have r: "parse_headers m (target_request ?M ?t (length (rq_head q))) (rq_headers q) = (?r, None)" "unat (bodyLen ?r) = length (rq_body q)"
    using assms(1) by (auto simp: request_ok_def rq_fields_def split: prod.splits)
  have "\<exists>s h inp. process u m new_srs (rq_head q @ rq_body q @ rest) = Some (s, inp, None)
      \<and> srs_http s = Some h \<and> h = ?r\<lparr>http_data := decoded_head ?M ?t ?v (rq_headers q) @ rq_body q\<rparr>"
    using http_request_parsed [of ?M ?t ?v "rq_headers q" m ?r "rq_body q" u rest] r assms(1)
    unfolding request_ok_def rq_head_def rq_path_def by blast
  then obtain s h inp where h: "process u m new_srs (rq_head q @ rq_body q @ rest) = Some (s, inp, None)" "srs_http s = Some h"
    "h = ?r\<lparr>http_data := decoded_head ?M ?t ?v (rq_headers q) @ rq_body q\<rparr>" by blast
  have ix: "index_byte 63 ?t = Some (length p)" unfolding assms(2) by (rule index_byte_first) (rule assms(3))
  have tp: "target_path ?t = p" using ix assms(2) by (simp add: target_path_def)
  have b: "int (length ?M + 1 + length ?t) \<le> 0xffff" using assms(1) by (simp add: request_ok_def)
  let ?a = "length ?M + 2 + length p" and ?e = "length ?M + 1 + length ?t"
  have q: "qStart h = word_of_nat ?a" "qEnd h = word_of_nat ?e"
    using parse_headers_frame [OF r(1)] h(3) ix by (simp_all add: target_request_def)
  have le: "?a \<le> ?e" "?e < 65536" using b assms(2) by simp_all
  have a: "unat (qStart h) = ?a" "unat (qEnd h) = ?e" unfolding q using le
    by (simp_all only: unat_of_nat take_bit_eq_mod) simp_all
  then have ai: "uint (qStart h) = int ?a" "uint (qEnd h) = int ?e" by (metis of_nat_unat)+
  obtain pd x where pd: "UnescapeInplace p False = (pd, x)" by fastforce
  have "length pd = length p" using UnescapeInplace_shape(1) [OF pd] .
  then have d: "http_data h = (?M @ 32 # pd @ [63]) @ query_text ps @ 32 # ?v @ crlf @ lines_text (map lower_line (rq_headers q)) @ crlf @ rq_body q"
    using h(3) pd tp assms(2) by (simp add: decoded_head_def decoded_line_def Let_def)
  have l: "length (?M @ 32 # pd @ [63]) = ?a" "?e - ?a = length (query_text ps)" using \<open>length pd = length p\<close> assms(2) by simp_all
  have "take (?e - ?a) (drop ?a (http_data h)) = query_text ps"
    unfolding l(2) unfolding l(1) [symmetric] d by simp
  moreover have "?e \<le> length (http_data h)" unfolding d using l assms(2) \<open>length pd = length p\<close> by simp
  ultimately have "gslice (http_data h) (uint (qStart h)) (uint (qEnd h)) = Some (query_text ps)"
    unfolding ai using le(1) gslice_nat [of "http_data h" ?a ?e] by simp
  moreover have "qStart h \<noteq> 0" using a(1) by auto
  moreover obtain q' where "foreach_query (query_text ps) = (q', ps)" using foreach_query_text by blast
  ultimately show ?thesis using h(1,2) by (auto simp: ForeachQuery_def)
qed

text \<open>
  C20: the parameters a client puts into the query of its request, percent-encoded as \<open>url.QueryEscape\<close>
  does it, are what the handler finds: \<open>ForeachQuery\<close> yields exactly these keys and values in
  their order, whatever bytes they contain, and \<open>GetQuery\<close> the value of the last one with a key,
  or nothing.
\<close>

theorem query_round_trip:
  assumes "request_ok m q" and "rq_target q = p @ 63 # query_text ps" and "63 \<notin> set p" and "qm_ok M"
  shows "\<exists>s h inp h'. process u m new_srs (rq_head q @ rq_body q @ rest) = Some (s, inp, None) \<and> srs_http s = Some h \<and>
    ForeachQuery h = Some (h', ps) \<and>
    map_option (\<lambda>(_, _, v). v) (GetQuery M k h None) = Some (case map_of (rev ps) k of None \<Rightarrow> [] | Some v \<Rightarrow> v)"
proof -
  obtain s h inp h' where h: "process u m new_srs (rq_head q @ rq_body q @ rest) = Some (s, inp, None)" "srs_http s = Some h"
    "qStart h \<noteq> 0" "ForeachQuery h = Some (h', ps)" using request_query [OF assms(1-3), of u rest] by blast
  have "qm_get M (Some (qm_new M)) k = []" using assms(4) by (simp add: qm_ok_def)
  then have "GetQuery M k h None = Some (h', Some (fold (\<lambda>(k, v). qm_set M k v) ps (qm_new M)), case map_of (rev ps) k of None \<Rightarrow> [] | Some v \<Rightarrow> v)"
    using h(3,4) qm_fold [OF assms(4), of ps "qm_new M" k] by (simp add: GetQuery_def Query_def word_neq_0_conv [symmetric] split: option.splits)
  then show ?thesis using h by auto
qed

definition list_map :: "(bytes \<times> bytes) list query_map" where
  "list_map = \<lparr>qm_new = [], qm_set = (\<lambda>k v m. (k, v) # m), qm_get = (\<lambda>m k. case m of None \<Rightarrow> [] | Some kvs \<Rightarrow> (case map_of kvs k of None \<Rightarrow> [] | Some v \<Rightarrow> v))\<rparr>"

definition sample_search :: http_request where
  "sample_search = \<lparr>rq_method = bs ''GET'', rq_target = bs ''/s'' @ 63 # query_text [(bs ''q'', bs ''a b&c''), (bs ''n'', [])],
     rq_version = bs ''HTTP/1.1'', rq_headers = [bs ''Host: h''], rq_body = []\<rparr>"

lemma sample_search_fields:
  "snd (parse_headers 1048576 (target_request (rq_method sample_search) (rq_target sample_search) (length (rq_head sample_search))) (rq_headers sample_search)) = None"
  "unat (bodyLen (rq_fields 1048576 sample_search)) = 0" "rq_target sample_search = bs ''/s?q=a+b%26c&n=''"
  "int (length (rq_head sample_search)) = 41" "rq_path sample_search = bs ''/s''"
  by code_simp+

lemma sample_search_ok: "request_ok 1048576 sample_search"
proof -
  have s: "rq_method sample_search = bs ''GET''" "rq_version sample_search = bs ''HTTP/1.1''" "rq_body sample_search = []"
    "rq_headers sample_search = [bs ''Host: h'']" by (simp_all add: sample_search_def)
  have f: "parse_headers 1048576 (target_request (rq_method sample_search) (rq_target sample_search) (length (rq_head sample_search))) (rq_headers sample_search) =
      (rq_fields 1048576 sample_search, None)"
    using sample_search_fields(1) by (simp add: rq_fields_def prod_eq_iff)
  show ?thesis unfolding request_ok_def f prod.case unfolding sample_search_fields(2,3,5) s using sample_search_fields(4)
    by (simp add: bs_def plain_line_def)
qed

theorem query_round_trip_witness:
  "\<exists>s h inp h'. process (\<lambda>_. None) 1048576 new_srs (rq_head sample_search @ rq_body sample_search @ []) = Some (s, inp, None) \<and> srs_http s = Some h \<and>
    ForeachQuery h = Some (h', [(bs ''q'', bs ''a b&c''), (bs ''n'', [])]) \<and>
    map_option (\<lambda>(_, _, v). v) (GetQuery list_map (bs ''q'') h None) =
      Some (case map_of (rev [(bs ''q'', bs ''a b&c''), (bs ''n'', [])]) (bs ''q'') of None \<Rightarrow> [] | Some v \<Rightarrow> v)"
  by (rule query_round_trip [OF sample_search_ok, of "bs ''/s''"])
    (simp_all add: sample_search_def bs_def qm_ok_def list_map_def)

end
