(* ===== verification/Ssl.thy ===== *)
theory Ssl
  imports Listener_Http
begin

text \<open>
  ssl_cgo.go: the wrappers around OpenSSL and the type \<open>SSL\<close> with its methods \<open>Read\<close> and \<open>Write\<close>, whose
  results the event loop takes in place of those of the system calls.
\<close>

section \<open>State and operations\<close>

text \<open>
  OpenSSL is not part of the sources: the values of its constants, and what its functions
  return with the error code \<open>SSL_get_error\<close> and \<open>errno\<close> give then, are arguments. The
  documentation promises that the codes are different small positive numbers.
\<close>

record ssl_codes =
  WANT_READ :: int
  WANT_WRITE :: int
  ZERO_RETURN :: int
  SYSCALL :: int

definition codes_ok :: "ssl_codes \<Rightarrow> bool" where
  "codes_ok K \<longleftrightarrow> distinct [WANT_READ K, WANT_WRITE K, ZERO_RETURN K, SYSCALL K] \<and>
     list_all (\<lambda>k. 0 < k \<and> k < 10000) [WANT_READ K, WANT_WRITE K, ZERO_RETURN K, SYSCALL K]"

record ssl_call =
  ret :: int
  code :: int
  errno :: int

record SSL =
  ssl_fd :: int
  handshaked :: bool

definition get_error :: "ssl_codes \<Rightarrow> ssl_call \<Rightarrow> int" where
  "get_error K r = (if code r = SYSCALL K then - (10000 + errno r) else - code r)"

definition X_handshake :: "ssl_codes \<Rightarrow> ssl_call \<Rightarrow> int" where
  "X_handshake K r = (if ret r = 1 then 1 else get_error K r)"

definition X_read :: "ssl_codes \<Rightarrow> ssl_call \<Rightarrow> int" where
  "X_read K r = (if ret r > 0 then ret r else get_error K r)"

definition X_write :: "ssl_codes \<Rightarrow> ssl_call \<Rightarrow> int" where
  "X_write K r = (if ret r > 0 then ret r else get_error K r)"

definition ssl_accept :: "bool \<Rightarrow> int \<Rightarrow> SSL option" where
  "ssl_accept created fd = (if \<not> created then None else Some \<lparr>ssl_fd = fd, handshaked = False\<rparr>)"

text \<open>
  \<open>Read\<close> with what the OpenSSL function it calls returns, and the bytes that function has put
  into the buffer. The errors carry the type the Go code gives them.
\<close>

definition SSL_Read :: "ssl_codes \<Rightarrow> ssl_call \<Rightarrow> bytes \<Rightarrow> SSL \<Rightarrow> SSL \<times> read_result" where
  "SSL_Read K r p s =
     (if \<not> handshaked s then
        (let res = X_handshake K r in
         if res = 1 then (s\<lparr>handshaked := True\<rparr>, ReadErr EAGAIN)
         else if res = - WANT_WRITE K then (s, ReadErr (SslErr (bs ''sslhandshake'')))
         else if res = - WANT_READ K then (s, ReadErr EAGAIN)
         else (s, ReadErr (SslErr (bs ''sslhandshake''))))
      else
        (let rd = X_read K r in
         if rd > 0 then (s, ReadN (take (nat rd) p))
         else if rd = - ZERO_RETURN K then (s, ReadN [])
         else if rd = - WANT_READ K then (s, ReadErr EAGAIN)
         else (s, ReadErr (SslErr (bs ''sslread'')))))"

text \<open>\<open>Write\<close>: the address of the first byte of an empty slice is a panic.\<close>

definition SSL_Write :: "ssl_codes \<Rightarrow> ssl_call \<Rightarrow> bytes \<Rightarrow> SSL \<Rightarrow> write_result option" where
  "SSL_Write K r p s =
     (if \<not> handshaked s then Some (WriteErr (- 1) (SslErr (bs ''sslhandshake'')))
      else if p = [] then None
      else
        (let wr = X_write K r in
         if wr > 0 then Some (Wrote (nat wr))
         else if wr = - WANT_WRITE K then Some (WriteErr wr EAGAIN)
         else Some (WriteErr (- 1) (SslErr (bs ''sslwrite'')))))"

section \<open>The stream a TLS connection delivers\<close>

text \<open>The calls of \<open>Read\<close> on one connection, in order, and what they return.\<close>

fun ssl_reads :: "ssl_codes \<Rightarrow> (ssl_call \<times> bytes) list \<Rightarrow> SSL \<Rightarrow> SSL \<times> read_result list" where
  "ssl_reads K [] s = (s, [])"
| "ssl_reads K ((r, p) # rs) s =
     (case SSL_Read K r p s of (s, x) \<Rightarrow> case ssl_reads K rs s of (s, xs) \<Rightarrow> (s, x # xs))"

text \<open>A call that failed with a given code, and one that succeeded.\<close>

definition failed_with :: "int \<Rightarrow> ssl_call \<Rightarrow> bool" where
  "failed_with k r \<longleftrightarrow> ret r \<le> 0 \<and> code r = k"

text \<open>What the calls of \<open>SSL_read\<close> do: nothing is there yet, or some decrypted bytes are.\<close>

fun plain_event :: "ssl_codes \<Rightarrow> ssl_call \<times> bytes \<Rightarrow> bytes option \<Rightarrow> bool" where
  "plain_event K (r, p) None \<longleftrightarrow> failed_with (WANT_READ K) r"
| "plain_event K (r, p) (Some d) \<longleftrightarrow> d \<noteq> [] \<and> ret r = int (length d) \<and> prefix d p"

definition read_of :: "bytes option \<Rightarrow> read_result" where
  "read_of d = (case d of None \<Rightarrow> ReadErr EAGAIN | Some d \<Rightarrow> ReadN d)"

lemma ssl_reads_append:
  "ssl_reads K (xs @ ys) s = (case ssl_reads K xs s of (s, as) \<Rightarrow> case ssl_reads K ys s of (s, as') \<Rightarrow> (s, as @ as'))"
  by (induction xs arbitrary: s) (auto split: prod.splits)

lemma handshake_waits:
  assumes "codes_ok K" and "\<not> handshaked s" and "list_all (\<lambda>(r, p). failed_with (WANT_READ K) r) rs"
  shows "ssl_reads K rs s = (s, replicate (length rs) (ReadErr EAGAIN))"
  using assms(3)
proof (induction rs)
  case (Cons x rs)
  obtain r p where x: "x = (r, p)" by (cases x)
  have "SSL_Read K r p s = (s, ReadErr EAGAIN)"
    using Cons.prems assms(1,2) x by (auto simp: SSL_Read_def X_handshake_def get_error_def failed_with_def codes_ok_def)
  then show ?case using Cons x by simp
qed simp

lemma plain_reads:
  assumes "codes_ok K" and "handshaked s" and "list_all2 (plain_event K) rs ds"
  shows "ssl_reads K rs s = (s, map read_of ds)"
  using assms(3)
proof (induction rs ds rule: list_all2_induct)
  case (Cons x rs d ds)
  obtain r p where x: "x = (r, p)" by (cases x)
  have "SSL_Read K r p s = (s, read_of d)"
  proof (cases d)
    case None
    then show ?thesis using Cons(1) assms(1,2) x
      by (auto simp: SSL_Read_def X_read_def get_error_def failed_with_def codes_ok_def read_of_def)
  next
    case (Some b)
    then show ?thesis using Cons(1) assms(2) x by (auto simp: SSL_Read_def X_read_def read_of_def prefix_def)
  qed
  then show ?case using Cons(3) x by simp
qed simp

text \<open>
  C33: a TLS connection whose handshake takes any number of rounds and succeeds hands the event
  loop the decrypted bytes of OpenSSL, piece by piece and unchanged, and nothing but requests to
  wait before and between them: no byte before the handshake is done, no end of the stream
  and no error.
\<close>

theorem ssl_delivers_plaintext:
  assumes "codes_ok K" and "ssl_accept True fd = Some s" and "list_all (\<lambda>(r, p). failed_with (WANT_READ K) r) hs" and "ret h = 1"
    and "list_all2 (plain_event K) rs ds"
  shows "ssl_reads K (hs @ (h, q) # rs) s =
    (s\<lparr>handshaked := True\<rparr>, replicate (Suc (length hs)) (ReadErr EAGAIN) @ map read_of ds)"
proof -
  have n: "\<not> handshaked s" using assms(2) by (auto simp: ssl_accept_def)
  have "SSL_Read K h q s = (s\<lparr>handshaked := True\<rparr>, ReadErr EAGAIN)" using n assms(4) by (simp add: SSL_Read_def X_handshake_def)
  then show ?thesis using handshake_waits [OF assms(1) n assms(3)] plain_reads [OF assms(1) _ assms(5), of "s\<lparr>handshaked := True\<rparr>"]
    by (simp add: ssl_reads_append) (metis append_Cons append_assoc replicate_append_same append_Nil)
qed

text \<open>
  A handshake that fails for any other reason than missing input closes the connection, and
  the error handler is told that it was the handshake; before the handshake is done nothing is
  written either.
\<close>

lemma ssl_handshake_failure_closes:
  assumes "codes_ok K" and "\<not> handshaked s" and "ret r \<noteq> 1" and "code r \<noteq> WANT_READ K" and "0 \<le> code r" and "0 \<le> errno r"
  shows "readConn E a (snd (SSL_Read K r p s)) wr ln = Some (closeConnWithError E a (bs ''read'') (Typed (bs ''sslhandshake'')) ln) \<and>
    SSL_Write K r q s = Some (WriteErr (- 1) (SslErr (bs ''sslhandshake'')))"
proof -
  have "X_handshake K r \<noteq> 1" "X_handshake K r \<noteq> - WANT_READ K"
    using assms by (auto simp: X_handshake_def get_error_def codes_ok_def)
  then have "snd (SSL_Read K r p s) = ReadErr (SslErr (bs ''sslhandshake''))"
    using assms(2) by (simp add: SSL_Read_def Let_def)
  then show ?thesis using assms(2) by (simp add: SSL_Write_def readConn_def cause_of_def)
qed

lemma short_write:
  fixes ln a
  defines "c \<equiv> store ln a"
  assumes "\<not> lock c" and "conn_ws c = None" and "interest (ln_poll ln) (conn_fd c) \<noteq> None" and "0 < m" and "m < length (conn_out c)"
  shows "\<exists>l. writeConn E a (Wrote m) ln = Some (l, - int m) \<and> conn_out (store l a) = drop m (conn_out c) \<and>
    outputs (fx l) = outputs (fx ln) @ [take m (conn_out c)] \<and> interest (ln_poll l) (conn_fd c) = Some True"
proof -
  define l where "l = emit FxShortWrite ((put a (c\<lparr>conn_out := drop m (conn_out c), lock := False\<rparr>) (emit (FxWrite (conn_fd c) (take m (conn_out c))) ln))
    \<lparr>ln_poll := (ln_poll ln)\<lparr>interest := (interest (ln_poll ln))(conn_fd c \<mapsto> True)\<rparr>\<rparr>)"
  have "gslice (conn_out c) (int m) (int (length (conn_out c))) = Some (drop m (conn_out c))" using assms(6) by (simp add: gslice_def)
  then have "writeConn E a (Wrote m) ln = Some (l, - int m)"
    using assms(2-6) unfolding c_def
    by (auto simp: writeConn_def spinLock_def spinUnlock_def Let_def sent_def emit_def on_poll_def ModReadWrite_def epoll_mod_def out_tail_def put_def l_def c_def)
  moreover have "outputs (fx l) = outputs (fx ln) @ [take m (conn_out c)]" by (simp add: l_def emit_def) (simp add: outputs_def)
  ultimately show ?thesis by (intro exI [of _ l]) (simp add: l_def emit_def)
qed

text \<open>
  C34: a write over TLS that does not fail takes a prefix of the output buffer and leaves the
  rest for later: when OpenSSL cannot write now the whole output stays, and while there is a
  rest the poller waits for the connection to become writable.
\<close>

theorem ssl_write_keeps_rest:
  assumes "codes_ok K" and "handshaked s" and "between a inp (put a ((store ln a)\<lparr>conn_out := []\<rparr>) ln)" and "conn_out (store ln a) \<noteq> []"
    and "0 < ret r \<and> ret r \<le> int (length (conn_out (store ln a))) \<or> failed_with (WANT_WRITE K) r"
  shows "\<exists>w l n sent. SSL_Write K r (conn_out (store ln a)) s = Some w \<and> writeConn E a w ln = Some (l, n) \<and>
    sent @ conn_out (store l a) = conn_out (store ln a) \<and> length sent = nat (ret r) \<and>
    outputs (fx l) = outputs (fx ln) @ (if sent = [] then [] else [sent]) \<and>
    interest (ln_poll l) (conn_fd (store ln a)) = Some (conn_out (store l a) \<noteq> [])"
proof -
  let ?c = "store ln a"
  have b: "\<not> lock ?c" "conn_ws ?c = None" "\<exists>y. interest (ln_poll ln) (conn_fd ?c) = Some y"
    using assms(3) by (auto simp: between_def)
  show ?thesis
  proof (cases "0 < ret r")
    case True
    define m where "m = nat (ret r)"
    have m: "0 < m" "ret r = int m" "m \<le> length (conn_out ?c)" using True assms(4,5) by (auto simp: m_def failed_with_def)
    have w: "SSL_Write K r (conn_out ?c) s = Some (Wrote m)" using assms(2,4) True by (simp add: SSL_Write_def X_write_def m_def)
    show ?thesis
    proof (cases "m = length (conn_out ?c)")
      case True
      then show ?thesis using b assms(4) w m
        by (intro exI [of _ "Wrote m"] exI [of _ "conn_out ?c"])
          (auto simp: writeConn_def spinLock_def spinUnlock_def Let_def sent_def emit_def on_poll_def ModRead_def epoll_mod_def)
    next
      case False
      then have "m < length (conn_out ?c)" using m(3) by simp
      from short_write [OF b(1,2) _ m(1) this] b(3) obtain l where l: "writeConn E a (Wrote m) ln = Some (l, - int m)"
        "conn_out (store l a) = drop m (conn_out ?c)" "outputs (fx l) = outputs (fx ln) @ [take m (conn_out ?c)]"
        "interest (ln_poll l) (conn_fd ?c) = Some True" by blast
      then show ?thesis using w m False assms(4)
        by (intro exI [of _ "Wrote m"] exI [of _ l] exI [of _ "- int m"] exI [of _ "take m (conn_out ?c)"]) auto
    qed
  next
    case False
    then have f: "ret r \<le> 0" "code r = WANT_WRITE K" using assms(5) by (auto simp: failed_with_def)
    have "SSL_Write K r (conn_out ?c) s = Some (WriteErr (- WANT_WRITE K) EAGAIN)" "0 < WANT_WRITE K"
      using assms(1,2,4) f by (auto simp: SSL_Write_def X_write_def get_error_def codes_ok_def)
    then show ?thesis using b assms(4) f
      by (intro exI [of _ "WriteErr (- WANT_WRITE K) EAGAIN"] exI [of _ "[]"])
        (auto simp: writeConn_def spinLock_def spinUnlock_def Let_def sent_def emit_def on_poll_def ModReadWrite_def epoll_mod_def)
  qed
qed

definition sample_codes :: ssl_codes where
  "sample_codes = \<lparr>WANT_READ = 2, WANT_WRITE = 3, ZERO_RETURN = 6, SYSCALL = 5\<rparr>"

lemma sample_codes_ok: "codes_ok sample_codes"
  by (simp add: codes_ok_def sample_codes_def)

theorem ssl_delivers_plaintext_witness:
  "ssl_reads sample_codes ([(\<lparr>ret = - 1, code = 2, errno = 0\<rparr>, [])] @ (\<lparr>ret = 1, code = 0, errno = 0\<rparr>, []) #
      [(\<lparr>ret = - 1, code = 2, errno = 0\<rparr>, []), (\<lparr>ret = 2, code = 0, errno = 0\<rparr>, bs ''hi.'')]) \<lparr>ssl_fd = 7, handshaked = False\<rparr> =
    (\<lparr>ssl_fd = 7, handshaked = False\<rparr>\<lparr>handshaked := True\<rparr>,
     replicate (Suc (length [(\<lparr>ret = - 1, code = 2, errno = 0\<rparr> :: ssl_call, [] :: bytes)])) (ReadErr EAGAIN) @ map read_of [None, Some (bs ''hi'')])"
  by (rule ssl_delivers_plaintext [OF sample_codes_ok, of 7])
    (simp_all add: ssl_accept_def failed_with_def sample_codes_def bs_def)

theorem ssl_write_keeps_rest_witness:
  "\<exists>w l n sent. SSL_Write sample_codes \<lparr>ret = 2, code = 0, errno = 0\<rparr> (conn_out (store (put 2 ((store sample_waiting 2)\<lparr>conn_out := bs ''abc''\<rparr>) sample_waiting) 2))
        \<lparr>ssl_fd = 7, handshaked = True\<rparr> = Some w \<and>
    writeConn quiet_env 2 w (put 2 ((store sample_waiting 2)\<lparr>conn_out := bs ''abc''\<rparr>) sample_waiting) = Some (l, n) \<and>
    sent @ conn_out (store l 2) = conn_out (store (put 2 ((store sample_waiting 2)\<lparr>conn_out := bs ''abc''\<rparr>) sample_waiting) 2) \<and>
    length sent = nat (ret \<lparr>ret = 2, code = 0, errno = 0\<rparr>) \<and>
    outputs (fx l) = outputs (fx (put 2 ((store sample_waiting 2)\<lparr>conn_out := bs ''abc''\<rparr>) sample_waiting)) @ (if sent = [] then [] else [sent]) \<and>
    interest (ln_poll l) (conn_fd (store (put 2 ((store sample_waiting 2)\<lparr>conn_out := bs ''abc''\<rparr>) sample_waiting) 2)) = Some (conn_out (store l 2) \<noteq> [])"
  by (rule ssl_write_keeps_rest [OF sample_codes_ok, where inp = "[]"])
    (use sample_waiting_between in \<open>simp_all add: between_def bs_def\<close>)

end
