(* ===== verification/Go_Handler.thy ===== *)
theory Go_Handler
  imports HTTP_Response "HOL-Library.AList" "HOL-Library.Multiset"
begin

text \<open>
  http.go, \<open>RunGoHandler\<close> and \<open>RunPprof\<close>: handlers written for the
  net/http interface, run on the requests of this server.
\<close>

section \<open>Headers of net/http\<close>

text \<open>The canonical form of a key: words between hyphens start in upper case; a key with a byte that no token may hold stays as it is.\<close>

definition token_byte :: "byte \<Rightarrow> bool" where
  "token_byte c \<longleftrightarrow> 48 \<le> c \<and> c \<le> 57 \<or> 65 \<le> c \<and> c \<le> 90 \<or> 97 \<le> c \<and> c \<le> 122 \<or>
     c \<in> set (bs ''!#$%&*+-.^_|~'') \<or> c = 39 \<or> c = 96"

fun canon :: "bool \<Rightarrow> bytes \<Rightarrow> bytes" where
  "canon up [] = []"
| "canon up (c # cs) = (if up then to_upper c else to_lower c) # canon (c = 45) cs"

definition canonical_key :: "bytes \<Rightarrow> bytes" where
  "canonical_key k = (if list_all token_byte k then canon True k else k)"

definition header_Set :: "bytes \<Rightarrow> bytes \<Rightarrow> header \<Rightarrow> header" where
  "header_Set k v h = AList.update (canonical_key k) [v] h"

definition header_Get :: "bytes \<Rightarrow> header \<Rightarrow> bytes" where
  "header_Get k h = (case map_of h (canonical_key k) of Some (v # _) \<Rightarrow> v | _ \<Rightarrow> [])"

section \<open>Handlers\<close>

definition new_writer :: net_http_response_writer where
  "new_writer = \<lparr>rw_code = 0, rw_header = None, rw_body = []\<rparr>"

definition rw_Flush :: "net_http_response_writer \<Rightarrow> net_http_response_writer" where
  "rw_Flush w = w"

text \<open>
  A handler written for net/http sees the request and calls the methods of the writer. In the map that \<open>Header\<close> returns
  it writes an entry (\<open>Set\<close>, \<open>Add\<close> and assignments do) or deletes one (\<open>Del\<close>).
\<close>

datatype writer_call = CallHeader bytes "bytes list" | CallDel bytes | CallWriteHeader int | CallWrite bytes | CallFlush

fun header_call :: "writer_call \<Rightarrow> header \<Rightarrow> header" where
  "header_call (CallHeader k v) h = AList.update k v h"
| "header_call (CallDel k) h = AList.delete k h"
| "header_call _ h = h"

fun writer_step :: "writer_call \<Rightarrow> net_http_response_writer \<Rightarrow> net_http_response_writer" where
  "writer_step (CallWriteHeader n) w = WriteHeader n w"
| "writer_step (CallWrite p) w = fst (rw_Write p w)"
| "writer_step CallFlush w = rw_Flush w"
| "writer_step x w = (case rw_Header w of (w, h) \<Rightarrow> w\<lparr>rw_header := Some (header_call x h)\<rparr>)"

section \<open>RunGoHandler\<close>

record go_url =
  url_Scheme :: bytes
  url_Host :: bytes
  url_Path :: bytes
  url_RawQuery :: bytes

record go_request =
  gr_URL :: go_url
  gr_RequestURI :: bytes
  gr_Method :: bytes
  gr_Proto :: "int \<times> int"
  gr_Host :: bytes
  gr_Header :: header
  gr_TransferEncoding :: "bytes list"

text \<open>
  \<open>URL.String\<close> of net/url is an argument. So is \<open>visit\<close>, which puts the entries of the handler's header into the order in
  which the loop of \<open>resp0\<close> over the map visits them; Go does not fix that order.
\<close>

definition RunGoHandler :: "(go_url \<Rightarrow> bytes) \<Rightarrow> (header \<Rightarrow> header) \<Rightarrow> (go_request \<Rightarrow> writer_call list) \<Rightarrow> http \<Rightarrow> conn \<Rightarrow> (http \<times> conn \<times> int list) option" where
  "RunGoHandler url_String visit h sh c = do {
     (sh, host, path, query) \<leftarrow> http_URL sh;
     let u = \<lparr>url_Scheme = bs ''http:'', url_Host = host, url_Path = path, url_RawQuery = query\<rparr>;
     let uri = url_String u;
     (sh, m) \<leftarrow> Method sh;
     (hdr, te) \<leftarrow> ForeachHeader (\<lambda>sk v (hdr, te).
         if sk = bs ''transfer-encoding'' then ((hdr, te @ [v]), True) else ((header_Set sk v hdr, te), True)) sh ([], []);
     let r = \<lparr>gr_URL = u, gr_RequestURI = uri, gr_Method = m, gr_Proto = (1, 1), gr_Host = http_host sh, gr_Header = hdr, gr_TransferEncoding = te\<rparr>;
     let w = fold writer_step (h r) new_writer;
     let hs = (case rw_header w of None \<Rightarrow> [] | Some hs \<Rightarrow> hs);
     c \<leftarrow> BytesHeaders (rw_code w) (header_Get (bs ''Content-Type'') hs) (visit hs) (rw_body w) c;
     Some (sh, c, Flush c) }"

text \<open>\<open>RunPprof\<close> picks a handler of net/http/pprof by the path.\<close>

record pprof =
  pp_Cmdline :: "go_request \<Rightarrow> writer_call list"
  pp_Profile :: "go_request \<Rightarrow> writer_call list"
  pp_Symbol :: "go_request \<Rightarrow> writer_call list"
  pp_Trace :: "go_request \<Rightarrow> writer_call list"
  pp_Index :: "go_request \<Rightarrow> writer_call list"

definition RunPprof :: "(go_url \<Rightarrow> bytes) \<Rightarrow> (header \<Rightarrow> header) \<Rightarrow> pprof \<Rightarrow> http \<Rightarrow> conn \<Rightarrow> (http \<times> conn \<times> int list) option" where
  "RunPprof url_String visit P sh c =
     (if prefix (bs ''/debug/pprof/cmdline'') (http_path sh) then RunGoHandler url_String visit (pp_Cmdline P) sh c
      else if prefix (bs ''/debug/pprof/profile'') (http_path sh) then RunGoHandler url_String visit (pp_Profile P) sh c
      else if prefix (bs ''/debug/pprof/symbol'') (http_path sh) then RunGoHandler url_String visit (pp_Symbol P) sh c
      else if prefix (bs ''/debug/pprof/trace'') (http_path sh) then RunGoHandler url_String visit (pp_Trace P) sh c
      else RunGoHandler url_String visit (pp_Index P) sh c)"

section \<open>What the client gets\<close>

text \<open>The body a handler wrote, its last status and its headers, read off its calls.\<close>

definition calls_body :: "writer_call list \<Rightarrow> bytes" where
  "calls_body cs = concat (map (\<lambda>x. case x of CallWrite p \<Rightarrow> p | _ \<Rightarrow> []) cs)"

definition calls_status :: "writer_call list \<Rightarrow> int" where
  "calls_status cs = fold (\<lambda>x n. case x of CallWriteHeader m \<Rightarrow> m | _ \<Rightarrow> n) cs 0"

definition calls_header :: "writer_call list \<Rightarrow> header" where
  "calls_header cs = fold header_call cs []"

lemma writer_run:
  "rw_body (fold writer_step cs w) = rw_body w @ calls_body cs"
  "rw_code (fold writer_step cs w) = fold (\<lambda>x n. case x of CallWriteHeader m \<Rightarrow> m | _ \<Rightarrow> n) cs (rw_code w)"
  "(case rw_header (fold writer_step cs w) of None \<Rightarrow> [] | Some h \<Rightarrow> h) =
     fold header_call cs (case rw_header w of None \<Rightarrow> [] | Some h \<Rightarrow> h)"
proof -
  have s: "rw_body (writer_step x w) = rw_body w @ (case x of CallWrite p \<Rightarrow> p | _ \<Rightarrow> [])"
    "rw_code (writer_step x w) = (case x of CallWriteHeader m \<Rightarrow> m | _ \<Rightarrow> rw_code w)"
    "(case rw_header (writer_step x w) of None \<Rightarrow> [] | Some h \<Rightarrow> h) =
      header_call x (case rw_header w of None \<Rightarrow> [] | Some h \<Rightarrow> h)" for x w
    by (cases x; simp add: rw_Header_def WriteHeader_def rw_Write_def rw_Flush_def split: option.split)+
  show "rw_body (fold writer_step cs w) = rw_body w @ calls_body cs"
    by (induction cs arbitrary: w) (simp_all add: calls_body_def s(1))
  show "rw_code (fold writer_step cs w) = fold (\<lambda>x n. case x of CallWriteHeader m \<Rightarrow> m | _ \<Rightarrow> n) cs (rw_code w)"
    by (induction cs arbitrary: w) (simp_all add: s(2))
  show "(case rw_header (fold writer_step cs w) of None \<Rightarrow> [] | Some h \<Rightarrow> h) =
     fold header_call cs (case rw_header w of None \<Rightarrow> [] | Some h \<Rightarrow> h)"
    by (induction cs arbitrary: w) (simp_all add: s(3))
qed

text \<open>The request a handler sees for a request without a query.\<close>

definition request_header :: "bytes list \<Rightarrow> header" where
  "request_header hdrs = fold (\<lambda>(k, v). header_Set k v) (filter (\<lambda>(k, v). k \<noteq> bs ''transfer-encoding'') (List.map_filter header_pair hdrs)) []"

definition request_encoding :: "bytes list \<Rightarrow> bytes list" where
  "request_encoding hdrs = map snd (filter (\<lambda>(k, v). k = bs ''transfer-encoding'') (List.map_filter header_pair hdrs))"

definition go_view :: "(go_url \<Rightarrow> bytes) \<Rightarrow> bytes \<Rightarrow> bytes list \<Rightarrow> http \<Rightarrow> go_request" where
  "go_view url_String meth hdrs sh = (let u = \<lparr>url_Scheme = bs ''http:'', url_Host = http_host sh, url_Path = http_path sh, url_RawQuery = []\<rparr> in
     \<lparr>gr_URL = u, gr_RequestURI = url_String u, gr_Method = map to_upper meth, gr_Proto = (1, 1), gr_Host = http_host sh,
      gr_Header = request_header hdrs, gr_TransferEncoding = request_encoding hdrs\<rparr>)"

lemma collect_headers:
  "fold_headers (\<lambda>sk v (hdr, te). if sk = bs ''transfer-encoding'' then ((hdr, te @ [v]), True) else ((header_Set sk v hdr, te), True)) kvs (h0, te0) =
    (fold (\<lambda>(k, v). header_Set k v) (filter (\<lambda>(k, v). k \<noteq> bs ''transfer-encoding'') kvs) h0,
     te0 @ map snd (filter (\<lambda>(k, v). k = bs ''transfer-encoding'') kvs))"
  by (induction kvs arbitrary: h0 te0) auto

lemma to_upper_eq:
  assumes "k < 65"
  shows "to_upper c = k \<longleftrightarrow> c = k"
proof -
  have "65 \<le> c - 97 + 65" if "97 \<le> c" "c \<le> 122"
  proof -
    have "(32 :: byte) \<le> c" using that by (simp add: word_le_nat_alt)
    then have "unat (c - 32) = unat c - 32" by (simp add: unat_sub)
    then show ?thesis using that by (simp add: word_le_nat_alt)
  qed
  then show ?thesis using assms by (auto simp: to_upper_def word_le_nat_alt word_less_nat_alt)
qed

lemma map_option_bind: "map_option f x = x \<bind> (\<lambda>y. Some (f y))"
  by (cases x) simp_all

lemma RunGoHandler_runs:
  assumes "qStart sh = 0" and "http_data sh = decoded_head meth t version hdrs @ body" and "32 \<notin> set meth"
    and "13 \<notin> set (decoded_line meth t version)" and "list_all plain_line hdrs" and "snd (parse_headers m r hdrs) = None"
  shows "\<exists>sh'. RunGoHandler url_String visit h sh c = (let cs = h (go_view url_String meth hdrs sh) in
      map_option (\<lambda>c. (sh', c, Flush c)) (BytesHeaders (calls_status cs) (header_Get (bs ''Content-Type'') (calls_header cs)) (visit (calls_header cs)) (calls_body cs) c))"
proof -
  let ?M = "map to_upper meth" and ?f = "\<lambda>sk v (hdr, te). if sk = bs ''transfer-encoding'' then ((hdr, te @ [v]), True) else ((header_Set sk v hdr, te), True)"
  define sh' where "sh' = sh\<lparr>http_data := decoded_head ?M t version hdrs @ body\<rparr>"
  have u: "http_URL sh = Some (sh, http_host sh, http_path sh, [])" using assms(1) by (simp add: http_URL_def ForeachQuery_def)
  have d: "http_data sh = meth @ 32 # drop (length meth + 1) (decoded_head meth t version hdrs @ body)"
    unfolding assms(2) by (simp add: decoded_head_def decoded_line_def Let_def)
  have "index_byte 32 (http_data sh) = Some (length meth)" unfolding d by (rule index_byte_first) (rule assms(3))
  moreover have "overwrite (http_data sh) 0 ?M = decoded_head ?M t version hdrs @ body"
    unfolding assms(2) by (simp add: overwrite_def decoded_head_def decoded_line_def Let_def)
  moreover have "take (length meth) (http_data sh) = meth" unfolding d by simp
  ultimately have m: "Method sh = Some (sh', ?M)" by (simp add: Method_def sh'_def Let_def)
  have "13 \<notin> set (decoded_line ?M t version)"
    using assms(4) to_upper_eq [of 13] by (auto simp: decoded_line_def Let_def)
  then have f: "ForeachHeader ?f sh' ([], []) = Some (request_header hdrs, request_encoding hdrs)"
    using ForeachHeader_request [of sh' ?M t version hdrs body m r ?f "([], [])"] assms(5,6) collect_headers [of "List.map_filter header_pair hdrs" "[]" "[]"]
    by (simp add: sh'_def request_header_def request_encoding_def)
  have w: "(case rw_header (fold writer_step cs new_writer) of None \<Rightarrow> [] | Some h \<Rightarrow> h) = calls_header cs"
    "rw_code (fold writer_step cs new_writer) = calls_status cs" "rw_body (fold writer_step cs new_writer) = calls_body cs" for cs
    using writer_run [of cs new_writer] by (simp_all add: calls_header_def calls_status_def new_writer_def)
  have hh: "http_host sh' = http_host sh" by (simp add: sh'_def)
  show ?thesis
    by (intro exI [of _ sh']) (simp add: RunGoHandler_def u m f w hh Let_def go_view_def map_option_bind)
qed

text \<open>
  C19: a handler written for net/http that is run on a parsed request without a query sees the
  method in upper case, the decoded path, the host, and the headers under their canonical keys;
  what it writes reaches the client as one response: the status it set last, its content type, the
  headers it set and did not delete, in whatever order the loop over the map visits them, a
  Content-Length that is the length of the body, and as the body everything it wrote in
  order.
\<close>

theorem go_handler_response:
  assumes "qStart sh = 0" and "http_data sh = decoded_head meth t version hdrs @ body" and "32 \<notin> set meth"
    and "13 \<notin> set (decoded_line meth t version)" and "list_all plain_line hdrs" and "snd (parse_headers m r hdrs) = None"
    and "\<not> lock c" and "h (go_view url_String meth hdrs sh) = cs" and "list_all entry_ok (calls_header cs)"
    and "header_Get (bs ''Content-Type'') (calls_header cs) = ct" and "13 \<notin> set ct" and "mset (visit (calls_header cs)) = mset (calls_header cs)"
  shows "\<exists>sh' c'. RunGoHandler url_String visit h sh c = Some (sh', c', Flush c) \<and>
    take (length (conn_out c)) (conn_out c') = conn_out c \<and>
    read_response (drop (length (conn_out c)) (conn_out c')) =
      Some (response_lines (calls_status cs) ct (visit (calls_header cs)) (calls_body cs), calls_body cs)"
proof -
  obtain sh' where "RunGoHandler url_String visit h sh c =
      map_option (\<lambda>c. (sh', c, Flush c)) (BytesHeaders (calls_status cs) ct (visit (calls_header cs)) (calls_body cs) c)"
    using RunGoHandler_runs [OF assms(1-6), of url_String visit h c] assms(8,10) by (auto simp: Let_def)
  moreover have e: "list_all entry_ok (visit (calls_header cs))" using assms(9) mset_eq_setD [OF assms(12)] by (simp add: list_all_iff)
  ultimately show ?thesis
    using respFull_append [OF assms(7) e, of "calls_status cs" ct "calls_body cs"] response_text_read [OF e assms(11), of "calls_status cs" "calls_body cs"]
    by (simp add: BytesHeaders_def Flush_def)
qed

text \<open>A handler that sets three headers and takes one back; the loop visits the others from the last to the first.\<close>

definition hello_handler :: "go_request \<Rightarrow> writer_call list" where
  "hello_handler r = [CallHeader (bs ''Content-Type'') [bs ''text/html''], CallHeader (bs ''X-A'') [bs ''1''], CallHeader (bs ''X-B'') [bs ''2''],
     CallDel (bs ''X-A''), CallWriteHeader 201, CallWrite (gr_Method r), CallFlush, CallWrite (url_Path (gr_URL r))]"

definition hello_request :: http where
  "hello_request = new_http\<lparr>http_path := bs ''/x'', http_data := decoded_head (bs ''get'') (bs ''/x'') (bs ''HTTP/1.1'') [bs ''Host: h''] @ []\<rparr>"

definition hello_view :: go_request where
  "hello_view = go_view (\<lambda>u. url_Path u) (bs ''get'') [bs ''Host: h''] hello_request"

theorem go_handler_response_witness:
  "\<exists>sh' c'. RunGoHandler (\<lambda>u. url_Path u) rev hello_handler hello_request (new_conn 5 False) = Some (sh', c', Flush (new_conn 5 False)) \<and>
    take (length (conn_out (new_conn 5 False))) (conn_out c') = conn_out (new_conn 5 False) \<and>
    read_response (drop (length (conn_out (new_conn 5 False))) (conn_out c')) =
      Some (response_lines 201 (bs ''text/html'') [(bs ''X-B'', [bs ''2'']), (bs ''Content-Type'', [bs ''text/html''])] (bs ''GET/x''), bs ''GET/x'')"
proof -
  have b: "calls_body (hello_handler hello_view) = bs ''GET/x''" by code_simp
  have h: "calls_header (hello_handler hello_view) = [(bs ''Content-Type'', [bs ''text/html'']), (bs ''X-B'', [bs ''2''])]"
    by (simp add: hello_handler_def calls_header_def bs_def)
  have n: "calls_status (hello_handler hello_view) = 201" by (simp add: hello_handler_def calls_status_def)
  have "\<exists>sh' c'. RunGoHandler (\<lambda>u. url_Path u) rev hello_handler hello_request (new_conn 5 False) = Some (sh', c', Flush (new_conn 5 False)) \<and>
    take (length (conn_out (new_conn 5 False))) (conn_out c') = conn_out (new_conn 5 False) \<and>
    read_response (drop (length (conn_out (new_conn 5 False))) (conn_out c')) =
      Some (response_lines (calls_status (hello_handler hello_view)) (bs ''text/html'') (rev (calls_header (hello_handler hello_view))) (calls_body (hello_handler hello_view)),
        calls_body (hello_handler hello_view))"
  proof (rule go_handler_response)
    show "13 \<notin> set (decoded_line (bs ''get'') (bs ''/x'') (bs ''HTTP/1.1''))" by code_simp
    show "snd (parse_headers 100 new_http [bs ''Host: h'']) = None" by code_simp
    show "header_Get (bs ''Content-Type'') (calls_header (hello_handler hello_view)) = bs ''text/html''" by code_simp
    show "list_all entry_ok (calls_header (hello_handler hello_view))" unfolding h by (simp add: entry_ok_def bs_def)
    show "http_data hello_request = decoded_head (bs ''get'') (bs ''/x'') (bs ''HTTP/1.1'') [bs ''Host: h''] @ []" by (simp add: hello_request_def)
  qed (simp_all add: hello_request_def new_http_def bs_def plain_line_def new_conn_def hello_view_def)
  then show ?thesis unfolding b h n by simp
qed

end
