(* ===== verification/Poll_Kqueue.thy ===== *)
theory Poll_Kqueue
  imports Poll
begin

text \<open>
  internal/internal_bsd.go: the poller over kqueue, with the same operations as the one over
  epoll, and how the two compare.
\<close>

section \<open>State and operations\<close>

datatype kfilter = EVFILT_READ | EVFILT_WRITE | EVFILT_USER

text \<open>
  The filters the kernel has registered are part of the state. \<open>EV_ADD\<close> of a filter that is
  there leaves it, and closing a descriptor removes its filters. Changes wait in a list until \<open>Kevent\<close> is called.
\<close>

record kpoll =
  kq_fd :: int
  changes :: "(int \<times> kfilter) list"
  writeFds :: "int lock_queue"
  registered :: "(int \<times> kfilter) set"
  triggered :: bool

definition kq_OpenPoll :: "int option \<Rightarrow> bool \<Rightarrow> kpoll option" where
  "kq_OpenPoll p user = do {
     p \<leftarrow> p;
     (if \<not> user then None
      else Some \<lparr>kq_fd = p, changes = [], writeFds = new_queue 0, registered = {(0, EVFILT_USER)}, triggered = False\<rparr>) }"

definition kq_Trigger :: "int \<Rightarrow> kpoll \<Rightarrow> kpoll" where
  "kq_Trigger fd p = p\<lparr>writeFds := Add fd (writeFds p), triggered := True\<rparr>"

definition kq_AddRead :: "int \<Rightarrow> kpoll \<Rightarrow> kpoll" where
  "kq_AddRead fd p = p\<lparr>changes := changes p @ [(fd, EVFILT_READ)]\<rparr>"

definition kq_AddReadWrite :: "int \<Rightarrow> kpoll \<Rightarrow> kpoll" where
  "kq_AddReadWrite fd p = p\<lparr>changes := changes p @ [(fd, EVFILT_WRITE)]\<rparr>"

definition kq_ModRead :: "int \<Rightarrow> kpoll \<Rightarrow> kpoll" where
  "kq_ModRead fd p = kq_AddRead fd p"

definition kq_ModReadWrite :: "int \<Rightarrow> kpoll \<Rightarrow> kpoll" where
  "kq_ModReadWrite fd p = kq_AddReadWrite fd p"

definition kq_forget :: "int \<Rightarrow> kpoll \<Rightarrow> kpoll" where
  "kq_forget fd p = p\<lparr>registered := {(d, f) \<in> registered p. d \<noteq> fd}\<rparr>"

text \<open>
  One turn of the loop of \<open>Wait\<close>: \<open>Kevent\<close> takes the changes and returns events (descriptor, filter, end of file), the
  queue is swapped out, and the callback is called. \<open>live\<close> are the descriptors that are open: a change for a
  descriptor closed in the meantime registers nothing, the kernel reports it among the events with its
  filter, and the loop passes it on like any other. The arguments \<open>ok\<close> and \<open>evs\<close> are those of the poller over epoll.
\<close>

fun kq_calls :: "(nat \<Rightarrow> bool) \<Rightarrow> nat \<Rightarrow> (int \<times> kfilter \<times> bool) list \<Rightarrow> (int \<times> u32) list \<times> bool" where
  "kq_calls ok n [] = ([], True)"
| "kq_calls ok n ((fd, f, eof) # evs) =
     (if fd = 0 \<or> f = EVFILT_USER then kq_calls ok n evs
      else
        let c = (fd, if f = EVFILT_WRITE then WRITE else if eof then READ OR EOF else READ)
        in if \<not> ok n then ([c], False) else case kq_calls ok (Suc n) evs of (calls, on) \<Rightarrow> (c # calls, on))"

definition kq_Wait_turn :: "(nat \<Rightarrow> bool) \<Rightarrow> int set \<Rightarrow> (int \<times> kfilter \<times> bool) list option \<Rightarrow> kpoll \<Rightarrow> ((int \<times> u32) list \<times> kpoll \<times> bool) option" where
  "kq_Wait_turn ok live evs p =
     (case evs of
        None \<Rightarrow> Some ([], p, False)
      | Some evs \<Rightarrow> do {
          let p = p\<lparr>registered := registered p \<union> {x \<in> set (changes p). fst x \<in> live}, changes := []\<rparr>;
          (fds, q) \<leftarrow> SwapOutForEach ok (writeFds p);
          let p = p\<lparr>writeFds := q, triggered := False\<rparr>;
          let swapped = map (\<lambda>fd. (fd, WRITE)) fds;
          (if fds \<noteq> [] \<and> \<not> ok (length fds - 1) then Some (swapped, p, False)
           else case kq_calls ok (length fds) evs of (calls, on) \<Rightarrow> Some (swapped @ calls, p, on)) })"

abbreviation kq_Wait_nil :: "int set \<Rightarrow> (int \<times> kfilter \<times> bool) list \<Rightarrow> kpoll \<Rightarrow> ((int \<times> u32) list \<times> kpoll \<times> bool) option" where
  "kq_Wait_nil live evs p \<equiv> kq_Wait_turn (\<lambda>_. True) live (Some evs) p"

section \<open>Both pollers under the same operations\<close>

datatype poll_op = OpAddRead int | OpAddReadWrite int | OpModRead int | OpModReadWrite int | OpTrigger int | OpClose int

fun epoll_op :: "poll_op \<Rightarrow> poll \<Rightarrow> poll option" where
  "epoll_op (OpAddRead fd) p = AddRead fd p"
| "epoll_op (OpAddReadWrite fd) p = AddReadWrite fd p"
| "epoll_op (OpModRead fd) p = ModRead fd p"
| "epoll_op (OpModReadWrite fd) p = ModReadWrite fd p"
| "epoll_op (OpTrigger fd) p = Some (Trigger fd p)"
| "epoll_op (OpClose fd) p = Some (forget fd p)"

fun kqueue_op :: "poll_op \<Rightarrow> kpoll \<Rightarrow> kpoll" where
  "kqueue_op (OpAddRead fd) k = kq_AddRead fd k"
| "kqueue_op (OpAddReadWrite fd) k = kq_AddReadWrite fd k"
| "kqueue_op (OpModRead fd) k = kq_ModRead fd k"
| "kqueue_op (OpModReadWrite fd) k = kq_ModReadWrite fd k"
| "kqueue_op (OpTrigger fd) k = kq_Trigger fd k"
| "kqueue_op (OpClose fd) k = kq_forget fd k"

lemmas kq_defs = kq_AddRead_def kq_AddReadWrite_def kq_ModRead_def kq_ModReadWrite_def kq_Trigger_def kq_forget_def

text \<open>The filters that are registered when the next turn waits.\<close>

definition wanted :: "int set \<Rightarrow> kpoll \<Rightarrow> (int \<times> kfilter) set" where
  "wanted live k = registered k \<union> {x \<in> set (changes k). fst x \<in> live}"

lemma wanted_op:
  "fd \<in> live \<Longrightarrow> wanted live (kq_AddRead fd k) = insert (fd, EVFILT_READ) (wanted live k)"
  "fd \<in> live \<Longrightarrow> wanted live (kq_AddReadWrite fd k) = insert (fd, EVFILT_WRITE) (wanted live k)"
  "wanted live (kq_Trigger fd k) = wanted live k" "wanted live k \<subseteq> wanted live (kq_AddRead fd k)" "wanted live k \<subseteq> wanted live (kq_AddReadWrite fd k)"
  "x \<in> wanted live k \<Longrightarrow> fst x \<noteq> fd \<Longrightarrow> x \<in> wanted live (kq_forget fd k)"
  "x \<in> wanted live k \<Longrightarrow> fst x \<noteq> fd \<Longrightarrow> x \<in> wanted (live - {fd}) (kq_forget fd k)"
  "x \<in> wanted live k \<Longrightarrow> x \<in> wanted (insert fd live) k"
  by (auto simp: wanted_def kq_defs)

abbreviation kq_pending :: "kpoll \<Rightarrow> int list \<Rightarrow> bool" where
  "kq_pending k fds \<equiv> \<exists>as. well_formed (writeFds k) as \<and> fds = map (fst \<circ> nodes (writeFds k)) as"

lemma kq_calls_nil: "snd (kq_calls (\<lambda>_. True) n evs)"
  by (induction "\<lambda>_ :: nat. True" n evs rule: kq_calls.induct) (auto simp: Let_def split: prod.splits)

lemma kq_turn:
  assumes "kq_pending k fds"
  shows "\<exists>k'. kq_Wait_nil live evs k = Some (map (\<lambda>fd. (fd, WRITE)) fds @ fst (kq_calls (\<lambda>_. True) (length fds) evs), k', True) \<and>
    registered k' = wanted live k \<and> changes k' = [] \<and> kq_pending k' []"
proof -
  from lq.swap_out_all [OF assms] obtain q where q: "SwapOutForEach (\<lambda>_. True) (writeFds k) = Some (fds, q)"
    "\<exists>as. well_formed q as \<and> [] = map (fst \<circ> nodes q) as" by blast
  let ?k = "k\<lparr>registered := wanted live k, changes := [], writeFds := q, triggered := False\<rparr>"
  have "kq_pending ?k []" using q(2) by simp
  then show ?thesis using q(1) kq_calls_nil [of "length fds" evs]
    by (intro exI [of _ ?k]) (auto simp: kq_Wait_turn_def wanted_def Let_def split: prod.splits)
qed

lemma pending_op:
  assumes "\<exists>fds. kq_pending k fds"
  shows "\<exists>fds. kq_pending (kqueue_op x k) fds"
  using assms lq.add_holds [of "writeFds k"] by (cases x) (auto simp: kq_defs)

text \<open>
  A program that runs over both pollers: the descriptors that are open, and those that were added with
  \<open>AddReadWrite\<close> and not given to \<open>ModRead\<close> since. The kernel hands out descriptors, the program adds, changes,
  triggers and closes them, and the loop takes its turns.
\<close>

inductive both :: "int \<Rightarrow> int set \<Rightarrow> int set \<Rightarrow> poll \<Rightarrow> kpoll \<Rightarrow> bool" for w where
  both_open: "OpenPoll a (Some w) = Some p \<Longrightarrow> kq_OpenPoll b True = Some k \<Longrightarrow> both w {} {} p k"
| both_new: "both w live D p k \<Longrightarrow> fd \<notin> live \<Longrightarrow> both w (insert fd live) D p k"
| both_AddRead: "both w live D p k \<Longrightarrow> fd \<in> live \<Longrightarrow> AddRead fd p = Some p' \<Longrightarrow> both w live (D - {fd}) p' (kq_AddRead fd k)"
| both_AddReadWrite: "both w live D p k \<Longrightarrow> fd \<in> live \<Longrightarrow> AddReadWrite fd p = Some p' \<Longrightarrow> both w live (insert fd D) p' (kq_AddReadWrite fd k)"
| both_ModRead: "both w live D p k \<Longrightarrow> fd \<in> live \<Longrightarrow> ModRead fd p = Some p' \<Longrightarrow> both w live (D - {fd}) p' (kq_ModRead fd k)"
| both_ModReadWrite: "both w live D p k \<Longrightarrow> fd \<in> live \<Longrightarrow> ModReadWrite fd p = Some p' \<Longrightarrow> both w live D p' (kq_ModReadWrite fd k)"
| both_Trigger: "both w live D p k \<Longrightarrow> both w live D (Trigger fd p) (kq_Trigger fd k)"
| both_close: "both w live D p k \<Longrightarrow> both w (live - {fd}) (D - {fd}) (forget fd p) (kq_forget fd k)"
| both_turn: "both w live D p k \<Longrightarrow> Wait_nil evs p = Some (calls, p', True) \<Longrightarrow> kq_Wait_nil live kevs k = Some (kcalls, k', True) \<Longrightarrow> both w live D p' k'"

text \<open>Every readiness epoll reports has its filter: for writing always, for reading except where only \<open>AddReadWrite\<close> was called.\<close>

definition covers :: "int \<Rightarrow> int set \<Rightarrow> poll \<Rightarrow> (int \<times> kfilter) set \<Rightarrow> bool" where
  "covers w D p fs \<longleftrightarrow> (\<forall>fd out. fd \<noteq> w \<longrightarrow> interest p fd = Some out \<longrightarrow>
     (out \<longrightarrow> (fd, EVFILT_WRITE) \<in> fs) \<and> (fd \<notin> D \<longrightarrow> (fd, EVFILT_READ) \<in> fs))"

lemma coversI:
  assumes "\<And>fd out. fd \<noteq> w \<Longrightarrow> interest p fd = Some out \<Longrightarrow> (out \<longrightarrow> (fd, EVFILT_WRITE) \<in> fs) \<and> (fd \<notin> D \<longrightarrow> (fd, EVFILT_READ) \<in> fs)"
  shows "covers w D p fs"
  using assms by (simp add: covers_def)

lemma both_covers:
  "both w live D p k \<Longrightarrow> covers w D p (wanted live k) \<and> (\<exists>fds. pending p fds) \<and> (\<exists>fds. kq_pending k fds)"
proof (induction rule: both.induct)
  case (both_open a p b k)
  have "interest p fd = (if fd = w then Some False else None)" for fd
    using both_open(1) by (auto simp: OpenPoll_def AddRead_def epoll_add_def split: bind_splits if_splits)
  moreover have "\<exists>fds. kq_pending k fds" using both_open(2) by (auto simp: kq_OpenPoll_def well_formed_def new_queue_def split: bind_splits)
  ultimately show ?case using pending_open [OF both_open(1)] by (auto simp: covers_def split: if_splits)
next
  case (both_new live D p k fd)
  then show ?case using wanted_op(8) [of _ live k fd] unfolding covers_def by blast
next
  case (both_AddRead live D p k fd p')
  have "interest p' = (interest p)(fd \<mapsto> False)" "writesFd p' = writesFd p"
    using both_AddRead(3) by (auto simp: AddRead_def epoll_add_def split: if_splits)
  then show ?case using both_AddRead.IH pending_op [of k "OpAddRead fd"]
    by (auto simp: covers_def wanted_op(1) [OF both_AddRead(2)] split: if_splits)
next
  case (both_AddReadWrite live D p k fd p')
  have "interest p' = (interest p)(fd \<mapsto> True)" "writesFd p' = writesFd p"
    using both_AddReadWrite(3) by (auto simp: AddReadWrite_def epoll_add_def split: if_splits)
  then show ?case using both_AddReadWrite.IH pending_op [of k "OpAddReadWrite fd"]
    by (auto simp: covers_def wanted_op(2) [OF both_AddReadWrite(2)] split: if_splits)
next
  case (both_ModRead live D p k fd p')
  have "interest p' = (interest p)(fd \<mapsto> False)" "writesFd p' = writesFd p"
    using both_ModRead(3) by (auto simp: ModRead_def epoll_mod_def split: if_splits)
  then show ?case using both_ModRead.IH pending_op [of k "OpModRead fd"]
    by (auto simp: covers_def kq_ModRead_def wanted_op(1) [OF both_ModRead(2)] split: if_splits)
next
  case (both_ModReadWrite live D p k fd p')
  have "interest p' = (interest p)(fd \<mapsto> True)" "writesFd p' = writesFd p" "interest p fd \<noteq> None"
    using both_ModReadWrite(3) by (auto simp: ModReadWrite_def epoll_mod_def split: if_splits)
  then show ?case using both_ModReadWrite.IH pending_op [of k "OpModReadWrite fd"]
    by (auto simp: covers_def kq_ModReadWrite_def wanted_op(2) [OF both_ModReadWrite(2)] split: if_splits)
next
  case (both_Trigger live D p k fd)
  obtain fds where "pending p fds" using both_Trigger.IH by blast
  from pending_Trigger [OF this, of fd] have "\<exists>fds. pending (Trigger fd p) fds" by blast
  moreover have "covers w D (Trigger fd p) (wanted live (kq_Trigger fd k))" using both_Trigger.IH by (simp add: covers_def wanted_op(3) Trigger_def)
  ultimately show ?case using both_Trigger.IH pending_op [of k "OpTrigger fd"] by simp
next
  case (both_close live D p k fd)
  have "covers w (D - {fd}) (forget fd p) (wanted (live - {fd}) (kq_forget fd k))"
  proof (rule coversI)
    fix fd' out assume "fd' \<noteq> w" "interest (forget fd p) fd' = Some out"
    then have "fd' \<noteq> fd" "interest p fd' = Some out" by (auto simp: forget_def split: if_splits)
    with both_close.IH \<open>fd' \<noteq> w\<close> show "(out \<longrightarrow> (fd', EVFILT_WRITE) \<in> wanted (live - {fd}) (kq_forget fd k)) \<and>
        (fd' \<notin> D - {fd} \<longrightarrow> (fd', EVFILT_READ) \<in> wanted (live - {fd}) (kq_forget fd k))"
      unfolding covers_def by (auto intro!: wanted_op(7))
  qed
  then show ?case using both_close.IH pending_op [of k "OpClose fd"] by (simp add: forget_def)
next
  case (both_turn live D p k evs calls p' kevs kcalls k')
  obtain fds where "kq_pending k fds" using both_turn.IH by blast
  from kq_turn [OF this, of live kevs] both_turn(3) have k: "registered k' = wanted live k" "changes k' = []" "kq_pending k' []" by auto
  from Wait_turn_kept [OF both_turn(2)] both_turn.IH have p: "pending p' []" "interest p' = interest p" by auto
  have "wanted live k' = wanted live k" by (simp add: wanted_def k(1,2))
  then have "covers w D p' (wanted live k')" using both_turn.IH p(2) by (simp add: covers_def)
  then show ?case using k(3) p(1) by blast
qed

text \<open>
  C35: in every program that runs over both pollers, with any number of turns behind it, every
  readiness the poller over epoll is told to report has its filter registered with kqueue
  when the next turn waits: for writing the write filter, and for reading the read filter,
  unless the descriptor was added with \<open>AddReadWrite\<close>, which registers no read filter over
  kqueue, and has not been given to \<open>ModRead\<close> since. A turn ends and the loop goes on.
\<close>

theorem kqueue_covers_epoll:
  assumes "both w live D p k"
  shows "\<exists>calls k'. kq_Wait_nil live evs k = Some (calls, k', True) \<and>
    (\<forall>fd out. fd \<noteq> w \<longrightarrow> interest p fd = Some out \<longrightarrow>
      (out \<longrightarrow> (fd, EVFILT_WRITE) \<in> registered k') \<and> (fd \<notin> D \<longrightarrow> (fd, EVFILT_READ) \<in> registered k'))"
proof -
  obtain fds where "kq_pending k fds" using both_covers [OF assms] by blast
  from kq_turn [OF this, of live evs] obtain calls k' where "kq_Wait_nil live evs k = Some (calls, k', True)" "registered k' = wanted live k" by blast
  moreover have "covers w D p (wanted live k)" using both_covers [OF assms] by simp
  ultimately show ?thesis by (auto simp: covers_def)
qed

text \<open>The server adds connections with \<open>AddRead\<close>: one that then waits to be written to.\<close>

definition sample_poll :: poll where
  "sample_poll = the (OpenPoll (Some 3) (Some 4))"

definition sample_kpoll :: kpoll where
  "sample_kpoll = the (kq_OpenPoll (Some 3) True)"

lemma sample_both:
  "both 4 {7} {} (sample_poll\<lparr>interest := [4 \<mapsto> False, 7 \<mapsto> True]\<rparr>) (kq_ModReadWrite 7 (kq_AddRead 7 sample_kpoll))"
proof -
  have "both 4 {} {} sample_poll sample_kpoll"
    by (rule both_open [of "Some 3" _ _ "Some 3"]) (simp_all add: sample_poll_def sample_kpoll_def OpenPoll_def AddRead_def epoll_add_def kq_OpenPoll_def)
  from both_new [OF this, of 7] have "both 4 {7} {} sample_poll sample_kpoll" by simp
  from both_AddRead [OF this, of 7 "sample_poll\<lparr>interest := [4 \<mapsto> False, 7 \<mapsto> False]\<rparr>"]
  have "both 4 {7} {} (sample_poll\<lparr>interest := [4 \<mapsto> False, 7 \<mapsto> False]\<rparr>) (kq_AddRead 7 sample_kpoll)"
    by (simp add: sample_poll_def OpenPoll_def AddRead_def epoll_add_def fun_eq_iff)
  from both_ModReadWrite [OF this, of 7 "sample_poll\<lparr>interest := [4 \<mapsto> False, 7 \<mapsto> True]\<rparr>"] show ?thesis
    by (simp add: ModReadWrite_def epoll_mod_def)
qed

theorem kqueue_covers_epoll_witness:
  "(7, EVFILT_READ) \<in> registered (fst (snd (the (kq_Wait_nil {7} [] (kq_ModReadWrite 7 (kq_AddRead 7 sample_kpoll)))))) \<and>
   (7, EVFILT_WRITE) \<in> registered (fst (snd (the (kq_Wait_nil {7} [] (kq_ModReadWrite 7 (kq_AddRead 7 sample_kpoll))))))"
  using kqueue_covers_epoll [OF sample_both, of "[]"] by auto

text \<open>What is missing after \<open>AddReadWrite\<close>: epoll reports incoming data, kqueue does not.\<close>

lemma AddReadWrite_no_read:
  assumes "(fd, EVFILT_READ) \<notin> wanted live k" and "AddReadWrite fd p = Some p'"
  shows "interest p' fd = Some True" and "(fd, EVFILT_READ) \<notin> wanted live (kq_AddReadWrite fd k)"
  using assms by (auto simp: AddReadWrite_def epoll_add_def wanted_def kq_defs split: if_splits)

text \<open>
  C40: over kqueue a descriptor that was once registered for writing stays registered until it is
  closed: \<open>ModRead\<close>, which over epoll turns the report of writability off, only adds the filter
  for reading.
\<close>

theorem kqueue_keeps_write_filter:
  assumes "(fd, EVFILT_WRITE) \<in> wanted live k" and "OpClose fd \<notin> set xs" and "kq_Wait_nil live evs (fold kqueue_op (xs @ [OpModRead fd]) k) = Some (calls, k', on)"
    and "interest p fd \<noteq> None"
  shows "(fd, EVFILT_WRITE) \<in> registered k' \<and> (\<exists>p'. epoll_op (OpModRead fd) p = Some p' \<and> interest p' fd = Some False)"
proof
  have op: "(fd, EVFILT_WRITE) \<in> wanted live (kqueue_op x k)" if "(fd, EVFILT_WRITE) \<in> wanted live k" "x \<noteq> OpClose fd" for x k
    using that wanted_op(4,5) [of live k] wanted_op(6) [of "(fd, EVFILT_WRITE)" live k]
    by (cases x) (auto simp: wanted_op(3) kq_ModRead_def kq_ModReadWrite_def)
  have "OpClose fd \<notin> set xs \<Longrightarrow> (fd, EVFILT_WRITE) \<in> wanted live k \<Longrightarrow> (fd, EVFILT_WRITE) \<in> wanted live (fold kqueue_op (xs @ [OpModRead fd]) k)" for xs k
    using op [of _ "OpModRead fd"] by (induction xs arbitrary: k) (use op in auto)
  from this [OF assms(2,1)] show "(fd, EVFILT_WRITE) \<in> registered k'"
    using assms(3) by (auto simp: kq_Wait_turn_def wanted_def Let_def split: bind_splits if_splits prod.splits)
  show "\<exists>p'. epoll_op (OpModRead fd) p = Some p' \<and> interest p' fd = Some False" using assms(4) by (simp add: ModRead_def epoll_mod_def)
qed

theorem kqueue_keeps_write_filter_witness:
  "(7, EVFILT_WRITE) \<in> registered (fst (snd (the (kq_Wait_nil {7} [] (fold kqueue_op ([] @ [OpModRead 7]) (kq_AddReadWrite 7 sample_kpoll)))))) \<and>
   (\<exists>p'. epoll_op (OpModRead 7) (sample_poll\<lparr>interest := [7 \<mapsto> True]\<rparr>) = Some p' \<and> interest p' 7 = Some False)"
proof (rule kqueue_keeps_write_filter)
  let ?k = "fold kqueue_op ([] @ [OpModRead 7]) (kq_AddReadWrite 7 sample_kpoll)"
  have "kq_pending ?k []" by (simp add: sample_kpoll_def kq_OpenPoll_def kq_defs well_formed_def new_queue_def)
  from kq_turn [OF this, of "{7}" "[]"] show "kq_Wait_nil {7} [] ?k = Some (fst (the (kq_Wait_nil {7} [] ?k)), fst (snd (the (kq_Wait_nil {7} [] ?k))), snd (snd (the (kq_Wait_nil {7} [] ?k))))" by auto
qed (simp_all add: wanted_def kq_defs)

end
