(* ===== verification/Sockets.thy ===== *)
theory Sockets
  imports Poll
begin

text \<open>
  Addresses, socket options and the descriptors of the process: \<open>internal/socktoaddr.go\<close>, \<open>SetKeepAlive\<close> on the
  different systems, and how \<open>Listen\<close>, \<open>Listener.Close\<close> and \<open>Poll.Close\<close> open and close descriptors.
\<close>

section \<open>Addresses\<close>

datatype sockaddr =
    SockaddrInet4 (sa_Addr: bytes) (sa_Port: int)
  | SockaddrInet6 (sa_Addr: bytes) (sa_Port: int) (ZoneId: u32)
  | SockaddrUnix (sa_Name: bytes)

datatype net_addr =
    TCPAddr (IP: bytes) (Port: int) (Zone: bytes)
  | UnixAddr (addr_Name: bytes)

text \<open>The names of the network interfaces by their index are an argument.\<close>

definition SockaddrToAddr :: "(int \<Rightarrow> bytes option) \<Rightarrow> sockaddr \<Rightarrow> net_addr" where
  "SockaddrToAddr ifs sa =
     (case sa of
        SockaddrInet4 ad p \<Rightarrow> TCPAddr ad p []
      | SockaddrInet6 ad p z \<Rightarrow>
          TCPAddr ad p (if z \<noteq> 0 then (case ifs (uint z) of Some n \<Rightarrow> n | None \<Rightarrow> []) else [])
      | SockaddrUnix n \<Rightarrow> UnixAddr n)"

text \<open>The address a client connects to: \<open>copy\<close> fills an array of fixed length.\<close>

definition fill :: "nat \<Rightarrow> bytes \<Rightarrow> bytes" where
  "fill n xs = take n xs @ replicate (n - length xs) 0"

definition client_addr :: "bytes \<Rightarrow> int \<Rightarrow> sockaddr" where
  "client_addr ip p = (if length ip = 4 then SockaddrInet4 (fill 4 ip) p else SockaddrInet6 (fill 16 ip) p 0)"

lemma client_addr_shown:
  assumes "length ip \<in> {4, 16}"
  shows "SockaddrToAddr ifs (client_addr ip p) = TCPAddr ip p []"
  using assms by (auto simp: SockaddrToAddr_def client_addr_def fill_def)

text \<open>An address without a host becomes the unspecified address.\<close>

lemma client_addr_unspecified: "SockaddrToAddr ifs (client_addr [] p) = TCPAddr (replicate 16 0) p []"
  by (simp add: SockaddrToAddr_def client_addr_def fill_def)

section \<open>Keeping connections alive\<close>

datatype sockopt = SO_KEEPALIVE | TCP_KEEPINTVL | TCP_KEEPIDLE

text \<open>
  A call of \<open>setsockopt\<close> sets an option of the socket, or fails with the error \<open>fail\<close> gives.
  macOS has other numbers for the same options and does not mind when the interval is not known.
\<close>

datatype opt_err = ENOPROTOOPT | OtherErr nat

definition SetsockoptInt :: "(sockopt \<Rightarrow> opt_err option) \<Rightarrow> sockopt \<Rightarrow> int \<Rightarrow> (sockopt \<rightharpoonup> int) \<Rightarrow> opt_err option \<times> (sockopt \<rightharpoonup> int)" where
  "SetsockoptInt fail op v s = (case fail op of None \<Rightarrow> (None, s(op \<mapsto> v)) | Some e \<Rightarrow> (Some e, s))"

definition SetKeepAlive :: "(sockopt \<Rightarrow> opt_err option) \<Rightarrow> int \<Rightarrow> (sockopt \<rightharpoonup> int) \<Rightarrow> opt_err option \<times> (sockopt \<rightharpoonup> int)" where
  "SetKeepAlive fail secs s =
     (case SetsockoptInt fail SO_KEEPALIVE 1 s of
        (Some e, s) \<Rightarrow> (Some e, s)
      | (None, s) \<Rightarrow>
          (case SetsockoptInt fail TCP_KEEPINTVL secs s of
             (Some e, s) \<Rightarrow> (Some e, s)
           | (None, s) \<Rightarrow> SetsockoptInt fail TCP_KEEPIDLE secs s))"

definition darwin_SetKeepAlive :: "(sockopt \<Rightarrow> opt_err option) \<Rightarrow> int \<Rightarrow> (sockopt \<rightharpoonup> int) \<Rightarrow> opt_err option \<times> (sockopt \<rightharpoonup> int)" where
  "darwin_SetKeepAlive fail secs s =
     (case SetsockoptInt fail SO_KEEPALIVE 1 s of
        (Some e, s) \<Rightarrow> (Some e, s)
      | (None, s) \<Rightarrow>
          (case SetsockoptInt fail TCP_KEEPINTVL secs s of
             (Some e, s) \<Rightarrow> if e = ENOPROTOOPT then SetsockoptInt fail TCP_KEEPIDLE secs s else (Some e, s)
           | (None, s) \<Rightarrow> SetsockoptInt fail TCP_KEEPIDLE secs s))"

definition openbsd_SetKeepAlive :: "int \<Rightarrow> (sockopt \<rightharpoonup> int) \<Rightarrow> opt_err option \<times> (sockopt \<rightharpoonup> int)" where
  "openbsd_SetKeepAlive secs s = (None, s)"

lemma SetKeepAlive_ok:
  assumes "SetKeepAlive fail secs s = (None, s')"
  shows "s' = s(SO_KEEPALIVE \<mapsto> 1, TCP_KEEPINTVL \<mapsto> secs, TCP_KEEPIDLE \<mapsto> secs)"
  using assms by (auto simp: SetKeepAlive_def SetsockoptInt_def split: option.splits)

lemma darwin_SetKeepAlive_same:
  assumes "fail TCP_KEEPINTVL \<noteq> Some ENOPROTOOPT"
  shows "darwin_SetKeepAlive fail secs s = SetKeepAlive fail secs s"
  using assms by (auto simp: SetKeepAlive_def darwin_SetKeepAlive_def SetsockoptInt_def split: option.splits)

lemma darwin_SetKeepAlive_old:
  assumes "fail SO_KEEPALIVE = None" and "fail TCP_KEEPINTVL = Some ENOPROTOOPT" and "fail TCP_KEEPIDLE = None"
  shows "darwin_SetKeepAlive fail secs s = (None, s(SO_KEEPALIVE \<mapsto> 1, TCP_KEEPIDLE \<mapsto> secs))"
  using assms by (simp add: darwin_SetKeepAlive_def SetsockoptInt_def)

section \<open>Descriptors\<close>

text \<open>The open descriptors of the process. Closing one that is not open fails.\<close>

definition close_fd :: "int \<Rightarrow> int set \<Rightarrow> bool \<times> int set" where
  "close_fd fd fds = (fd \<in> fds, fds - {fd})"

text \<open>\<open>Poll.Close\<close>; the first component is whether it returned no error.\<close>

definition Poll_Close :: "poll \<Rightarrow> int set \<Rightarrow> bool \<times> int set" where
  "Poll_Close p fds = (case close_fd (wfd p) fds of (ok, fds) \<Rightarrow> if \<not> ok then (False, fds) else close_fd (epfd p) fds)"

lemma Poll_Close_open:
  assumes "OpenPoll (Some p) (Some w) = Some l" and "p \<noteq> w" and "p \<notin> fds" and "w \<notin> fds"
  shows "Poll_Close l ({p, w} \<union> fds) = (True, fds)"
  using assms by (auto simp: Poll_Close_def close_fd_def OpenPoll_def AddRead_def epoll_add_def split: if_splits)

text \<open>
  The descriptors of a listener: the file is a duplicate of the listening socket, and \<open>fd\<close> is the descriptor of the
  file, not another one. \<open>fd = 0\<close> and \<open>None\<close> mean that there is none yet.
\<close>

record socket =
  sk_raw :: "int option"
  sk_f :: "int option"
  sk_fd :: int

text \<open>\<open>other\<close> is what the rest of the program opens between the first two calls of close.\<close>

definition Listener_Close :: "socket \<Rightarrow> int set \<Rightarrow> int set \<Rightarrow> int set" where
  "Listener_Close ln other fds =
     (let fds = (if sk_fd ln \<noteq> 0 then snd (close_fd (sk_fd ln) fds) else fds);
          fds = fds \<union> other;
          fds = (case sk_f ln of Some fd \<Rightarrow> snd (close_fd fd fds) | None \<Rightarrow> fds)
      in case sk_raw ln of Some fd \<Rightarrow> snd (close_fd fd fds) | None \<Rightarrow> fds)"

text \<open>\<open>Listen\<close> up to the creation of the list of connections, with the results of \<open>net.Listen\<close> and \<open>File\<close>.\<close>

definition Listen_socket :: "int option \<Rightarrow> int option \<Rightarrow> int set \<Rightarrow> socket option \<times> int set" where
  "Listen_socket raw file fds =
     (case raw of
        None \<Rightarrow> (None, fds)
      | Some r \<Rightarrow>
          (case file of
             None \<Rightarrow> (None, Listener_Close \<lparr>sk_raw = Some r, sk_f = None, sk_fd = 0\<rparr> {} (insert r fds))
           | Some f \<Rightarrow> (Some \<lparr>sk_raw = Some r, sk_f = Some f, sk_fd = f\<rparr>, insert f (insert r fds))))"

lemma Listen_socket_fails_clean:
  assumes "Listen_socket raw file fds = (None, fds')" and "raw \<notin> Some ` fds"
  shows "fds' = fds"
  using assms by (auto simp: Listen_socket_def Listener_Close_def close_fd_def split: option.splits)

lemma Listener_Close_open:
  assumes "Listen_socket (Some r) (Some f) fds = (Some ln, fds')" and "r \<notin> fds" and "f \<notin> fds"
  shows "Listener_Close ln {} fds' = fds"
  using assms by (auto simp: Listen_socket_def Listener_Close_def close_fd_def Let_def)

text \<open>
  Closing a listener closes its descriptor twice: when another part of the program gets the same number in
  between, as the kernel hands out the smallest free one, its descriptor is closed.
\<close>

lemma Listener_Close_twice:
  assumes "Listen_socket (Some r) (Some f) fds = (Some ln, fds')" and "f \<noteq> 0"
  shows "f \<notin> Listener_Close ln {f} fds'"
  using assms by (auto simp: Listen_socket_def Listener_Close_def close_fd_def Let_def)

end
