(* ===== verification/Fd_Map.thy ===== *)
theory Fd_Map
  imports Resh_Prelude
begin

text \<open>
  redis/fd_map.go: the client's table from descriptors to connections, a slice of pointers
  indexed by the descriptor, with a counter of the pointers that are not nil. Descriptors
  are small, so the slice is grown to the largest one seen. \<open>None\<close> as the result of an
  operation is a panic: an index out of range, or the \<open>panic("BUG")\<close> of the code. The model
  runs one operation at a time.
\<close>

section \<open>Operations\<close>

record 'a fd_map =
  fds :: "'a option list"
  fd_count :: int

definition new_fd_map :: "'a fd_map" where
  "new_fd_map = \<lparr>fds = [], fd_count = 0\<rparr>"

text \<open>The loop that grows the slice.\<close>

definition grow :: "int \<Rightarrow> 'a option list \<Rightarrow> 'a option list" where
  "grow fd xs = xs @ replicate (nat (fd + 1) - length xs) None"

definition fd_Add :: "int \<Rightarrow> 'a \<Rightarrow> 'a fd_map \<Rightarrow> 'a fd_map option" where
  "fd_Add fd v m = do {
     let m = (if fd \<ge> int (length (fds m)) then m\<lparr>fds := grow fd (fds m)\<rparr> else m);
     old \<leftarrow> gat (fds m) fd;
     (if old \<noteq> None then None
      else Some (m\<lparr>fds := (fds m)[nat fd := Some v], fd_count := fd_count m + 1\<rparr>)) }"

definition fd_Get :: "int \<Rightarrow> 'a fd_map \<Rightarrow> 'a option option" where
  "fd_Get fd m = (if fd \<ge> int (length (fds m)) then Some None else gat (fds m) fd)"

definition fd_Delete :: "int \<Rightarrow> 'a fd_map \<Rightarrow> 'a fd_map option" where
  "fd_Delete fd m =
     (if fd < int (length (fds m)) then do {
        old \<leftarrow> gat (fds m) fd;
        (if old = None then None
         else Some (m\<lparr>fds := (fds m)[nat fd := None], fd_count := fd_count m - 1\<rparr>)) }
      else Some m)"

text \<open>\<open>Foreach\<close> as the list of the calls it makes.\<close>

definition Foreach :: "'a fd_map \<Rightarrow> (int \<times> 'a) list" where
  "Foreach m = concat (map (\<lambda>i. case fds m ! i of None \<Rightarrow> [] | Some v \<Rightarrow> [(int i, v)]) [0..<length (fds m)])"

definition fd_Len :: "'a fd_map \<Rightarrow> int" where
  "fd_Len m = fd_count m"

definition fd_Cap :: "'a fd_map \<Rightarrow> int" where
  "fd_Cap m = int (length (fds m))"

section \<open>The table as a partial map\<close>

definition table :: "'a fd_map \<Rightarrow> int \<rightharpoonup> 'a" where
  "table m fd = (if 0 \<le> fd \<and> fd < int (length (fds m)) then fds m ! nat fd else None)"

definition fd_ok :: "'a fd_map \<Rightarrow> bool" where
  "fd_ok m \<longleftrightarrow> fd_count m = int (card (dom (table m)))"

lemma finite_table [simp]: "finite (dom (table m))"
  by (rule finite_subset [of _ "{0..<int (length (fds m))}"]) (auto simp: table_def split: if_splits)

lemma table_grow [simp]: "table (m\<lparr>fds := grow fd (fds m)\<rparr>) = table m"
  by (rule ext) (auto simp: table_def grow_def nth_append)

lemma table_set:
  "0 \<le> fd \<Longrightarrow> fd < int (length (fds m)) \<Longrightarrow> table (m\<lparr>fds := (fds m)[nat fd := v], fd_count := n\<rparr>) = (table m)(fd := v)"
  by (rule ext) (auto simp: table_def nth_list_update)

lemma gat_table: "fd < int (length (fds m)) \<Longrightarrow> gat (fds m) fd = (if 0 \<le> fd then Some (table m fd) else None)"
  by (auto simp: gat_def table_def)

lemma table_outside: "int (length (fds m)) \<le> fd \<Longrightarrow> table m fd = None"
  by (simp add: table_def)

lemma fd_Add_table:
  "fd_Add fd v m = None \<longleftrightarrow> fd < 0 \<or> table m fd \<noteq> None"
  "fd_Add fd v m = Some m' \<Longrightarrow> table m' = (table m)(fd \<mapsto> v) \<and> fd_count m' = fd_count m + 1"
proof -
  define g where "g = (if fd \<ge> int (length (fds m)) then m\<lparr>fds := grow fd (fds m)\<rparr> else m)"
  have g: "table g = table m" "fd_count g = fd_count m" by (simp_all add: g_def)
  have l: "fd < int (length (fds g))" by (simp add: g_def grow_def)
  have a: "fd_Add fd v m = (if 0 \<le> fd \<and> table m fd = None
     then Some (g\<lparr>fds := (fds g)[nat fd := Some v], fd_count := fd_count g + 1\<rparr>) else None)"
    unfolding fd_Add_def g_def [symmetric] Let_def gat_table [OF l] g(1) by simp
  show "fd_Add fd v m = None \<longleftrightarrow> fd < 0 \<or> table m fd \<noteq> None" unfolding a by auto
  show "table m' = (table m)(fd \<mapsto> v) \<and> fd_count m' = fd_count m + 1" if "fd_Add fd v m = Some m'"
    using that l unfolding a by (auto simp: table_set g split: if_splits)
qed

lemma fd_Get_table: "0 \<le> fd \<Longrightarrow> fd_Get fd m = Some (table m fd)"
  by (auto simp: fd_Get_def gat_table table_outside)

lemma fd_Delete_table:
  assumes "0 \<le> fd"
  shows "fd_Delete fd m = None \<longleftrightarrow> fd < int (length (fds m)) \<and> table m fd = None"
    and "fd_Delete fd m = Some m' \<Longrightarrow> table m' = (table m)(fd := None) \<and>
      fd_count m' = (if table m fd = None then fd_count m else fd_count m - 1)"
  using assms by (auto simp: fd_Delete_def gat_table table_set table_outside split: if_splits)

lemma table_new [simp]: "table new_fd_map = Map.empty"
  by (rule ext) (auto simp: table_def new_fd_map_def)

lemma Foreach_table: "(fd, v) \<in> set (Foreach m) \<longleftrightarrow> table m fd = Some v"
  by (auto simp: Foreach_def table_def split: option.splits if_splits intro!: bexI [of _ "nat fd"])

lemma Foreach_fds: "sorted_wrt (<) (map fst (Foreach m))"
proof -
  have "sorted_wrt (<) (map fst (concat (map (\<lambda>i. case xs ! i of None \<Rightarrow> [] | Some v \<Rightarrow> [(int i, v)]) [0..<n])))"
    for xs :: "'a option list" and n
    by (induction n) (auto simp: sorted_wrt_append split: option.splits)
  then show ?thesis by (simp add: Foreach_def)
qed

section \<open>The interface the client relies on\<close>

locale conn_table =
  fixes add :: "int \<Rightarrow> 'a \<Rightarrow> 'm \<Rightarrow> 'm option" and get :: "int \<Rightarrow> 'm \<Rightarrow> 'a option option"
    and del :: "int \<Rightarrow> 'm \<Rightarrow> 'm option" and len :: "'m \<Rightarrow> int" and entries :: "'m \<Rightarrow> int \<rightharpoonup> 'a" and ok :: "'m \<Rightarrow> bool"
  assumes finite_entries: "finite (dom (entries m))"
    and get_law: "0 \<le> fd \<Longrightarrow> get fd m = Some (entries m fd)"
    and add_law: "ok m \<Longrightarrow> 0 \<le> fd \<Longrightarrow> entries m fd = None \<Longrightarrow> \<exists>m'. add fd v m = Some m' \<and> ok m' \<and> entries m' = (entries m)(fd \<mapsto> v)"
    and add_panics: "entries m fd \<noteq> None \<Longrightarrow> add fd v m = None"
    and del_law: "ok m \<Longrightarrow> entries m fd \<noteq> None \<Longrightarrow> \<exists>m'. del fd m = Some m' \<and> ok m' \<and> entries m' = (entries m)(fd := None)"
    and len_law: "ok m \<Longrightarrow> len m = int (card (dom (entries m)))"
begin

lemma add_get: "ok m \<Longrightarrow> 0 \<le> fd \<Longrightarrow> add fd v m = Some m' \<Longrightarrow> get fd m' = Some (Some v) \<and> len m' = len m + 1"
  using add_law [of m fd v] add_panics [of m fd v] by (cases "entries m fd") (auto simp: get_law len_law finite_entries card_insert_if domIff)

lemma add_del:
  assumes "ok m" and "0 \<le> fd" and "add fd v m = Some m'"
  shows "\<exists>m''. del fd m' = Some m'' \<and> entries m'' = entries m \<and> len m'' = len m"
proof -
  have n: "entries m fd = None" using add_panics [of m fd v] assms(3) by (cases "entries m fd") auto
  from add_law [OF assms(1,2) n, of v] assms(3) have a: "ok m'" "entries m' = (entries m)(fd \<mapsto> v)" by auto
  from del_law [OF a(1), of fd] a(2) obtain m'' where m: "del fd m' = Some m''" "ok m''" "entries m'' = (entries m)(fd := None)" by auto
  moreover have "(entries m)(fd := None) = entries m" using n by auto
  ultimately show ?thesis using len_law assms(1) by auto
qed

lemma add_all:
  assumes "ok m" and "distinct (map fst xs)" and "\<forall>x\<in>set xs. 0 \<le> fst x \<and> entries m (fst x) = None"
  shows "\<exists>m'. fold (\<lambda>(fd, v) m. m \<bind> add fd v) xs (Some m) = Some m' \<and> ok m' \<and> entries m' = entries m ++ map_of xs \<and>
    len m' = len m + int (length xs)"
  using assms
proof (induction xs arbitrary: m)
  case (Cons x xs)
  obtain fd v where x: "x = (fd, v)" by (cases x)
  with Cons.prems add_law [of m fd v] obtain m1 where m1: "add fd v m = Some m1" "ok m1" "entries m1 = (entries m)(fd \<mapsto> v)" by auto
  have "len m1 = len m + 1" using add_get [OF Cons.prems(1) _ m1(1)] Cons.prems(3) x by simp
  moreover have "(entries m)(fd \<mapsto> v) ++ map_of xs = entries m ++ map_of (x # xs)"
    using Cons.prems(2) x by (simp add: map_add_upd_left dom_map_of_conv_image_fst)
  moreover obtain m' where "fold (\<lambda>(fd, v) m. m \<bind> add fd v) xs (Some m1) = Some m'" "ok m'" "entries m' = entries m1 ++ map_of xs"
    "len m' = len m1 + int (length xs)"
  proof -
    have "distinct (map fst xs)" "\<forall>x\<in>set xs. 0 \<le> fst x \<and> entries m1 (fst x) = None"
      using Cons.prems(2,3) m1(3) x by auto
    from Cons.IH [OF m1(2) this] show thesis using that by blast
  qed
  ultimately show ?case using m1(1,3) x by (simp del: map_of.simps)
qed auto

end

interpretation fm: conn_table fd_Add fd_Get fd_Delete fd_Len table fd_ok
proof
  fix m :: "'a fd_map" and fd v
  show "finite (dom (table m))" by simp
  show "0 \<le> fd \<Longrightarrow> fd_Get fd m = Some (table m fd)" by (rule fd_Get_table)
  show "\<exists>m'. fd_Add fd v m = Some m' \<and> fd_ok m' \<and> table m' = (table m)(fd \<mapsto> v)"
    if h: "fd_ok m" "0 \<le> fd" "table m fd = None"
  proof -
    obtain m' where "fd_Add fd v m = Some m'" using fd_Add_table(1) [of fd v m] h by (cases "fd_Add fd v m") auto
    then show ?thesis using fd_Add_table(2) [of fd v m m'] h by (auto simp: fd_ok_def card_insert_if)
  qed
  show "table m fd \<noteq> None \<Longrightarrow> fd_Add fd v m = None" by (simp add: fd_Add_table(1))
  show "\<exists>m'. fd_Delete fd m = Some m' \<and> fd_ok m' \<and> table m' = (table m)(fd := None)" if h: "fd_ok m" "table m fd \<noteq> None"
  proof -
    have fd: "0 \<le> fd" using h(2) by (auto simp: table_def split: if_splits)
    obtain m' where "fd_Delete fd m = Some m'" using fd_Delete_table(1) [OF fd, of m] h(2) by (cases "fd_Delete fd m") auto
    moreover have "card (dom ((table m)(fd := None))) = card (dom (table m)) - 1" "0 < card (dom (table m))"
      using h(2) by (auto simp: card_Diff_singleton_if card_gt_0_iff)
    ultimately show ?thesis using fd_Delete_table(2) [OF fd, of m m'] h by (auto simp: fd_ok_def card_insert_if)
  qed
  show "fd_ok m \<Longrightarrow> fd_Len m = int (card (dom (table m)))" by (simp add: fd_Len_def fd_ok_def)
qed

lemma fd_ok_new [simp]: "fd_ok new_fd_map"
  by (simp add: fd_ok_def) (simp add: new_fd_map_def)

lemma fd_Len_new [simp]: "fd_Len new_fd_map = 0"
  by (simp add: fd_Len_def new_fd_map_def)

section \<open>Properties\<close>

text \<open>
  C31: the table implements a partial map with a count. Filling a new table with distinct
  descriptors never panics; afterwards the table holds exactly these entries, its length is
  their number, \<open>Foreach\<close> visits them in increasing order, adding one of them again panics,
  and a descriptor that was added and deleted leaves the table as it was.
\<close>

theorem fd_map_refines:
  assumes "distinct (map fst xs)" and "list_all (\<lambda>(fd, v). 0 \<le> fd) xs" and "fd \<notin> fst ` set xs" and "0 \<le> fd"
  shows "\<exists>m. fold (\<lambda>(fd, v) m. m \<bind> fd_Add fd v) xs (Some new_fd_map) = Some m \<and> table m = map_of xs \<and>
     fd_Len m = int (length xs) \<and> set (Foreach m) = set xs \<and> sorted_wrt (<) (map fst (Foreach m)) \<and>
     fd_Get fd m = Some None \<and> list_all (\<lambda>(fd, v). fd_Get fd m = Some (Some v) \<and> fd_Add fd v m = None) xs \<and>
     (\<exists>m1 m2. fd_Add fd w m = Some m1 \<and> fd_Delete fd m1 = Some m2 \<and> table m2 = table m \<and> fd_Len m2 = fd_Len m)"
proof -
  have "\<forall>x\<in>set xs. 0 \<le> fst x \<and> table new_fd_map (fst x) = None" using assms(2) by (auto simp: list_all_iff)
  then obtain m where m: "fold (\<lambda>(fd, v) m. m \<bind> fd_Add fd v) xs (Some new_fd_map) = Some m" "fd_ok m" "table m = map_of xs"
    "fd_Len m = int (length xs)"
    using fm.add_all [OF fd_ok_new assms(1)] by auto
  have mem: "(k, v) \<in> set xs \<longleftrightarrow> table m k = Some v" for k v unfolding m(3) using assms(1) by (simp add: map_of_eq_Some_iff)
  have e: "set (Foreach m) = set xs" using mem Foreach_table [of _ _ m] by auto
  have n: "table m fd = None" unfolding m(3) using assms(3) by (simp add: map_of_eq_None_iff)
  from fm.add_law [OF m(2) assms(4) n, of w] obtain m1 where m1: "fd_Add fd w m = Some m1" by blast
  from fm.add_del [OF m(2) assms(4) m1] obtain m2 where "fd_Delete fd m1 = Some m2" "table m2 = table m" "fd_Len m2 = fd_Len m" by blast
  moreover have "list_all (\<lambda>(fd, v). fd_Get fd m = Some (Some v) \<and> fd_Add fd v m = None) xs"
    using assms(2) mem by (auto simp: list_all_iff fm.get_law fm.add_panics)
  ultimately show ?thesis using m m1 e Foreach_fds [of m] fm.get_law [OF assms(4), of m] n by (intro exI [of _ m]) simp
qed

theorem fd_map_refines_witness:
  "\<exists>m. fold (\<lambda>(fd, v) m. m \<bind> fd_Add fd v) [(7, 1 :: nat), (3, 2)] (Some new_fd_map) = Some m \<and> table m = map_of [(7, 1), (3, 2)] \<and>
     fd_Len m = int (length [(7 :: int, 1 :: nat), (3, 2)]) \<and> set (Foreach m) = set [(7, 1), (3, 2)] \<and> sorted_wrt (<) (map fst (Foreach m)) \<and>
     fd_Get 5 m = Some None \<and> list_all (\<lambda>(fd, v). fd_Get fd m = Some (Some v) \<and> fd_Add fd v m = None) [(7, 1), (3, 2)] \<and>
     (\<exists>m1 m2. fd_Add 5 9 m = Some m1 \<and> fd_Delete 5 m1 = Some m2 \<and> table m2 = table m \<and> fd_Len m2 = fd_Len m)"
  by (rule fd_map_refines) simp_all

end
