(* ===== verification/Resp_Reader.thy ===== *)
theory Resp_Reader
  imports Resp_Format
begin

text \<open>
  redis/parser.go: how the client finds the end of a reply in its input buffer
  (\<open>readElement\<close>) and how a \<open>Reader\<close> takes the values of a framed reply apart
  (\<open>readNext\<close> and the accessors over it).
\<close>

section \<open>Framing\<close>

text \<open>The errors of \<open>readElement\<close>; \<open>RWaitMore\<close> is \<open>errWaitMore\<close>.\<close>

datatype resp_error =
    RWaitMore
  | RNum num_err
  | RBulkLen int
  | RBulkEnd
  | RFirstByte byte

text \<open>\<open>strconv.Atoi(btos(in[1:idx]))\<close>, the number of the header line that ends at \<open>idx\<close>.\<close>

definition head_number :: "bytes \<Rightarrow> nat \<Rightarrow> int \<times> num_err option" where
  "head_number inp idx = atoi (take (idx - 1) (drop 1 inp))"

text \<open>
  The case of a bulk string whose header ends at \<open>idx\<close>. The end of the string is
  computed in Go's int.
\<close>

definition readBulk :: "bytes \<Rightarrow> nat \<Rightarrow> (resp_error + nat) option" where
  "readBulk inp idx =
     (case head_number inp idx of
        (sz, Some e) \<Rightarrow> Some (Inl (RNum e))
      | (sz, None) \<Rightarrow>
          if sz = -1 then Some (Inr (idx + 2))
          else if sz < 0 then Some (Inl (RBulkLen sz))
          else let e = i64 (int idx + 2 + sz + 2) in
            if int (length inp) \<ge> e then do {
              buf \<leftarrow> gslice inp 0 e;
              c \<leftarrow> gat buf (int (length buf) - 2);
              d \<leftarrow> gat buf (int (length buf) - 1);
              if c = 13 \<and> d = 10 then Some (Inr (length buf)) else Some (Inl RBulkEnd) }
            else Some (Inl RWaitMore))"

function (sequential) readElement :: "bytes \<Rightarrow> (resp_error + nat) option"
  and readElements :: "bytes \<Rightarrow> int \<Rightarrow> nat \<Rightarrow> (resp_error + nat) option" where
  "readElement inp =
     (if inp = [] then Some (Inl RWaitMore)
      else let head = hd inp in
        if head = 36 then
          (case bindex crlf inp of None \<Rightarrow> Some (Inl RWaitMore) | Some idx \<Rightarrow> readBulk inp idx)
        else if head = 43 \<or> head = 45 \<or> head = 58 then
          (case bindex crlf inp of None \<Rightarrow> Some (Inl RWaitMore) | Some idx \<Rightarrow> Some (Inr (idx + 2)))
        else if head = 42 then
          (case bindex crlf inp of
             None \<Rightarrow> Some (Inl RWaitMore)
           | Some idx \<Rightarrow>
               (case head_number inp idx of
                  (count, Some e) \<Rightarrow> Some (Inl (RNum e))
                | (count, None) \<Rightarrow> readElements inp count (idx + 2)))
        else Some (Inl (RFirstByte head)))"
| "readElements inp count c =
     (if count \<le> 0 then Some (Inr c)
      else case gslice inp (int c) (int (length inp)) of
             None \<Rightarrow> None
           | Some rest \<Rightarrow>
               (case readElement rest of
                  None \<Rightarrow> None
                | Some (Inl e) \<Rightarrow> Some (Inl e)
                | Some (Inr x) \<Rightarrow> readElements inp (count - 1) (c + x)))"
  by pat_completeness auto
termination
proof (relation "measures [\<lambda>a. case a of Inl inp \<Rightarrow> length inp | Inr (inp, count, c) \<Rightarrow> length inp - c,
    \<lambda>a. case a of Inl _ \<Rightarrow> 0 | Inr _ \<Rightarrow> 1, \<lambda>a. case a of Inl _ \<Rightarrow> 0 | Inr (inp, count, c) \<Rightarrow> nat count]",
    goal_cases)
  case (3 inp count c rest)
  then have "length rest = length inp - c" by (auto split: if_splits)
  then show ?case by simp
qed auto

declare readElement.simps [simp del] readElements.simps [simp del]

section \<open>Reading values\<close>

text \<open>
  \<open>readNext\<close> returns the kind of the element (the letters s, i, e, n, a), an integer, a
  byte slice (\<open>None\<close> is nil) and the reader of an array, and leaves the rest of the
  buffer. The loop over the elements of an array drops the errors of \<open>readElement\<close>,
  whose count is then 0.
\<close>

type_synonym reader = bytes

type_synonym element = "char \<times> int \<times> bytes option \<times> reader option"

function skip_elements :: "bytes \<Rightarrow> int \<Rightarrow> nat \<Rightarrow> nat option" where
  "skip_elements buf count c =
     (if count \<le> 0 then Some c
      else case gslice buf (int c) (int (length buf)) of
             None \<Rightarrow> None
           | Some rest \<Rightarrow>
               (case readElement rest of
                  None \<Rightarrow> None
                | Some (Inl e) \<Rightarrow> skip_elements buf (count - 1) c
                | Some (Inr x) \<Rightarrow> skip_elements buf (count - 1) (c + x)))"
  by pat_completeness auto
termination
  by (relation "measure (\<lambda>(buf, count, c). nat count)") auto

declare skip_elements.simps [simp del]

definition readNext :: "reader \<Rightarrow> (element \<times> reader) option" where
  "readNext buf =
     (if buf = [] then Some ((CHR ''n'', 0, None, None), buf)
      else let head = hd buf in
        if head = 36 then do {
          idx \<leftarrow> bindex crlf buf;
          let (sz, _) = head_number buf idx in
          if sz = -1 then do {
            rest \<leftarrow> gslice buf (int idx + 2) (int (length buf));
            Some ((CHR ''s'', 0, None, None), rest) }
          else do {
            data \<leftarrow> gslice buf (int idx + 2) (i64 (int idx + 2 + sz));
            rest \<leftarrow> gslice buf (i64 (int idx + 2 + sz + 2)) (int (length buf));
            Some ((CHR ''s'', 0, Some data, None), rest) } }
        else if head = 43 \<or> head = 45 \<or> head = 58 then do {
          idx \<leftarrow> bindex crlf buf;
          data \<leftarrow> gslice buf 1 (int idx);
          rest \<leftarrow> gslice buf (int idx + 2) (int (length buf));
          (if head = 43 then Some ((CHR ''s'', 0, Some data, None), rest)
           else if head = 45 then Some ((CHR ''e'', 0, Some data, None), rest)
           else Some ((CHR ''i'', fst (parse_int data), None, None), rest)) }
        else if head = 42 then do {
          idx \<leftarrow> bindex crlf buf;
          c \<leftarrow> skip_elements buf (fst (head_number buf idx)) (idx + 2);
          d \<leftarrow> gslice buf (int idx + 2) (int c);
          rest \<leftarrow> gslice buf (int c) (int (length buf));
          Some ((CHR ''a'', 0, None, Some d), rest) }
        else None)"

text \<open>The values \<open>Next\<close> returns as an interface value, and the accessors.\<close>

datatype go_any =
    AString bytes
  | AInt64 int
  | AError bytes
  | ANil
  | AReader "reader option"

definition btos_opt :: "bytes option \<Rightarrow> bytes" where
  "btos_opt s = (case s of None \<Rightarrow> [] | Some d \<Rightarrow> d)"

definition Next :: "reader \<Rightarrow> (go_any \<times> reader) option" where
  "Next r = do {
     ((ty, i, s, d), r') \<leftarrow> readNext r;
     Some (if ty = CHR ''s'' then AString (btos_opt s)
           else if ty = CHR ''i'' then AInt64 i
           else if ty = CHR ''e'' then AError (btos_opt s)
           else if ty = CHR ''n'' then ANil
           else AReader d, r') }"

definition reader_err :: "reader \<Rightarrow> (bytes option \<times> reader) option" where
  "reader_err r = do {
     ((ty, _, s, _), r') \<leftarrow> readNext r;
     Some (if ty = CHR ''e'' then (Some (btos_opt s), r') else (None, r)) }"

definition IsNil :: "reader \<Rightarrow> bool" where
  "IsNil r \<longleftrightarrow> r = bs ''$-1'' @ crlf"

definition reader_Bytes :: "reader \<Rightarrow> (bytes option \<times> reader) option" where
  "reader_Bytes r = do { ((_, _, s, _), r') \<leftarrow> readNext r; Some (s, r') }"

definition reader_Str :: "reader \<Rightarrow> (bytes \<times> reader) option" where
  "reader_Str r = do { ((_, _, s, _), r') \<leftarrow> readNext r; Some (btos_opt s, r') }"

definition reader_Int64 :: "reader \<Rightarrow> (int \<times> reader) option" where
  "reader_Int64 r = do { ((_, i, _, _), r') \<leftarrow> readNext r; Some (i, r') }"

definition reader_Array :: "reader \<Rightarrow> (reader option \<times> reader) option" where
  "reader_Array r = do { ((_, _, _, a), r') \<leftarrow> readNext r; Some (a, r') }"

definition Raw :: "reader \<Rightarrow> bytes" where
  "Raw r = r"

section \<open>Bounds\<close>

lemma readBulk_bound:
  assumes "readBulk inp idx = Some (Inr n)" and "idx + 2 \<le> length inp"
  shows "n \<le> length inp \<and> 0 < n"
  using assms
  by (auto simp: readBulk_def Let_def gslice_Some_iff gat_def split: prod.splits option.splits if_splits bind_splits)

lemma bindex_crlf_bound: "bindex crlf xs = Some i \<Longrightarrow> i + 2 \<le> length xs"
  using bindex_bound [of crlf xs i] by simp

lemma readElement_bound:
  "readElement inp = Some (Inr n) \<Longrightarrow> 0 < n \<and> n \<le> length inp"
  "readElements inp count c = Some (Inr n) \<Longrightarrow> c \<le> length inp \<Longrightarrow> c \<le> n \<and> n \<le> length inp"
proof (induction inp and inp count c arbitrary: n and n rule: readElement_readElements.induct)
  case (1 inp)
  from "1.prems" show ?case
    unfolding readElement.simps [of inp]
    by (auto simp: Let_def split: if_splits option.splits prod.splits
        dest: readBulk_bound bindex_crlf_bound "1.IH" [OF _ refl])
next
  case (2 inp count c)
  show ?case
  proof (cases "count \<le> 0")
    case True
    with "2.prems" show ?thesis by (simp add: readElements.simps)
  next
    case False
    let ?rest = "drop c inp"
    have g: "gslice inp (int c) (int (length inp)) = Some ?rest" using "2.prems" by simp
    with False "2.prems" obtain x where x: "readElement ?rest = Some (Inr x)"
      "readElements inp (count - 1) (c + x) = Some (Inr n)"
      unfolding readElements.simps [of inp count c] by (auto split: option.splits sum.splits)
    from "2.IH"(1) [OF False g x(1)] "2.prems"(2) have "c + x \<le> length inp" by auto
    with "2.IH"(2) [OF False g x(1) refl x(2)] show ?thesis by simp
  qed
qed


section \<open>More input does not change a verdict\<close>

lemma head_number_append [simp]: "idx + 2 \<le> length inp \<Longrightarrow> head_number (inp @ ys) idx = head_number inp idx"
  by (simp add: head_number_def)

lemma readBulk_append:
  assumes "readBulk inp idx \<noteq> Some (Inl RWaitMore)" and "idx + 2 \<le> length inp"
  shows "readBulk (inp @ ys) idx = readBulk inp idx"
proof -
  obtain sz er where a: "head_number inp idx = (sz, er)" by force
  define e where "e = i64 (int idx + 2 + sz + 2)"
  have "gslice (inp @ ys) 0 e = gslice inp 0 e" if "e \<le> int (length inp)"
    using that by (auto simp: gslice_def)
  with assms show ?thesis
    unfolding readBulk_def head_number_append [OF assms(2)] a Let_def prod.case e_def [symmetric]
    by (auto split: option.splits if_splits)
qed

lemma bindex_crlf_pos: "bindex crlf inp = Some idx \<Longrightarrow> inp \<noteq> [] \<Longrightarrow> hd inp \<noteq> 13 \<Longrightarrow> 1 \<le> idx"
  by (cases inp) (auto simp: crlf_def split: if_splits)

lemma readElement_append:
  "readElement inp \<noteq> Some (Inl RWaitMore) \<Longrightarrow> readElement (inp @ ys) = readElement inp"
  "readElements inp count c \<noteq> Some (Inl RWaitMore) \<Longrightarrow> c \<le> length inp \<Longrightarrow>
     readElements (inp @ ys) count c = readElements inp count c"
proof (induction inp and inp count c rule: readElement_readElements.induct)
  case (1 inp)
  then have ne: "inp \<noteq> []" by (auto simp: readElement.simps)
  show ?case
  proof (cases "bindex crlf inp")
    case None
    with 1 ne show ?thesis by (auto simp: readElement.simps [of inp] readElement.simps [of "inp @ ys"] Let_def)
  next
    case (Some idx)
    have b: "idx + 2 \<le> length inp" using Some by (rule bindex_crlf_bound)
    note h = head_number_append [OF b, of ys]
    have IH: "readElements (inp @ ys) count (idx + 2) = readElements inp count (idx + 2)"
      if "hd inp = 42" "head_number inp idx = (count, None)"
        "readElements inp count (idx + 2) \<noteq> Some (Inl RWaitMore)" for count
      using that b by (intro "1.IH" [OF ne refl _ _ _ Some _ refl]) auto
    note bulk = readBulk_append [OF _ b, of ys]
    show ?thesis using "1.prems" ne Some bindex_append [OF Some, of ys] bulk IH
      unfolding readElement.simps [of inp] readElement.simps [of "inp @ ys"]
      by (auto simp: Let_def h split: prod.splits option.splits if_splits)
  qed
next
  case (2 inp count c)
  show ?case
  proof (cases "count \<le> 0")
    case True
    then show ?thesis by (simp add: readElements.simps)
  next
    case False
    let ?rest = "drop c inp"
    have g: "gslice inp (int c) (int (length inp)) = Some ?rest" using "2.prems" by simp
    have g': "gslice (inp @ ys) (int c) (int (length (inp @ ys))) = Some (?rest @ ys)"
      using "2.prems" by (simp only: gslice_nat) simp
    have "readElement ?rest \<noteq> Some (Inl RWaitMore)"
      using "2.prems" False g by (auto simp: readElements.simps [of inp])
    then have r: "readElement (?rest @ ys) = readElement ?rest" by (rule "2.IH"(1) [OF False g])
    show ?thesis
    proof (cases "\<exists>x. readElement ?rest = Some (Inr x)")
      case True
      then obtain x where x: "readElement ?rest = Some (Inr x)" by blast
      then have "c + x \<le> length inp" using readElement_bound(1) [OF x] "2.prems" by auto
      moreover have "readElements inp (count - 1) (c + x) \<noteq> Some (Inl RWaitMore)"
        using "2.prems"(1) False g x by (auto simp: readElements.simps [of inp count])
      ultimately have "readElements (inp @ ys) (count - 1) (c + x) = readElements inp (count - 1) (c + x)"
        using "2.IH"(2) [OF False g x refl] by blast
      with False g g' r x show ?thesis
        unfolding readElements.simps [of inp count] readElements.simps [of "inp @ ys" count] by simp
    next
      case nx: False
      with False g g' r show ?thesis
        unfolding readElements.simps [of inp count] readElements.simps [of "inp @ ys" count]
        by (auto split: option.splits sum.splits)
    qed
  qed
qed


text \<open>The verdict depends on no byte behind the element.\<close>

lemma bindex_take:
  assumes "bindex sep xs = Some i" and "i + length sep \<le> k"
  shows "bindex sep (take k xs) = Some i"
proof -
  have "i + length sep \<le> length (take k xs)" using assms bindex_bound [OF assms(1)] by simp
  moreover have "prefix sep (drop i (take k xs))"
  proof -
    have "take (length sep) (drop i (take k xs)) = take (length sep) (drop i xs)"
      using assms(2) by (simp add: drop_take min_def)
    then show ?thesis using bindex_at [OF assms(1)] by (metis take_is_prefix)
  qed
  ultimately obtain j where "bindex sep (take k xs) = Some j" using bindex_exists [of sep i "take k xs"] by auto
  with bindex_append [OF this, of "drop k xs"] assms(1) show ?thesis by simp
qed

lemma head_number_take [simp]: "idx \<le> k \<Longrightarrow> head_number (take k inp) idx = head_number inp idx"
  by (simp add: head_number_def drop_take min_def)

lemma readBulk_take:
  assumes "readBulk inp idx = Some (Inr n)" and "n \<le> k" and "idx \<le> k"
  shows "readBulk (take k inp) idx = Some (Inr n)"
proof -
  obtain sz er where a: "head_number inp idx = (sz, er)" by force
  define e where "e = i64 (int idx + 2 + sz + 2)"
  have "gslice (take k inp) 0 e = gslice inp 0 e" if "e \<le> int k"
    using that by (auto simp: gslice_def min_def)
  with assms show ?thesis
    unfolding readBulk_def head_number_take [OF assms(3)] a Let_def prod.case e_def [symmetric]
    by (auto simp: gslice_Some_iff split: option.splits if_splits bind_splits)
qed

text \<open>Buffers are shorter than \<open>2^62\<close> bytes, so that the header of a bulk string never wraps.\<close>

abbreviation addressable :: "bytes \<Rightarrow> bool" where
  "addressable xs \<equiv> int (length xs) < 2 ^ 62"

lemma bulk_end:
  assumes "0 \<le> sz" and "sz < 2 ^ 63" and "int idx < 2 ^ 62" and "0 \<le> i64 (int idx + 2 + sz + 2)"
  shows "i64 (int idx + 2 + sz + 2) = int idx + 2 + sz + 2"
proof (rule i64_id, rule ccontr)
  assume "\<not> fits64 (int idx + 2 + sz + 2)"
  then have "2 ^ 63 \<le> int idx + 2 + sz + 2" using assms by simp
  moreover have "int idx + 2 + sz + 2 < 2 ^ 64" using assms by simp
  ultimately have "i64 (int idx + 2 + sz + 2) < 0" using i64_overflow by simp
  with assms(4) show False by simp
qed

lemma readBulk_Inr:
  assumes "readBulk inp idx = Some (Inr n)" and "idx + 2 \<le> length inp" and "addressable inp"
  shows "fst (head_number inp idx) = -1 \<and> n = idx + 2 \<or>
    0 \<le> fst (head_number inp idx) \<and> int n = int idx + 2 + fst (head_number inp idx) + 2 \<and> n \<le> length inp"
proof -
  obtain sz er where a: "head_number inp idx = (sz, er)" by force
  have "sz < 2 ^ 63" using parse_int_fits a by (metis atoi_def fst_conv head_number_def)
  moreover have "int idx < 2 ^ 62" using assms(2,3) by simp
  ultimately have "0 \<le> sz \<Longrightarrow> 0 \<le> i64 (int idx + 2 + sz + 2) \<Longrightarrow> i64 (int idx + 2 + sz + 2) = int idx + 2 + sz + 2"
    using bulk_end by blast
  with assms(1) show ?thesis
    unfolding readBulk_def a Let_def by (auto simp: gslice_Some_iff split: option.splits if_splits bind_splits)
qed

lemma readElement_take:
  "readElement inp = Some (Inr n) \<Longrightarrow> addressable inp \<Longrightarrow> n \<le> k \<Longrightarrow> readElement (take k inp) = Some (Inr n)"
  "readElements inp count c = Some (Inr n) \<Longrightarrow> c \<le> length inp \<Longrightarrow> addressable inp \<Longrightarrow> n \<le> k \<Longrightarrow>
     readElements (take k inp) count c = Some (Inr n)"
proof (induction inp and inp count c arbitrary: n k and n k rule: readElement_readElements.induct)
  case (1 inp)
  then obtain idx where ne: "inp \<noteq> []" and idx: "bindex crlf inp = Some idx"
    by (auto simp: readElement.simps Let_def split: if_splits option.splits)
  have b: "idx + 2 \<le> length inp" using idx by (rule bindex_crlf_bound)
  have "idx + 2 \<le> n"
    using "1.prems"(1) ne idx readBulk_Inr [OF _ b "1.prems"(2)] readElement_bound(2) [OF _ b]
    unfolding readElement.simps [of inp] by (fastforce simp: Let_def split: if_splits prod.splits option.splits)
  then have k: "idx \<le> k" "bindex crlf (take k inp) = Some idx" "take k inp \<noteq> []" "hd (take k inp) = hd inp"
    using "1.prems"(3) bindex_take [OF idx, of k] ne by auto
  have IH: "readElements (take k inp) count (idx + 2) = Some (Inr n)"
    if "hd inp = 42" "head_number inp idx = (count, None)" "readElements inp count (idx + 2) = Some (Inr n)" for count
    using that b "1.prems" by (intro "1.IH" [OF ne refl _ _ _ idx _ refl]) auto
  show ?case
    using "1.prems" ne idx readBulk_take [of inp idx n k] IH k
    unfolding readElement.simps [of inp] readElement.simps [of "take k inp"] k
    by (auto simp: Let_def split: if_splits prod.splits option.splits)
next
  case (2 inp count c)
  show ?case
  proof (cases "count \<le> 0")
    case True
    with "2.prems" show ?thesis by (simp add: readElements.simps)
  next
    case False
    let ?rest = "drop c inp"
    have g: "gslice inp (int c) (int (length inp)) = Some ?rest" using "2.prems" by simp
    obtain x where x: "readElement ?rest = Some (Inr x)" "readElements inp (count - 1) (c + x) = Some (Inr n)"
      using False "2.prems"(1) g unfolding readElements.simps [of inp count c] by (auto split: option.splits sum.splits)
    have le: "c + x \<le> length inp" using readElement_bound(1) [OF x(1)] "2.prems"(2) by auto
    have ck: "c + x \<le> k" using readElement_bound(2) [OF x(2) le] "2.prems"(4) by simp
    have "readElement (take (k - c) ?rest) = Some (Inr x)"
      using "2.IH"(1) [OF False g x(1), of "k - c"] "2.prems"(3) ck by simp
    moreover have "drop c (take k inp) = take (k - c) ?rest" by (simp add: drop_take)
    moreover have "gslice (take k inp) (int c) (int (length (take k inp))) = Some (drop c (take k inp))"
      using ck le by (simp only: gslice_nat) simp
    moreover have "readElements (take k inp) (count - 1) (c + x) = Some (Inr n)"
      using "2.IH"(2) [OF False g x(1) refl x(2) le "2.prems"(3,4)] .
    ultimately show ?thesis using False
      unfolding readElements.simps [of "take k inp" count c] by simp
  qed
qed


section \<open>Framed replies\<close>

lemma skip_readElements:
  "readElements inp count c = Some (Inr n) \<Longrightarrow> c \<le> length inp \<Longrightarrow> skip_elements inp count c = Some n"
proof (induction inp count c rule: skip_elements.induct)
  case (1 inp count c)
  show ?case
  proof (cases "count \<le> 0")
    case True
    with 1 show ?thesis by (simp add: readElements.simps skip_elements.simps)
  next
    case False
    have g: "gslice inp (int c) (int (length inp)) = Some (drop c inp)" using "1.prems" by simp
    obtain x where x: "readElement (drop c inp) = Some (Inr x)" "readElements inp (count - 1) (c + x) = Some (Inr n)"
      using False "1.prems"(1) g unfolding readElements.simps [of inp count c] by (auto split: option.splits sum.splits)
    then have "c + x \<le> length inp" using readElement_bound(1) [OF x(1)] "1.prems"(2) by auto
    from "1.IH"(2) [OF False g x(1) refl x(2) this] False g x(1) show ?thesis
      by (subst skip_elements.simps) simp
  qed
qed

lemma readNext_framed:
  assumes "readElement buf = Some (Inr n)" and "addressable buf"
  shows "\<exists>el. readNext buf = Some (el, drop n buf)"
proof -
  obtain idx where ne: "buf \<noteq> []" and idx: "bindex crlf buf = Some idx"
    using assms(1) by (auto simp: readElement.simps Let_def split: if_splits option.splits)
  have b: "idx + 2 \<le> length buf" using idx by (rule bindex_crlf_bound)
  have n: "n \<le> length buf" using readElement_bound(1) [OF assms(1)] by simp
  consider (bulk) "hd buf = 36" "readBulk buf idx = Some (Inr n)"
    | (line) "hd buf = 43 \<or> hd buf = 45 \<or> hd buf = 58" "n = idx + 2"
    | (arr) count where "hd buf = 42" "head_number buf idx = (count, None)"
        "readElements buf count (idx + 2) = Some (Inr n)"
    using assms(1) ne idx by (auto simp: readElement.simps Let_def split: if_splits option.splits prod.splits)
  then show ?thesis
  proof cases
    case bulk
    obtain sz er where a: "head_number buf idx = (sz, er)" by force
    from readBulk_Inr [OF bulk(2) b assms(2)] a
    have "sz = -1 \<and> n = idx + 2 \<or> sz = int (nat sz) \<and> n = idx + 2 + nat sz + 2" by auto
    then consider "sz = -1" "n = idx + 2" | m where "sz = int m" "n = idx + 2 + m + 2" by blast
    then show ?thesis
    proof cases
      case 1
      then have "gslice buf (int idx + 2) (int (length buf)) = Some (drop n buf)"
        using gslice_nat [of buf "idx + 2" "length buf"] n by (simp add: add.commute)
      then show ?thesis using bulk(1) ne idx a 1 by (simp add: readNext_def)
    next
      case 2
      have e: "i64 (int idx + 2 + sz) = int (idx + 2 + m)" "i64 (int idx + 2 + sz + 2) = int (idx + 2 + m + 2)"
        "int idx + 2 = int (idx + 2)" using 2 n assms(2) by (simp_all add: i64_id)
      have "gslice buf (int idx + 2) (i64 (int idx + 2 + sz)) = Some (take m (drop (idx + 2) buf))"
        "gslice buf (i64 (int idx + 2 + sz + 2)) (int (length buf)) = Some (drop n buf)"
        unfolding e(1,2) unfolding e(3) gslice_nat using n 2 by simp_all
      then show ?thesis using bulk(1) ne idx a 2 by (simp add: readNext_def Let_def)
    qed
  next
    case line
    have i: "1 \<le> idx" using bindex_crlf_pos [OF idx ne] line by auto
    have g: "gslice buf 1 (int idx) = Some (take (idx - 1) (drop 1 buf))"
      using i b gslice_nat [of buf 1 idx] by simp
    have g2: "gslice buf (int idx + 2) (int (length buf)) = Some (drop n buf)"
      using gslice_nat [of buf "idx + 2" "length buf"] line(2) b by (simp add: add.commute)
    from line(1) show ?thesis using ne idx g g2 by (elim disjE) (simp_all add: readNext_def)
  next
    case arr
    have "skip_elements buf count (idx + 2) = Some n" using skip_readElements [OF arr(3) b] .
    moreover have "idx + 2 \<le> n" using readElement_bound(2) [OF arr(3) b] by simp
    moreover from this have "gslice buf (int idx + 2) (int n) = Some (take (n - (idx + 2)) (drop (idx + 2) buf))"
      using gslice_nat [of buf "idx + 2" n] n by (simp add: add.commute)
    ultimately show ?thesis using arr(1,2) ne idx n by (simp add: readNext_def)
  qed
qed

text \<open>
  C16: the reader the client hands to a callback holds exactly one framed element. Taking
  it apart never panics and uses up the whole buffer, and so does the error check the
  client makes first.
\<close>

theorem framed_reader_consumed:
  assumes "readElement inp = Some (Inr n)" and "addressable inp"
  shows "\<exists>el e r. readNext (take n inp) = Some (el, []) \<and> reader_err (take n inp) = Some (e, r)
    \<and> (e = None \<longrightarrow> r = take n inp)"
proof -
  have t: "readElement (take n inp) = Some (Inr n)" using readElement_take(1) [OF assms] by simp
  have "addressable (take n inp)" using assms(2) by simp
  then obtain el where el: "readNext (take n inp) = Some (el, [])"
    using readNext_framed [OF t] by auto
  then show ?thesis by (cases el) (auto simp: reader_err_def)
qed

section \<open>Segmentation\<close>

definition element_parser :: "nat \<Rightarrow> bytes \<Rightarrow> (nat \<times> bytes \<times> resp_error option) option" where
  "element_parser s inp = map_option (\<lambda>r. case r of Inl e \<Rightarrow> (s, inp, Some e) | Inr n \<Rightarrow> (n, inp, None)) (readElement inp)"

interpretation rep: incremental element_parser RWaitMore "\<lambda>_ _. True"
proof (unfold_locales, goal_cases)
  case (3 s xs s' xs' ys)
  then show ?case by (cases "readElement xs") (auto simp: element_parser_def split: sum.splits)
next
  case (4 s xs s' xs' e ys)
  then have "readElement xs \<noteq> Some (Inl RWaitMore)" by (auto simp: element_parser_def)
  from readElement_append(1) [OF this] 4 show ?case by (auto simp: element_parser_def split: sum.splits)
next
  case (5 s xs ys)
  then have "readElement xs \<noteq> Some (Inl RWaitMore)" by (auto simp: element_parser_def)
  from readElement_append(1) [OF this] 5 show ?case by (auto simp: element_parser_def)
qed (auto simp: element_parser_def split: sum.splits)

section \<open>Encoded values\<close>

lemma head_number_line:
  "fits64 v \<Longrightarrow> head_number (resp_line head (format_int 10 v) @ rest) (Suc (length (format_int 10 v))) = (v, None)"
  by (simp add: head_number_def resp_line_def atoi_def parse_int_format)

lemma gat_last_two:
  "gat (xs @ [a, b]) (int (length (xs @ [a, b])) - 2) = Some a"
  "gat (xs @ [a, b]) (int (length (xs @ [a, b])) - 1) = Some b"
  using gat_nat [of "xs @ [a, b]" "length xs"] gat_nat [of "xs @ [a, b]" "Suc (length xs)"]
  by (simp_all add: nth_append)

lemma readBulk_resp_bulk:
  assumes "int (length s) < 2 ^ 62"
  shows "readBulk (resp_bulk s @ rest) (Suc (length (format_int 10 (int (length s))))) =
    Some (Inr (length (resp_bulk s)))"
proof -
  let ?d = "format_int 10 (int (length s))" and ?b = "resp_bulk s"
  have "length s < 10 ^ 19" using assms by simp
  then have d: "length ?d \<le> 19" by (simp add: format_int_def length_format_uint)
  have len: "length ?b = length ?d + length s + 5" by (simp add: resp_bulk_def)
  have e: "i64 (int (Suc (length ?d)) + 2 + int (length s) + 2) = int (length ?b)"
    using assms d len by (subst i64_id) simp_all
  have g: "gslice (?b @ rest) 0 (int (length ?b)) = Some ?b"
    using gslice_nat [of "?b @ rest" 0 "length ?b"] by simp
  have b: "?b = (36 # ?d @ crlf @ s) @ [13, 10]" by (simp add: resp_bulk_def crlf_def)
  have ends: "gat ?b (int (length ?b) - 2) = Some 13" "gat ?b (int (length ?b) - 1) = Some 10"
    unfolding b by (rule gat_last_two)+
  have h: "head_number (?b @ rest) (Suc (length ?d)) = (int (length s), None)"
    using head_number_line [of "int (length s)" 36 "s @ crlf @ rest"] assms by (simp add: resp_bulk_line)
  show ?thesis
    unfolding readBulk_def h prod.case option.case Let_def e g using ends by simp
qed


lemma readElements_list:
  assumes "\<And>v rest. v \<in> set vs \<Longrightarrow> readElement (resp_enc v @ rest) = Some (Inr (length (resp_enc v)))"
  shows "readElements (pre @ concat (map resp_enc vs) @ rest) (int (length vs)) (length pre) =
    Some (Inr (length pre + length (concat (map resp_enc vs))))"
  using assms
proof (induction vs arbitrary: pre)
  case Nil
  then show ?case by (simp add: readElements.simps)
next
  case (Cons v vs)
  let ?inp = "pre @ concat (map resp_enc (v # vs)) @ rest"
  have g: "gslice ?inp (int (length pre)) (int (length ?inp)) = Some (resp_enc v @ concat (map resp_enc vs) @ rest)"
    by (simp only: gslice_nat) simp
  have "readElement (resp_enc v @ concat (map resp_enc vs) @ rest) = Some (Inr (length (resp_enc v)))"
    using Cons.prems by simp
  moreover have "readElements ?inp (int (length (v # vs)) - 1) (length pre + length (resp_enc v)) =
      Some (Inr (length pre + length (concat (map resp_enc (v # vs)))))"
    using Cons.IH [of "pre @ resp_enc v"] Cons.prems by simp
  ultimately show ?case using g by (subst readElements.simps) simp
qed

lemma readElement_enc: "resp_wf v \<Longrightarrow> readElement (resp_enc v @ rest) = Some (Inr (length (resp_enc v)))"
proof (induction v arbitrary: rest)
  case (RSimple s)
  then show ?case using bindex_resp_line [of s 43 rest] by (simp add: readElement.simps resp_line_def)
next
  case (RErr s)
  then show ?case using bindex_resp_line [of s 45 rest] by (simp add: readElement.simps resp_line_def)
next
  case (RInt v)
  then show ?case using bindex_resp_line [OF format_int_no_cr [of v], of 58 rest]
    by (simp add: readElement.simps resp_line_def)
next
  case (RBulk s)
  then have "readBulk (resp_bulk s @ rest) (Suc (length (format_int 10 (int (length s))))) =
    Some (Inr (length (resp_bulk s)))" by (intro readBulk_resp_bulk) simp
  then show ?case using bindex_resp_line [OF format_int_no_cr [of "int (length s)"], of 36 "s @ crlf @ rest"]
    by (simp add: readElement.simps resp_bulk_line)
next
  case RNull
  then show ?case using bindex_resp_line [OF format_int_no_cr [of "-1"], of 36 rest] head_number_line [of "-1" 36 rest]
    by (simp add: readElement.simps readBulk_def)
next
  case (RArray vs)
  let ?h = "resp_line 42 (format_int 10 (int (length vs)))" and ?c = "concat (map resp_enc vs)"
  have h: "head_number (?h @ ?c @ rest) (Suc (length (format_int 10 (int (length vs))))) = (int (length vs), None)"
    using RArray.prems by (intro head_number_line) simp
  have "readElements (?h @ ?c @ rest) (int (length vs)) (length ?h) = Some (Inr (length ?h + length ?c))"
    using RArray by (intro readElements_list) (simp add: list_all_iff)
  then show ?case
    using bindex_resp_line [OF format_int_no_cr [of "int (length vs)"], of 42 "?c @ rest"] h
    by (simp add: readElement.simps [of "?h @ ?c @ rest"])
qed

text \<open>The value \<open>Next\<close> returns for an encoded one.\<close>

fun any_of :: "resp \<Rightarrow> go_any" where
  "any_of (RSimple s) = AString s"
| "any_of (RErr s) = AError s"
| "any_of (RInt v) = AInt64 v"
| "any_of (RBulk s) = AString s"
| "any_of RNull = AString []"
| "any_of (RArray vs) = AReader (Some (concat (map resp_enc vs)))"


lemma gslice_line:
  "gslice (resp_line head s @ rest) 1 (int (Suc (length s))) = Some s"
  "gslice (resp_line head s @ rest) (int (Suc (length s)) + 2) (int (length (resp_line head s @ rest))) = Some rest"
proof -
  show "gslice (resp_line head s @ rest) 1 (int (Suc (length s))) = Some s"
    using gslice_nat [of "resp_line head s @ rest" 1 "Suc (length s)"] by (simp add: resp_line_def)
  have "int (Suc (length s)) + 2 = int (length (resp_line head s))" by simp
  then show "gslice (resp_line head s @ rest) (int (Suc (length s)) + 2) (int (length (resp_line head s @ rest))) = Some rest"
    by (simp only: gslice_nat) simp
qed

lemma gslice_bulk:
  fixes s rest :: bytes
  defines "idx \<equiv> Suc (length (format_int 10 (int (length s))))"
  assumes "int (length s) < 2 ^ 62"
  shows "gslice (resp_bulk s @ rest) (int idx + 2) (i64 (int idx + 2 + int (length s))) = Some s"
    and "gslice (resp_bulk s @ rest) (i64 (int idx + 2 + int (length s) + 2)) (int (length (resp_bulk s @ rest))) = Some rest"
proof -
  have "length s < 10 ^ 19" using assms by simp
  then have d: "idx \<le> 20" by (simp add: idx_def format_int_def length_format_uint)
  have e: "i64 (int idx + 2 + int (length s)) = int (idx + 2 + length s)"
    "i64 (int idx + 2 + int (length s) + 2) = int (length (resp_bulk s))"
    using d assms by (subst i64_id; simp add: resp_bulk_def idx_def)+
  have i: "int idx + 2 = int (idx + 2)" by simp
  show "gslice (resp_bulk s @ rest) (int idx + 2) (i64 (int idx + 2 + int (length s))) = Some s"
    unfolding e unfolding i gslice_nat by (simp add: resp_bulk_def idx_def)
  show "gslice (resp_bulk s @ rest) (i64 (int idx + 2 + int (length s) + 2)) (int (length (resp_bulk s @ rest))) = Some rest"
    unfolding e gslice_nat by simp
qed

lemma Next_array:
  assumes "resp_wf (RArray vs)"
  shows "Next (resp_enc (RArray vs) @ rest) = Some (any_of (RArray vs), rest)"
proof -
  let ?h = "resp_line 42 (format_int 10 (int (length vs)))" and ?c = "concat (map resp_enc vs)"
  let ?i = "Suc (length (format_int 10 (int (length vs))))"
  have h: "head_number (?h @ ?c @ rest) ?i = (int (length vs), None)"
    using assms by (intro head_number_line) simp
  have "readElements (?h @ ?c @ rest) (int (length vs)) (length ?h) = Some (Inr (length ?h + length ?c))"
    using assms readElement_enc by (intro readElements_list) (simp add: list_all_iff)
  then have sk: "skip_elements (?h @ ?c @ rest) (int (length vs)) (?i + 2) = Some (length (?h @ ?c))"
    using skip_readElements [of "?h @ ?c @ rest" _ "length ?h"] by simp
  have i: "int ?i + 2 = int (length ?h)" by simp
  have g: "gslice (?h @ ?c @ rest) (int ?i + 2) (int (length (?h @ ?c))) = Some ?c"
    unfolding i gslice_nat by simp
  have g2: "gslice (?h @ ?c @ rest) (int (length (?h @ ?c))) (int (length (?h @ ?c @ rest))) = Some rest"
    unfolding gslice_nat by simp
  show ?thesis using bindex_resp_line [OF format_int_no_cr [of "int (length vs)"], of 42 "?c @ rest"] h sk g g2
    by (simp add: Next_def readNext_def)
qed

lemma Next_enc:
  assumes "resp_wf v"
  shows "Next (resp_enc v @ rest) = Some (any_of v, rest)"
proof (cases v)
  case (RSimple s)
  then show ?thesis using assms bindex_resp_line [of s 43 rest] gslice_line [of 43 s rest]
    by (simp add: Next_def readNext_def btos_opt_def)
next
  case (RErr s)
  then show ?thesis using assms bindex_resp_line [of s 45 rest] gslice_line [of 45 s rest]
    by (simp add: Next_def readNext_def btos_opt_def)
next
  case (RInt i)
  then show ?thesis using assms bindex_resp_line [OF format_int_no_cr [of i], of 58 rest]
      gslice_line [of 58 "format_int 10 i" rest]
    by (simp add: Next_def readNext_def parse_int_format)
next
  case (RBulk s)
  then show ?thesis
    using assms bindex_resp_line [OF format_int_no_cr [of "int (length s)"], of 36 "s @ crlf @ rest"]
      gslice_bulk [of s rest] head_number_line [of "int (length s)" 36 "s @ crlf @ rest"]
    by (simp add: Next_def readNext_def btos_opt_def resp_bulk_line)
next
  case RNull
  then show ?thesis
    using bindex_resp_line [OF format_int_no_cr [of "-1"], of 36 rest] head_number_line [of "-1" 36 rest]
      gslice_line [of 36 "format_int 10 (-1)" rest]
    by (simp add: Next_def readNext_def btos_opt_def)
next
  case (RArray vs)
  with assms Next_array show ?thesis by simp
qed


text \<open>Calling \<open>Next\<close> a number of times.\<close>

fun next_n :: "nat \<Rightarrow> reader \<Rightarrow> (go_any list \<times> reader) option" where
  "next_n 0 r = Some ([], r)"
| "next_n (Suc n) r = do {
     (a, r') \<leftarrow> Next r;
     (as, r'') \<leftarrow> next_n n r';
     Some (a # as, r'') }"

lemma next_n_enc:
  "list_all resp_wf vs \<Longrightarrow> next_n (length vs) (concat (map resp_enc vs) @ rest) = Some (map any_of vs, rest)"
  by (induction vs) (simp_all add: Next_enc)

text \<open>
  C15: an encoded reply is framed at its exact length whatever follows it, and \<open>Next\<close>
  returns its value and leaves what follows; the values of an array are read back from
  the reader of the array, which then reports its end.
\<close>

theorem reader_round_trip:
  assumes "resp_wf v"
  shows "readElement (resp_enc v @ rest) = Some (Inr (length (resp_enc v)))
    \<and> Next (resp_enc v @ rest) = Some (any_of v, rest)
    \<and> (\<forall>vs. v = RArray vs \<longrightarrow> any_of v = AReader (Some (concat (map resp_enc vs)))
           \<and> next_n (length vs) (concat (map resp_enc vs)) = Some (map any_of vs, [])
           \<and> Next [] = Some (ANil, []))"
proof -
  have "next_n (length vs) (concat (map resp_enc vs)) = Some (map any_of vs, [])" if "v = RArray vs" for vs
    using that assms next_n_enc [of vs "[]"] by simp
  moreover have "Next [] = Some (ANil, [])" by (simp add: Next_def readNext_def)
  ultimately show ?thesis using assms by (simp add: readElement_enc Next_enc)
qed

theorem reader_round_trip_witness:
  "readElement (resp_enc (RArray [RBulk (bs ''a''), RInt 7, RNull]) @ bs ''x'') =
     Some (Inr (length (resp_enc (RArray [RBulk (bs ''a''), RInt 7, RNull]))))
   \<and> next_n 3 (concat (map resp_enc [RBulk (bs ''a''), RInt 7, RNull])) =
     Some (map any_of [RBulk (bs ''a''), RInt 7, RNull], [])"
proof -
  have wf: "resp_wf (RArray [RBulk (bs ''a''), RInt 7, RNull])" by simp
  show ?thesis
    using reader_round_trip [OF wf, of "bs ''x''"]
    by (simp add: numeral_3_eq_3 del: next_n.simps resp_enc.simps)
qed

text \<open>
  However a reply is cut into reads, the client frames it as it would frame the whole
  stream, errors included.
\<close>

lemma element_segmentation:
  assumes "cs \<noteq> []"
  shows "feed element_parser RWaitMore s [] cs = element_parser s (concat cs)"
  using rep.feed_whole [of cs s "[]"] assms by simp

theorem framed_reader_consumed_witness:
  "\<exists>el e r. readNext (take 5 (bs ''+OK'' @ crlf @ bs ''x'')) = Some (el, [])
    \<and> reader_err (take 5 (bs ''+OK'' @ crlf @ bs ''x'')) = Some (e, r)
    \<and> (e = None \<longrightarrow> r = take 5 (bs ''+OK'' @ crlf @ bs ''x''))"
proof (rule framed_reader_consumed)
  show "readElement (bs ''+OK'' @ crlf @ bs ''x'') = Some (Inr 5)" by code_simp
qed simp

text \<open>
  A bulk string header that announces the largest int makes the client panic, because
  the end of the string overflows before it is compared with the length of the buffer.
\<close>

lemma readElement_overflow_panic:
  "readElement (bs ''$9223372036854775807'' @ crlf) = None"
  by code_simp

end
