(* ===== verification/Redis_Client.thy ===== *)
theory Redis_Client
  imports Poll Fd_Map Resp_Reader
begin

text \<open>
  redis/client.go: the pooled client. A connection carries one command at a time, so the
  client keeps its idle connections in a channel and gives each call of \<open>Exec\<close> one of them,
  or a new one, or makes it wait. Connections are cells of a store; a callback is the number
  of the \<open>Exec\<close> call it belongs to, and what it is called with is recorded as an effect, as
  are the system calls. Results of system calls are arguments. The client never sets the
  \<open>ssl\<close> field of its connections, so their SSL branches do not exist here. The application has
  installed \<open>OnError\<close>, which \<open>Exec\<close> checks before anything else.
\<close>

section \<open>State\<close>

text \<open>The timer of a connection: nil, running, stopped, or expired.\<close>

datatype death_timer = NoTimer | Running | Stopped | Fired

record cconn =
  cc_fd :: int
  callback :: "nat option"
  cc_in :: bytes
  cc_out :: bytes
  death :: death_timer
  authState :: nat

text \<open>
  \<open>CReply\<close> and \<open>CFail\<close> are calls of a callback: with the reader and its error, or with no
  reader and an error, named by its type, where \<open>None\<close> is \<open>net.ErrClosed\<close>.
\<close>

datatype ceffect =
    CWrite int bytes
  | CClose int
  | CError bytes
  | CReply nat reader "bytes option"
  | CFail nat "bytes option"

record client =
  cl_poll :: poll
  auth :: bytes
  fdConns :: "nat fd_map"
  fdIdle :: "nat list"
  poolSize :: int
  cl_Timeout :: int
  counts :: "int \<times> int"
  conns :: "nat \<Rightarrow> cconn"
  cl_free :: nat
  cl_fx :: "ceffect list"

definition new_cconn :: "int \<Rightarrow> nat option \<Rightarrow> cconn" where
  "new_cconn fd cb = \<lparr>cc_fd = fd, callback = cb, cc_in = [], cc_out = [], death = NoTimer, authState = 0\<rparr>"

definition NewClient :: "int \<Rightarrow> bytes \<Rightarrow> int \<Rightarrow> int option \<Rightarrow> int option \<Rightarrow> client option" where
  "NewClient n au timeout ep w = do {
     p \<leftarrow> OpenPoll ep w;
     Some \<lparr>cl_poll = p, auth = au, fdConns = new_fd_map, fdIdle = [], poolSize = n, cl_Timeout = timeout,
       counts = (0, 0), conns = (\<lambda>_. new_cconn 0 None), cl_free = 0, cl_fx = []\<rparr> }"

definition ActiveCount :: "client \<Rightarrow> int" where
  "ActiveCount d = fd_Len (fdConns d) - int (length (fdIdle d))"

definition IdleCount :: "client \<Rightarrow> int" where
  "IdleCount d = int (length (fdIdle d))"

text \<open>
  \<open>OnFdCount\<close>: the callback \<open>NewMultiCoreClients\<close> installs records the counts at the time it
  is called; the one of \<open>NewClient\<close> does nothing, and then nobody reads them.
\<close>

definition OnFdCount :: "client \<Rightarrow> client" where
  "OnFdCount d = d\<lparr>counts := (IdleCount d, ActiveCount d)\<rparr>"

definition cl_emit :: "ceffect \<Rightarrow> client \<Rightarrow> client" where
  "cl_emit e d = d\<lparr>cl_fx := cl_fx d @ [e]\<rparr>"

definition set_conn :: "nat \<Rightarrow> cconn \<Rightarrow> client \<Rightarrow> client" where
  "set_conn a c d = d\<lparr>conns := (conns d)(a := c)\<rparr>"

definition cl_on_poll :: "(poll \<Rightarrow> poll option) \<Rightarrow> client \<Rightarrow> client option" where
  "cl_on_poll f d = do { p \<leftarrow> f (cl_poll d); Some (d\<lparr>cl_poll := p\<rparr>) }"

text \<open>\<open>time.Timer\<close>: \<open>Reset\<close> starts the timer in any case, and both tell whether it was running.\<close>

definition timer_Reset :: "cconn \<Rightarrow> (cconn \<times> bool) option" where
  "timer_Reset c = (if death c = NoTimer then None else Some (c\<lparr>death := Running\<rparr>, death c = Running))"

definition timer_Stop :: "cconn \<Rightarrow> cconn \<times> bool" where
  "timer_Stop c = (if death c = Running then (c\<lparr>death := Stopped\<rparr>, True) else (c, False))"

section \<open>Closing\<close>

definition cl_sys_close :: "bool \<Rightarrow> int \<Rightarrow> client \<Rightarrow> client" where
  "cl_sys_close ok fd d =
     (let d = cl_emit (CClose fd) (d\<lparr>cl_poll := forget fd (cl_poll d)\<rparr>)
      in if ok then d else cl_emit (CError (bs ''close'')) d)"

text \<open>\<open>failed\<close> says whether the error argument is not nil.\<close>

definition cl_closeConnWithError :: "(int \<Rightarrow> bool) \<Rightarrow> nat \<Rightarrow> bytes \<Rightarrow> bool \<Rightarrow> client \<Rightarrow> client option" where
  "cl_closeConnWithError ok a ty failed d = do {
     let c = conns d a;
     m \<leftarrow> fd_Delete (cc_fd c) (fdConns d);
     let d = OnFdCount (d\<lparr>fdConns := m\<rparr>);
     let d = cl_sys_close (ok (cc_fd c)) (cc_fd c) d;
     let d = (if failed then cl_emit (CError ty) d else d);
     Some (case callback c of
         None \<Rightarrow> d
       | Some cb \<Rightarrow> if ty = bs ''free'' then d else cl_emit (CFail cb (if failed then Some ty else None)) d) }"

section \<open>Commands\<close>

text \<open>
  The arguments of \<open>Exec\<close>, by the cases of its type switch; \<open>ArgOther\<close> holds what \<open>fmt.Sprint\<close>
  makes of any other value.
\<close>

datatype arg = ArgBytes bytes | ArgString bytes | ArgInt int | ArgInt64 int | ArgOther bytes

fun arg_text :: "arg \<Rightarrow> bytes" where
  "arg_text (ArgBytes b) = b"
| "arg_text (ArgString s) = s"
| "arg_text (ArgInt i) = format_int 10 i"
| "arg_text (ArgInt64 i) = format_int 10 i"
| "arg_text (ArgOther s) = s"

definition write_arg :: "arg \<Rightarrow> bytes \<Rightarrow> bytes" where
  "write_arg a out =
     (let s = arg_text a;
          out = out @ [36];
          out = out @ format_int 10 (int (length s));
          out = out @ crlf;
          out = out @ s
      in out @ crlf)"

definition write_command :: "arg list \<Rightarrow> bytes \<Rightarrow> bytes" where
  "write_command args out =
     (let out = out @ [42];
          out = out @ format_int 10 (int (length args));
          out = out @ crlf
      in fold write_arg args out)"

definition write_auth :: "bytes \<Rightarrow> bytes \<Rightarrow> bytes" where
  "write_auth au out =
     (let out = out @ bs ''*2'' @ crlf @ bs ''$4'' @ crlf @ bs ''AUTH'' @ crlf @ bs ''$'';
          out = out @ format_int 10 (int (length au));
          out = out @ crlf;
          out = out @ au
      in out @ crlf)"

text \<open>The loop that closes idle connections while there are too many.\<close>

fun trim_idle :: "(int \<Rightarrow> bool) \<Rightarrow> nat list \<Rightarrow> client \<Rightarrow> client option" where
  "trim_idle ok [] d = Some d"
| "trim_idle ok (a # rest) d =
     (if fd_Len (fdConns d) > poolSize d then do {
        d \<leftarrow> cl_closeConnWithError ok a [] False (d\<lparr>fdIdle := rest\<rparr>);
        trim_idle ok rest d }
      else Some d)"

definition fillIdleConn :: "(int \<Rightarrow> bool) \<Rightarrow> nat \<Rightarrow> nat \<Rightarrow> arg list \<Rightarrow> client \<Rightarrow> client option" where
  "fillIdleConn ok a cb args d =
     (if cc_out (conns d a) \<noteq> [] then None
      else do {
        let c = (conns d a)\<lparr>callback := Some cb\<rparr>;
        let c = c\<lparr>cc_out := []\<rparr>;
        let c = c\<lparr>cc_out := write_command args (cc_out c)\<rparr>;
        c \<leftarrow> (if cl_Timeout d > 0 then map_option fst (timer_Reset c) else Some c);
        let d = set_conn a c d;
        d \<leftarrow> trim_idle ok (fdIdle d) d;
        let d = OnFdCount d;
        Some (d\<lparr>cl_poll := Trigger (cc_fd c) (cl_poll d)\<rparr>) })"

text \<open>What \<open>Socket\<close>, \<open>SetNonblock\<close> and \<open>Connect\<close> return.\<close>

datatype dial_result = SocketErr | NonblockErr int | ConnectErr int | Dialed int

text \<open>A call either returns or waits until the channel holds an idle connection.\<close>

datatype exec_outcome = Done client | Blocks

definition dial_failed :: "int option \<Rightarrow> bytes \<Rightarrow> nat \<Rightarrow> client \<Rightarrow> client" where
  "dial_failed fd ty cb d =
     (let d = (case fd of None \<Rightarrow> d | Some fd \<Rightarrow> cl_emit (CClose fd) d)
      in cl_emit (CFail cb (Some ty)) d)"

definition dialed :: "int \<Rightarrow> nat \<Rightarrow> arg list \<Rightarrow> client \<Rightarrow> client option" where
  "dialed fd cb args d = do {
     let a = cl_free d;
     let c = new_cconn fd (Some cb);
     let c = (if auth d \<noteq> [] then c\<lparr>authState := 1, cc_out := write_auth (auth d) (cc_out c)\<rparr> else c);
     let c = c\<lparr>cc_out := write_command args (cc_out c)\<rparr>;
     let d = d\<lparr>cl_free := Suc a\<rparr>;
     m \<leftarrow> fd_Add fd a (fdConns d);
     let d = d\<lparr>fdConns := m\<rparr>;
     let c = (if cl_Timeout d > 0 then c\<lparr>death := Running\<rparr> else c);
     let d = OnFdCount (set_conn a c d);
     cl_on_poll (AddReadWrite fd) d }"

definition activateFreeConn :: "(int \<Rightarrow> bool) \<Rightarrow> dial_result \<Rightarrow> nat \<Rightarrow> arg list \<Rightarrow> client \<Rightarrow> exec_outcome option" where
  "activateFreeConn ok dr cb args d =
     (case fdIdle d of
        a # rest \<Rightarrow> map_option Done (fillIdleConn ok a cb args (d\<lparr>fdIdle := rest\<rparr>))
      | [] \<Rightarrow>
          if fd_Len (fdConns d) \<ge> poolSize d then Some Blocks
          else case dr of
            SocketErr \<Rightarrow> Some (Done (dial_failed None (bs ''socket'') cb d))
          | NonblockErr fd \<Rightarrow> Some (Done (dial_failed (Some fd) (bs ''nonblock'') cb d))
          | ConnectErr fd \<Rightarrow> Some (Done (dial_failed (Some fd) (bs ''connect'') cb d))
          | Dialed fd \<Rightarrow> map_option Done (dialed fd cb args d))"

definition Exec :: "(int \<Rightarrow> bool) \<Rightarrow> dial_result \<Rightarrow> nat \<Rightarrow> arg list \<Rightarrow> client \<Rightarrow> exec_outcome option" where
  "Exec ok dr cb args d = activateFreeConn ok dr cb args d"

section \<open>Writing\<close>

definition cl_out_tail :: "int \<Rightarrow> cconn \<Rightarrow> cconn option" where
  "cl_out_tail n c = do {
     rest \<leftarrow> gslice (cc_out c) n (int (length (cc_out c)));
     Some (c\<lparr>cc_out := rest\<rparr>) }"

definition cl_sent :: "int \<Rightarrow> cconn \<Rightarrow> client \<Rightarrow> client" where
  "cl_sent n c d = (if n > 0 then cl_emit (CWrite (cc_fd c) (take (nat n) (cc_out c))) d else d)"

definition cl_writeConn :: "(int \<Rightarrow> bool) \<Rightarrow> nat \<Rightarrow> write_result \<Rightarrow> client \<Rightarrow> client option" where
  "cl_writeConn ok a wr d =
     (let c = conns d a in
      if cc_out c = [] then cl_on_poll (ModRead (cc_fd c)) d
      else case wr of
        WriteErr n e \<Rightarrow>
          if e = EAGAIN then do {
            c' \<leftarrow> (if n > 0 then cl_out_tail n c else Some c);
            cl_on_poll (ModReadWrite (cc_fd c)) (set_conn a c' (cl_sent n c d)) }
          else cl_closeConnWithError ok a (bs ''write'') True d
      | Wrote n \<Rightarrow>
          let d = cl_sent (int n) c d in
          if n = length (cc_out c)
          then cl_on_poll (ModRead (cc_fd c)) (set_conn a (c\<lparr>cc_out := []\<rparr>) d)
          else do {
            c' \<leftarrow> cl_out_tail (int n) c;
            cl_on_poll (ModReadWrite (cc_fd c)) (set_conn a c' d) })"

section \<open>Reading\<close>

text \<open>
  The loop over the complete replies of the input: what it leaves of the connection, the
  calls of the callback it makes, and the error that ended it.
\<close>

definition take_reply :: "nat \<Rightarrow> nat \<Rightarrow> cconn \<Rightarrow> (cconn \<times> ceffect list) option" where
  "take_reply cb n c = do {
     (c, fs) \<leftarrow> (if authState c = 1 then Some (c\<lparr>authState := 2\<rparr>, [])
       else do {
         buf \<leftarrow> gslice (cc_in c) 0 (int n);
         (e, r) \<leftarrow> reader_err buf;
         Some (c\<lparr>authState := 0\<rparr>, [CReply cb r e]) });
     rest \<leftarrow> gslice (cc_in c) (int n) (int (length (cc_in c)));
     Some (c\<lparr>cc_in := rest\<rparr>, fs) }"

lemma take_reply_in: "take_reply cb n c = Some (c', fs) \<Longrightarrow> n \<le> length (cc_in c) \<and> cc_in c' = drop n (cc_in c)"
  by (auto simp: take_reply_def gslice_Some_iff split: bind_splits if_splits)

function reply_loop :: "nat \<Rightarrow> cconn \<Rightarrow> (cconn \<times> ceffect list \<times> resp_error option) option" where
  "reply_loop cb c =
     (if cc_in c = [] then Some (c, [], None)
      else case readElement (cc_in c) of
        None \<Rightarrow> None
      | Some (Inl e) \<Rightarrow> Some (c, [], if e = RWaitMore then None else Some e)
      | Some (Inr n) \<Rightarrow>
          (case take_reply cb n c of
             None \<Rightarrow> None
           | Some (c, fs) \<Rightarrow>
               map_option (\<lambda>(c, gs, e). (c, fs @ gs, e)) (reply_loop cb c)))"
  by pat_completeness auto
termination
proof (relation "measure (\<lambda>(cb, c). length (cc_in c))", goal_cases)
  case (2 cb c x n y c' fs)
  then show ?case using readElement_bound(1) [of "cc_in c"] take_reply_in by fastforce
qed simp

declare reply_loop.simps [simp del]

text \<open>The end of \<open>readConn\<close>: a connection that has had its reply becomes idle, or is closed when there are too many.\<close>

definition park :: "(int \<Rightarrow> bool) \<Rightarrow> nat \<Rightarrow> client \<Rightarrow> client option" where
  "park ok a d =
     (let c = conns d a in
      if fd_Len (fdConns d) \<le> poolSize d then
        let c = c\<lparr>callback := None\<rparr>;
            (c, stopped) = (if death c \<noteq> NoTimer then timer_Stop c else (c, True));
            d = set_conn a c d
        in if \<not> stopped then Some d
           else if int (length (fdIdle d)) < poolSize d then Some (d\<lparr>fdIdle := fdIdle d @ [a]\<rparr>)
           else None
      else cl_closeConnWithError ok a (bs ''free'') False d)"

definition cl_readConn :: "int \<Rightarrow> (int \<Rightarrow> bool) \<Rightarrow> nat \<Rightarrow> read_result \<Rightarrow> client \<Rightarrow> client option" where
  "cl_readConn lim ok a rd d =
     (let c = conns d a in
      case rd of
        ReadErr e \<Rightarrow>
          if e = EAGAIN then cl_on_poll (ModRead (cc_fd c)) d
          else cl_closeConnWithError ok a (bs ''read'') True d
      | ReadN data \<Rightarrow>
          if data = [] then cl_closeConnWithError ok a [] False d
          else case callback c of
            None \<Rightarrow> Some (cl_emit (CError (bs ''warning'')) d)
          | Some cb \<Rightarrow>
              let c = c\<lparr>cc_in := cc_in c @ data\<rparr>; d = set_conn a c d in
              if int (length (cc_in c)) > lim then cl_closeConnWithError ok a (bs ''oversize'') True d
              else do {
                (c, fs, e) \<leftarrow> reply_loop cb c;
                let d = set_conn a c d;
                let d = d\<lparr>cl_fx := cl_fx d @ fs\<rparr>;
                (if e \<noteq> None then cl_closeConnWithError ok a (bs ''read'') True d
                 else if cc_in c = [] \<and> authState c = 0 then park ok a d
                 else Some d) })"

section \<open>Events\<close>

text \<open>The callback of the poll loop, and the function of the timer.\<close>

definition cl_event :: "int \<Rightarrow> (int \<Rightarrow> bool) \<Rightarrow> int \<Rightarrow> u32 \<Rightarrow> write_result \<Rightarrow> read_result \<Rightarrow> client \<Rightarrow> client option" where
  "cl_event lim ok fd ev wr rd d = do {
     found \<leftarrow> fd_Get fd (fdConns d);
     (case found of
        None \<Rightarrow> Some (cl_emit (CError (bs ''warning'')) d)
      | Some a \<Rightarrow> do {
          (d, alive) \<leftarrow> (if callback (conns d a) \<noteq> None \<and> cl_Timeout d > 0
             then map_option (\<lambda>(c, was). (set_conn a c d, was)) (timer_Reset (conns d a))
             else Some (d, True));
          (if \<not> alive then Some d
           else if ev AND WRITE > 0 then
             if callback (conns d a) = None then cl_closeConnWithError ok a (bs ''write'') True d
             else cl_writeConn ok a wr d
           else cl_readConn lim ok a rd d) }) }"

definition timer_fires :: "(int \<Rightarrow> bool) \<Rightarrow> nat \<Rightarrow> client \<Rightarrow> client option" where
  "timer_fires ok a d =
     (if death (conns d a) = Running
      then cl_closeConnWithError ok a (bs ''timeout'') True (set_conn a ((conns d a)\<lparr>death := Fired\<rparr>) d)
      else Some d)"

text \<open>\<open>Close\<close> up to the closing of the poller, which is \<open>Poll_Close\<close> of the theory \<open>Sockets\<close>.\<close>

definition cl_Close :: "(int \<Rightarrow> bool) \<Rightarrow> client \<Rightarrow> client option" where
  "cl_Close ok d = fold (\<lambda>(fd, a) d. d \<bind> cl_closeConnWithError ok a [] False) (Foreach (fdConns d)) (Some d)"

end
