(* ===== verification/Redis_Pool.thy ===== *)
theory Redis_Pool
  imports Redis_Client
begin

text \<open>
  The pool of the client (redis/client.go): \<open>Exec\<close>, reading, writing, closing and parking a
  connection keep the table, the channel of idle connections, the timers and the poller in
  agreement, and lose no callback.
\<close>

section \<open>The invariant of the pool\<close>

definition resting :: "int \<Rightarrow> cconn \<Rightarrow> bool" where
  "resting t c \<longleftrightarrow> callback c = None \<and> cc_in c = [] \<and> cc_out c = [] \<and> authState c = 0 \<and> death c = (if t > 0 then Stopped else NoTimer)"

definition working :: "int \<Rightarrow> cconn \<Rightarrow> bool" where
  "working t c \<longleftrightarrow> callback c \<noteq> None \<and> death c = (if t > 0 then Running else NoTimer)"

abbreviation is_open :: "client \<Rightarrow> nat \<Rightarrow> bool" where
  "is_open d a \<equiv> table (fdConns d) (cc_fd (conns d a)) = Some a"

text \<open>
  The table, the store and the poller agree; every connection of the channel is open and
  rests; every other open connection works for a callback, with its timer running. The
  connections of \<open>X\<close> are exempt from resting and working.
\<close>

definition cl_inv :: "nat set \<Rightarrow> client \<Rightarrow> bool" where
  "cl_inv X d \<longleftrightarrow>
     fd_ok (fdConns d) \<and> distinct (fdIdle d) \<and> (\<forall>a\<in>set (fdIdle d). is_open d a) \<and>
     (\<forall>fd a. table (fdConns d) fd = Some a \<longrightarrow>
        cc_fd (conns d a) = fd \<and> a < cl_free d \<and> interest (cl_poll d) fd \<noteq> None \<and>
        (a \<in> X \<or> (if a \<in> set (fdIdle d) then resting (cl_Timeout d) (conns d a) else working (cl_Timeout d) (conns d a)))) \<and>
     (\<exists>fds. pending (cl_poll d) fds)"

lemma cl_invD:
  assumes "cl_inv X d"
  shows "fd_ok (fdConns d)" and "distinct (fdIdle d)" and "a \<in> set (fdIdle d) \<Longrightarrow> is_open d a"
    and "table (fdConns d) fd = Some a \<Longrightarrow> cc_fd (conns d a) = fd"
    and "table (fdConns d) fd = Some a \<Longrightarrow> a < cl_free d"
    and "table (fdConns d) fd = Some a \<Longrightarrow> interest (cl_poll d) fd \<noteq> None"
    and "table (fdConns d) fd = Some a \<Longrightarrow> a \<notin> X \<Longrightarrow> a \<in> set (fdIdle d) \<Longrightarrow> resting (cl_Timeout d) (conns d a)"
    and "table (fdConns d) fd = Some a \<Longrightarrow> a \<notin> X \<Longrightarrow> a \<notin> set (fdIdle d) \<Longrightarrow> working (cl_Timeout d) (conns d a)"
    and "\<exists>fds. pending (cl_poll d) fds"
proof -
  have t: "\<forall>fd a. table (fdConns d) fd = Some a \<longrightarrow>
        cc_fd (conns d a) = fd \<and> a < cl_free d \<and> interest (cl_poll d) fd \<noteq> None \<and>
        (a \<in> X \<or> (if a \<in> set (fdIdle d) then resting (cl_Timeout d) (conns d a) else working (cl_Timeout d) (conns d a)))"
    using assms unfolding cl_inv_def by (elim conjE)
  show "table (fdConns d) fd = Some a \<Longrightarrow> cc_fd (conns d a) = fd" "table (fdConns d) fd = Some a \<Longrightarrow> a < cl_free d"
    "table (fdConns d) fd = Some a \<Longrightarrow> interest (cl_poll d) fd \<noteq> None"
    "table (fdConns d) fd = Some a \<Longrightarrow> a \<notin> X \<Longrightarrow> a \<in> set (fdIdle d) \<Longrightarrow> resting (cl_Timeout d) (conns d a)"
    "table (fdConns d) fd = Some a \<Longrightarrow> a \<notin> X \<Longrightarrow> a \<notin> set (fdIdle d) \<Longrightarrow> working (cl_Timeout d) (conns d a)"
    using spec [OF spec [OF t, of fd], of a] by simp_all
qed (use assms in \<open>unfold cl_inv_def, elim conjE, simp\<close>)+

lemma cl_invI:
  assumes "fd_ok (fdConns d)" and "distinct (fdIdle d)" and "\<And>a. a \<in> set (fdIdle d) \<Longrightarrow> is_open d a"
    and "\<And>fd a. table (fdConns d) fd = Some a \<Longrightarrow> cc_fd (conns d a) = fd"
    and "\<And>fd a. table (fdConns d) fd = Some a \<Longrightarrow> a < cl_free d"
    and "\<And>fd a. table (fdConns d) fd = Some a \<Longrightarrow> interest (cl_poll d) fd \<noteq> None"
    and "\<And>fd a. table (fdConns d) fd = Some a \<Longrightarrow> a \<notin> X \<Longrightarrow> a \<in> set (fdIdle d) \<Longrightarrow> resting (cl_Timeout d) (conns d a)"
    and "\<And>fd a. table (fdConns d) fd = Some a \<Longrightarrow> a \<notin> X \<Longrightarrow> a \<notin> set (fdIdle d) \<Longrightarrow> working (cl_Timeout d) (conns d a)"
    and "\<exists>fds. pending (cl_poll d) fds"
  shows "cl_inv X d"
proof -
  have "a \<in> X \<or> (if a \<in> set (fdIdle d) then resting (cl_Timeout d) (conns d a) else working (cl_Timeout d) (conns d a))"
    if "table (fdConns d) fd = Some a" for fd a using assms(7,8) [OF that] by auto
  then show ?thesis unfolding cl_inv_def using assms(1-6,9) by (intro conjI ballI allI impI) blast+
qed

text \<open>The callbacks a list of effects calls.\<close>

definition called :: "ceffect list \<Rightarrow> nat set" where
  "called fs = {cb. \<exists>r e. CReply cb r e \<in> set fs} \<union> {cb. \<exists>e. CFail cb e \<in> set fs}"

lemma called_simps [simp]:
  "called [] = {}" "called (fs @ gs) = called fs \<union> called gs" "called (CReply cb r e # fs) = insert cb (called fs)"
  "called (CFail cb e' # fs) = insert cb (called fs)" "called (CWrite fd x # fs) = called fs" "called (CClose fd # fs) = called fs"
  "called (CError t # fs) = called fs"
  by (auto simp: called_def)

lemma simple_simps [simp]:
  "conns (set_conn a c d) = (conns d)(a := c)" "fdConns (set_conn a c d) = fdConns d" "fdIdle (set_conn a c d) = fdIdle d"
  "cl_poll (set_conn a c d) = cl_poll d" "cl_Timeout (set_conn a c d) = cl_Timeout d" "cl_free (set_conn a c d) = cl_free d"
  "cl_fx (set_conn a c d) = cl_fx d" "poolSize (set_conn a c d) = poolSize d" "auth (set_conn a c d) = auth d"
  "conns (cl_emit e d) = conns d" "fdConns (cl_emit e d) = fdConns d" "fdIdle (cl_emit e d) = fdIdle d"
  "cl_poll (cl_emit e d) = cl_poll d" "cl_Timeout (cl_emit e d) = cl_Timeout d" "cl_free (cl_emit e d) = cl_free d"
  "cl_fx (cl_emit e d) = cl_fx d @ [e]" "poolSize (cl_emit e d) = poolSize d" "auth (cl_emit e d) = auth d"
  "conns (OnFdCount d) = conns d" "fdConns (OnFdCount d) = fdConns d" "fdIdle (OnFdCount d) = fdIdle d"
  "cl_poll (OnFdCount d) = cl_poll d" "cl_Timeout (OnFdCount d) = cl_Timeout d" "cl_free (OnFdCount d) = cl_free d"
  "cl_fx (OnFdCount d) = cl_fx d" "poolSize (OnFdCount d) = poolSize d" "auth (OnFdCount d) = auth d"
  by (simp_all add: set_conn_def cl_emit_def OnFdCount_def)

section \<open>Closing\<close>

lemma sys_close_simps [simp]:
  "conns (cl_sys_close b fd d) = conns d" "fdConns (cl_sys_close b fd d) = fdConns d" "fdIdle (cl_sys_close b fd d) = fdIdle d"
  "cl_poll (cl_sys_close b fd d) = forget fd (cl_poll d)" "cl_Timeout (cl_sys_close b fd d) = cl_Timeout d"
  "cl_free (cl_sys_close b fd d) = cl_free d" "poolSize (cl_sys_close b fd d) = poolSize d" "auth (cl_sys_close b fd d) = auth d"
  "called (cl_fx (cl_sys_close b fd d)) = called (cl_fx d)"
  by (simp_all add: cl_sys_close_def Let_def)

lemma cl_close_shape:
  assumes "fd_Delete (cc_fd (conns d a)) (fdConns d) = Some m"
  shows "\<exists>d'. cl_closeConnWithError ok a ty failed d = Some d' \<and> fdConns d' = m \<and> conns d' = conns d \<and> fdIdle d' = fdIdle d \<and>
     cl_poll d' = forget (cc_fd (conns d a)) (cl_poll d) \<and> cl_Timeout d' = cl_Timeout d \<and> cl_free d' = cl_free d \<and>
     poolSize d' = poolSize d \<and> auth d' = auth d \<and>
     called (cl_fx d') = called (cl_fx d) \<union> (if ty = bs ''free'' then {} else set_option (callback (conns d a)))"
proof -
  define e where "e = cl_sys_close (ok (cc_fd (conns d a))) (cc_fd (conns d a)) (OnFdCount (d\<lparr>fdConns := m\<rparr>))"
  have e: "fdConns e = m \<and> conns e = conns d \<and> fdIdle e = fdIdle d \<and> cl_poll e = forget (cc_fd (conns d a)) (cl_poll d) \<and>
     cl_Timeout e = cl_Timeout d \<and> cl_free e = cl_free d \<and> poolSize e = poolSize d \<and> auth e = auth d \<and> called (cl_fx e) = called (cl_fx d)"
    by (simp add: e_def)
  have c: "cl_closeConnWithError ok a ty failed d = Some (let d = (if failed then cl_emit (CError ty) e else e) in
     case callback (conns (d :: client) a) of None \<Rightarrow> d
       | Some cb \<Rightarrow> if ty = bs ''free'' then d else cl_emit (CFail cb (if failed then Some ty else None)) d)"
    unfolding cl_closeConnWithError_def Let_def assms e_def by simp
  show ?thesis unfolding c using e by (cases "callback (conns d a)") (auto simp: Let_def)
qed

lemma cl_close_inv:
  assumes "cl_inv (insert a X) d" and "is_open d a" and "a \<notin> set (fdIdle d)"
  shows "\<exists>d'. cl_closeConnWithError ok a ty failed d = Some d' \<and> cl_inv X d' \<and> conns d' = conns d \<and> fdIdle d' = fdIdle d \<and>
     table (fdConns d') = (table (fdConns d))(cc_fd (conns d a) := None) \<and> cl_Timeout d' = cl_Timeout d \<and> poolSize d' = poolSize d \<and>
     called (cl_fx d') = called (cl_fx d) \<union> (if ty = bs ''free'' then {} else set_option (callback (conns d a)))"
proof -
  note I = cl_invD [OF assms(1)]
  from fm.del_law [OF I(1)] assms(2) obtain m where m: "fd_Delete (cc_fd (conns d a)) (fdConns d) = Some m" "fd_ok m"
    "table m = (table (fdConns d))(cc_fd (conns d a) := None)" by auto
  from cl_close_shape [OF m(1), of ok ty failed] obtain d' where d: "cl_closeConnWithError ok a ty failed d = Some d'"
    "fdConns d' = m" "conns d' = conns d" "fdIdle d' = fdIdle d" "cl_poll d' = forget (cc_fd (conns d a)) (cl_poll d)"
    "cl_Timeout d' = cl_Timeout d" "cl_free d' = cl_free d" "poolSize d' = poolSize d"
    "called (cl_fx d') = called (cl_fx d) \<union> (if ty = bs ''free'' then {} else set_option (callback (conns d a)))" by blast
  have t: "table m fd = Some b \<longleftrightarrow> table (fdConns d) fd = Some b \<and> fd \<noteq> cc_fd (conns d a) \<and> b \<noteq> a" for fd b
    unfolding m(3) using I(4) [of fd b] by auto
  have "cl_inv X d'"
  proof (rule cl_invI)
    show "\<And>b. b \<in> set (fdIdle d') \<Longrightarrow> is_open d' b"
      using I(3) assms(2,3) I(4) unfolding d m(3) by (metis fun_upd_apply option.inject)
    show "\<exists>fds. pending (cl_poll d') fds" using I(9) unfolding d by (simp add: forget_def)
    show "fd_ok (fdConns d')" "distinct (fdIdle d')" unfolding d by (fact m(2), fact I(2))
    fix fd b assume "table (fdConns d') fd = Some b"
    then have b: "table (fdConns d) fd = Some b" "fd \<noteq> cc_fd (conns d a)" "b \<noteq> a" unfolding d t by auto
    show "cc_fd (conns d' b) = fd" "b < cl_free d'" unfolding d using I(4) [OF b(1)] I(5) [OF b(1)] by auto
    show "interest (cl_poll d') fd \<noteq> None" unfolding d using I(6) [OF b(1)] b(2) by (simp add: forget_def)
    show "resting (cl_Timeout d') (conns d' b)" if "b \<notin> X" "b \<in> set (fdIdle d')"
      using I(7) [OF b(1)] b(3) that unfolding d by simp
    show "working (cl_Timeout d') (conns d' b)" if "b \<notin> X" "b \<notin> set (fdIdle d')"
      using I(8) [OF b(1)] b(3) that unfolding d by simp
  qed
  then show ?thesis using d m(3) by blast
qed

section \<open>Changes of one connection\<close>

lemma cl_inv_set:
  assumes "cl_inv X d" and "cc_fd c = cc_fd (conns d a)"
  shows "cl_inv (insert a X) (set_conn a c d)"
proof -
  note I = cl_invD [OF assms(1)]
  show ?thesis
    by (rule cl_invI) (use I assms(2) in \<open>auto simp: fun_upd_def\<close>)
qed

lemma cl_inv_done:
  assumes "cl_inv (insert a X) d" and "a \<in> set (fdIdle d) \<Longrightarrow> resting (cl_Timeout d) (conns d a)"
    and "a \<notin> set (fdIdle d) \<Longrightarrow> is_open d a \<Longrightarrow> working (cl_Timeout d) (conns d a)"
  shows "cl_inv X d"
proof -
  note I = cl_invD [OF assms(1)]
  show ?thesis
  proof (rule cl_invI)
    fix fd b assume b: "table (fdConns d) fd = Some b" "b \<notin> X"
    show "resting (cl_Timeout d) (conns d b)" if "b \<in> set (fdIdle d)" using I(7) [OF b(1) _ that] b(2) assms(2) that by (cases "b = a") auto
    show "working (cl_Timeout d) (conns d b)" if "b \<notin> set (fdIdle d)"
      using I(8) [OF b(1) _ that] b(2) assms(3) that I(4) [OF b(1)] b(1) by (cases "b = a") auto
  qed (fact I)+
qed

lemma cl_inv_mono: "cl_inv X d \<Longrightarrow> X \<subseteq> Y \<Longrightarrow> cl_inv Y d"
  by (rule cl_invI) (auto dest: cl_invD)

lemma cl_inv_poll:
  assumes "cl_inv X d" and "\<And>fd. interest (cl_poll d) fd \<noteq> None \<Longrightarrow> interest p fd \<noteq> None" and "\<exists>fds. pending p fds"
  shows "cl_inv X (d\<lparr>cl_poll := p\<rparr>)"
proof -
  note I = cl_invD [OF assms(1)]
  show ?thesis by (rule cl_invI) (use I assms(2,3) in simp_all)
qed

lemma cl_inv_cong:
  assumes "cl_inv X d" and "fdConns d' = fdConns d" and "fdIdle d' = fdIdle d" and "conns d' = conns d" and "cl_poll d' = cl_poll d"
    and "cl_free d' = cl_free d" and "cl_Timeout d' = cl_Timeout d"
  shows "cl_inv X d'"
  using assms(1) unfolding cl_inv_def assms(2-) .

lemma cl_inv_fx: "cl_inv X d \<Longrightarrow> cl_inv X (d\<lparr>cl_fx := f\<rparr>)"
  by (rule cl_inv_cong) simp_all

lemma cl_inv_emit: "cl_inv X d \<Longrightarrow> cl_inv X (cl_emit e d)"
  by (rule cl_inv_cong) simp_all

lemma cl_inv_count: "cl_inv X d \<Longrightarrow> cl_inv X (OnFdCount d)"
  by (rule cl_inv_cong) simp_all

lemma cl_inv_mod:
  assumes "cl_inv X d" and "interest (cl_poll d) fd \<noteq> None"
  shows "\<exists>d'. cl_on_poll (ModRead fd) d = Some d' \<and> cl_inv X d' \<and> conns d' = conns d \<and> fdIdle d' = fdIdle d \<and> fdConns d' = fdConns d \<and>
      cl_Timeout d' = cl_Timeout d \<and> cl_fx d' = cl_fx d"
    and "\<exists>d'. cl_on_poll (ModReadWrite fd) d = Some d' \<and> cl_inv X d' \<and> conns d' = conns d \<and> fdIdle d' = fdIdle d \<and> fdConns d' = fdConns d \<and>
      cl_Timeout d' = cl_Timeout d \<and> cl_fx d' = cl_fx d"
  using assms cl_invD(9) [OF assms(1)]
  by (auto simp: cl_on_poll_def ModRead_def ModReadWrite_def epoll_mod_def intro!: cl_inv_poll)


section \<open>No callback is lost\<close>

text \<open>The callbacks of the open connections.\<close>

definition waiting :: "client \<Rightarrow> nat set" where
  "waiting d = {cb. \<exists>fd a. table (fdConns d) fd = Some a \<and> callback (conns d a) = Some cb}"

definition answered :: "nat set \<Rightarrow> client \<Rightarrow> bool" where
  "answered ids d \<longleftrightarrow> ids \<subseteq> called (cl_fx d) \<union> waiting d"

lemma waitingI: "table (fdConns d) fd = Some a \<Longrightarrow> callback (conns d a) = Some cb \<Longrightarrow> cb \<in> waiting d"
  by (auto simp: waiting_def)

lemma waiting_cong: "table (fdConns d') = table (fdConns d) \<Longrightarrow> conns d' = conns d \<Longrightarrow> waiting d' = waiting d"
  by (simp add: waiting_def)

lemma close_answered:
  assumes "cl_inv (insert a X) d" and "is_open d a" and "a \<notin> set (fdIdle d)" and "answered ids d"
    and "ty = bs ''free'' \<Longrightarrow> set_option (callback (conns d a)) \<subseteq> called (cl_fx d)"
  shows "\<exists>d'. cl_closeConnWithError ok a ty failed d = Some d' \<and> cl_inv X d' \<and> answered ids d'"
proof -
  note I = cl_invD [OF assms(1)]
  obtain d' where d: "cl_closeConnWithError ok a ty failed d = Some d'" "cl_inv X d'" "conns d' = conns d"
    "table (fdConns d') = (table (fdConns d))(cc_fd (conns d a) := None)"
    "called (cl_fx d') = called (cl_fx d) \<union> (if ty = bs ''free'' then {} else set_option (callback (conns d a)))"
    using cl_close_inv [OF assms(1-3), of ok ty failed] by blast
  have "waiting d \<subseteq> waiting d' \<union> set_option (callback (conns d a))"
  proof
    fix cb assume "cb \<in> waiting d"
    then obtain fd b where b: "table (fdConns d) fd = Some b" "callback (conns d b) = Some cb" by (auto simp: waiting_def)
    show "cb \<in> waiting d' \<union> set_option (callback (conns d a))"
    proof (cases "fd = cc_fd (conns d a)")
      case True
      then have "b = a" using b(1) assms(2) by simp
      then show ?thesis using b(2) by simp
    next
      case False
      then have "cb \<in> waiting d'" using b d(3,4) by (intro waitingI [of _ fd b]) simp_all
      then show ?thesis ..
    qed
  qed
  then show ?thesis using d assms(4,5) by (auto simp: answered_def)
qed

lemma trim_inv:
  assumes "cl_inv {} d"
  shows "\<exists>d'. trim_idle ok (fdIdle d) d = Some d' \<and> cl_inv {} d' \<and> conns d' = conns d \<and> waiting d' = waiting d \<and>
     called (cl_fx d') = called (cl_fx d) \<and> cl_Timeout d' = cl_Timeout d \<and> poolSize d' = poolSize d \<and>
     (\<forall>b. b \<notin> set (fdIdle d) \<longrightarrow> is_open d b \<longrightarrow> is_open d' b)"
  using assms
proof (induction "fdIdle d" arbitrary: d)
  case Nil
  show ?case unfolding Nil(1) [symmetric] using Nil(2) by auto
next
  case (Cons a rest)
  note I = cl_invD [OF Cons.prems]
  show ?case
  proof (cases "fd_Len (fdConns d) > poolSize d")
    case False
    then show ?thesis unfolding Cons(2) [symmetric] using Cons.prems by auto
  next
    case True
    define d1 where "d1 = d\<lparr>fdIdle := rest\<rparr>"
    have a: "is_open d a" "a \<notin> set rest" "resting (cl_Timeout d) (conns d a)"
      using I(2,3) I(7) [of "cc_fd (conns d a)" a] Cons(2) [symmetric] by auto
    have 1: "cl_inv (insert a {}) d1"
    proof (rule cl_invI)
      fix fd b assume b: "table (fdConns d1) fd = Some b"
      then have b': "table (fdConns d) fd = Some b" by (simp add: d1_def)
      show "cc_fd (conns d1 b) = fd" "b < cl_free d1" "interest (cl_poll d1) fd \<noteq> None"
        using I(4) [OF b'] I(5) [OF b'] I(6) [OF b'] by (simp_all add: d1_def)
      show "resting (cl_Timeout d1) (conns d1 b)" if "b \<notin> {a}" "b \<in> set (fdIdle d1)"
        using I(7) [OF b'] that Cons(2) [symmetric] by (simp add: d1_def)
      show "working (cl_Timeout d1) (conns d1 b)" if "b \<notin> {a}" "b \<notin> set (fdIdle d1)"
        using I(8) [OF b'] that Cons(2) [symmetric] by (simp add: d1_def)
    qed (use I(1,2,3,9) Cons(2) [symmetric] in \<open>auto simp: d1_def\<close>)
    obtain d2 where 2: "cl_closeConnWithError ok a [] False d1 = Some d2" "cl_inv {} d2" "conns d2 = conns d" "fdIdle d2 = rest"
      "table (fdConns d2) = (table (fdConns d))(cc_fd (conns d a) := None)" "cl_Timeout d2 = cl_Timeout d" "poolSize d2 = poolSize d"
      "called (cl_fx d2) = called (cl_fx d)"
      using cl_close_inv [OF 1, of ok "[]" False] a by (auto simp: d1_def resting_def bs_def)
    have w: "waiting d2 = waiting d"
    proof (intro equalityI subsetI)
      fix cb assume "cb \<in> waiting d2"
      then show "cb \<in> waiting d" by (auto simp: waiting_def 2(3,5) split: if_splits)
    next
      fix cb assume "cb \<in> waiting d"
      then obtain fd b where b: "table (fdConns d) fd = Some b" "callback (conns d b) = Some cb" by (auto simp: waiting_def)
      then have "fd \<noteq> cc_fd (conns d a)" using a(1,3) by (auto simp: resting_def)
      then show "cb \<in> waiting d2" using b by (intro waitingI [of _ fd b]) (simp_all add: 2(3,5))
    qed
    from Cons(1) [OF 2(4) [symmetric] 2(2)] obtain d' where d': "trim_idle ok rest d2 = Some d'" "cl_inv {} d'" "conns d' = conns d2"
      "waiting d' = waiting d2" "called (cl_fx d') = called (cl_fx d2)" "cl_Timeout d' = cl_Timeout d2" "poolSize d' = poolSize d2"
      and k: "\<And>b. b \<notin> set rest \<Longrightarrow> is_open d2 b \<Longrightarrow> is_open d' b"
      unfolding 2(4) by blast
    have "is_open d' b" if b: "b \<notin> set (fdIdle d)" "is_open d b" for b
    proof (rule k)
      show "b \<notin> set rest" using b(1) Cons(2) [symmetric] by simp
      have "b \<noteq> a" using b(1) Cons(2) [symmetric] by auto
      then have "cc_fd (conns d b) \<noteq> cc_fd (conns d a)" using b(2) a(1) by auto
      then show "is_open d2 b" using b(2) by (simp add: 2(3,5))
    qed
    moreover have "trim_idle ok (fdIdle d) d = Some d'" unfolding Cons(2) [symmetric] using True 2(1) d'(1) by (simp add: d1_def)
    ultimately show ?thesis using d' 2 w by simp
  qed
qed

lemma fill_inv:
  assumes "cl_inv {} d" and "fdIdle d = a # rest" and "answered ids d"
  shows "\<exists>d'. fillIdleConn ok a cb args (d\<lparr>fdIdle := rest\<rparr>) = Some d' \<and> cl_inv {} d' \<and> answered (insert cb ids) d' \<and>
    cc_out (conns d' a) = write_command args [] \<and> callback (conns d' a) = Some cb \<and> is_open d' a"
proof -
  note I = cl_invD [OF assms(1)]
  have a: "is_open d a" "a \<notin> set rest" "resting (cl_Timeout d) (conns d a)"
    using I(2,3) I(7) [of "cc_fd (conns d a)" a] assms(2) by auto
  define c where "c = (conns d a)\<lparr>callback := Some cb, cc_out := write_command args []\<rparr>"
  define c' where "c' = (if cl_Timeout d > 0 then c\<lparr>death := Running\<rparr> else c)"
  define d1 where "d1 = set_conn a c' (d\<lparr>fdIdle := rest\<rparr>)"
  have r: "(if cl_Timeout d > 0 then map_option fst (timer_Reset c) else Some c) = Some c'"
    using a(3) by (auto simp: c'_def timer_Reset_def c_def resting_def)
  have c': "cc_fd c' = cc_fd (conns d a)" "callback c' = Some cb" "death c' = (if cl_Timeout d > 0 then Running else NoTimer)" "cc_out c' = write_command args []"
    using a(3) by (simp_all add: c'_def c_def resting_def)
  have 1: "cl_inv {} d1"
  proof (rule cl_invI)
    fix fd b assume "table (fdConns d1) fd = Some b"
    then have b: "table (fdConns d) fd = Some b" by (simp add: d1_def)
    show "cc_fd (conns d1 b) = fd" "b < cl_free d1" "interest (cl_poll d1) fd \<noteq> None"
      using I(4) [OF b] I(5) [OF b] I(6) [OF b] c'(1) by (auto simp: d1_def)
    show "resting (cl_Timeout d1) (conns d1 b)" if "b \<in> set (fdIdle d1)"
      using I(7) [OF b] that assms(2) a(2) by (auto simp: d1_def)
    show "working (cl_Timeout d1) (conns d1 b)" if "b \<notin> set (fdIdle d1)"
      using I(8) [OF b] that assms(2) c' by (cases "b = a") (auto simp: d1_def working_def)
  qed (use I(1,2,3,9) assms(2) c'(1) in \<open>auto simp: d1_def\<close>)
  have w1: "insert cb (waiting d) \<subseteq> waiting d1"
  proof -
    have "cb \<in> waiting d1" using a(1) c'(1,2) by (intro waitingI [of d1 "cc_fd (conns d a)" a]) (simp_all add: d1_def)
    moreover have "cb' \<in> waiting d1" if h: "cb' \<in> waiting d" for cb'
    proof -
      obtain fd b where b: "table (fdConns d) fd = Some b" "callback (conns d b) = Some cb'" using h by (auto simp: waiting_def)
      then have "b \<noteq> a" using a(3) by (auto simp: resting_def)
      then show ?thesis using b by (intro waitingI [of _ fd b]) (simp_all add: d1_def)
    qed
    ultimately show ?thesis by blast
  qed
  obtain d2 where d2: "trim_idle ok (fdIdle d1) d1 = Some d2" "cl_inv {} d2" "conns d2 = conns d1" "waiting d2 = waiting d1"
     "called (cl_fx d2) = called (cl_fx d1)" "\<forall>b. b \<notin> set (fdIdle d1) \<longrightarrow> is_open d1 b \<longrightarrow> is_open d2 b"
    using trim_inv [OF 1, of ok] by blast
  have "is_open d1 a" "a \<notin> set (fdIdle d1)" using a(1,2) c'(1) by (simp_all add: d1_def)
  then have o2: "is_open d2 a" using d2(6) by blast
  define d3 where "d3 = (OnFdCount d2)\<lparr>cl_poll := Trigger (cc_fd c') (cl_poll (OnFdCount d2))\<rparr>"
  have "fillIdleConn ok a cb args (d\<lparr>fdIdle := rest\<rparr>) =
    (if cl_Timeout d > 0 then map_option fst (timer_Reset c) else Some c) \<bind> (\<lambda>c.
      trim_idle ok rest (set_conn a c (d\<lparr>fdIdle := rest\<rparr>)) \<bind> (\<lambda>d.
        Some ((OnFdCount d)\<lparr>cl_poll := Trigger (cc_fd c) (cl_poll (OnFdCount d))\<rparr>)))"
    using a(3) unfolding fillIdleConn_def c_def resting_def Let_def by simp
  also have "\<dots> = Some d3" unfolding r using d2(1) by (simp add: d1_def d3_def)
  finally have "fillIdleConn ok a cb args (d\<lparr>fdIdle := rest\<rparr>) = Some d3" .
  moreover have "cl_inv {} d3" unfolding d3_def
  proof (rule cl_inv_poll [OF cl_inv_count [OF d2(2)]])
    show "\<exists>fds. pending (Trigger (cc_fd c') (cl_poll (OnFdCount d2))) fds"
      using cl_invD(9) [OF d2(2)] pending_Trigger [of "cl_poll d2" _ "cc_fd c'"] by auto
  qed (simp add: Trigger_def)
  moreover have "waiting d3 = waiting d1" using d2(4) by (simp add: waiting_def d3_def)
  moreover have "cl_fx d3 = cl_fx d2" "cl_fx d1 = cl_fx d" "conns d3 = conns d2" "fdConns d3 = fdConns d2" by (simp_all add: d3_def d1_def)
  ultimately show ?thesis using w1 d2(3,5) o2 assms(3) c'(2,4) unfolding answered_def by (intro exI [of _ d3]) (auto simp: d1_def)
qed


lemma write_command_out: "write_command args out = out @ resp_command (map arg_text args)"
proof -
  have "write_arg a out = out @ resp_bulk (arg_text a)" for a out by (simp add: write_arg_def resp_bulk_def Let_def)
  then have "fold write_arg args out = out @ concat (map (resp_bulk \<circ> arg_text) args)" for out
    by (induction args arbitrary: out) simp_all
  then show ?thesis by (simp add: write_command_def resp_command_def Let_def o_def)
qed

lemma write_auth_out: "write_auth au out = out @ resp_command [bs ''AUTH'', au]"
  by (simp add: write_auth_def resp_command_def resp_bulk_def Let_def bs_def crlf_def format_int_def format_uint.simps digit_char_def)

lemma dialed_inv:
  assumes "cl_inv {} d" and "answered ids d" and "dialed fd cb args d = Some d'"
  shows "cl_inv {} d' \<and> answered (insert cb ids) d'"
proof -
  note I = cl_invD [OF assms(1)]
  define a where "a = cl_free d"
  define c where "c = (let c = new_cconn fd (Some cb);
      c = (if auth d \<noteq> [] then c\<lparr>authState := 1, cc_out := write_auth (auth d) (cc_out c)\<rparr> else c);
      c = c\<lparr>cc_out := write_command args (cc_out c)\<rparr>
    in if cl_Timeout d > 0 then c\<lparr>death := Running\<rparr> else c)"
  have c: "cc_fd c = fd" "callback c = Some cb" "death c = (if cl_Timeout d > 0 then Running else NoTimer)"
    by (simp_all add: c_def Let_def new_cconn_def)
  obtain m where m: "fd_Add fd a (fdConns d) = Some m"
    and p: "cl_on_poll (AddReadWrite fd) (OnFdCount (set_conn a c (d\<lparr>cl_free := Suc a, fdConns := m\<rparr>))) = Some d'"
    using assms(3) unfolding dialed_def Let_def a_def c_def by (cases "fd_Add fd (cl_free d) (fdConns d)") auto
  have t: "table (fdConns d) fd = None" "0 \<le> fd" using fd_Add_table(1) [of fd a "fdConns d"] m by (auto simp: not_less)
  from fm.add_law [OF I(1) t(2,1), of a] m have m': "fd_ok m" "table m = (table (fdConns d))(fd \<mapsto> a)" by auto
  have d': "d' = (OnFdCount (set_conn a c (d\<lparr>cl_free := Suc a, fdConns := m\<rparr>)))\<lparr>cl_poll := (cl_poll d)\<lparr>interest := (interest (cl_poll d))(fd \<mapsto> True)\<rparr>\<rparr>"
    using p by (auto simp: cl_on_poll_def AddReadWrite_def epoll_add_def split: bind_splits if_splits)
  have f: "fdConns d' = m" "fdIdle d' = fdIdle d" "conns d' = (conns d)(a := c)" "cl_Timeout d' = cl_Timeout d" "cl_free d' = Suc a"
    "cl_fx d' = cl_fx d" "cl_poll d' = (cl_poll d)\<lparr>interest := (interest (cl_poll d))(fd \<mapsto> True)\<rparr>" unfolding d' by simp_all
  have ne: "b \<noteq> a" if "table (fdConns d) fd' = Some b" for b fd' using I(5) [OF that] by (simp add: a_def)
  have ni: "a \<notin> set (fdIdle d)" using ne I(3) by blast
  have "cl_inv {} d'"
  proof (rule cl_invI)
    fix fd' b assume "table (fdConns d') fd' = Some b"
    then consider "fd' = fd" "b = a" | "table (fdConns d) fd' = Some b" "fd' \<noteq> fd" "b \<noteq> a"
      using ne [of fd' b] unfolding f m'(2) by (cases "fd' = fd") auto
    then have "cc_fd (conns d' b) = fd' \<and> b < cl_free d' \<and> interest (cl_poll d') fd' \<noteq> None \<and>
      (if b \<in> set (fdIdle d') then resting (cl_Timeout d') (conns d' b) else working (cl_Timeout d') (conns d' b))"
    proof cases
      case 1
      then show ?thesis unfolding f using c ni by (simp add: working_def)
    next
      case 2
      then show ?thesis unfolding f using I(4) [OF 2(1)] I(5) [OF 2(1)] I(6) [OF 2(1)] I(7) [OF 2(1)] I(8) [OF 2(1)] by (simp add: a_def)
    qed
    then show "cc_fd (conns d' b) = fd'" "b < cl_free d'" "interest (cl_poll d') fd' \<noteq> None"
      "b \<in> set (fdIdle d') \<Longrightarrow> resting (cl_Timeout d') (conns d' b)" "b \<notin> set (fdIdle d') \<Longrightarrow> working (cl_Timeout d') (conns d' b)"
      by (simp_all split: if_splits)
  next
    fix b assume "b \<in> set (fdIdle d')"
    then have "is_open d b" "b \<noteq> a" using I(3) ni unfolding f by auto
    then show "is_open d' b" unfolding f m'(2) using t(1) by auto
  qed (use I(2,9) m'(1) in \<open>simp_all add: f\<close>)
  moreover have "waiting d \<subseteq> waiting d'"
  proof
    fix cb' assume "cb' \<in> waiting d"
    then obtain fd' b where b: "table (fdConns d) fd' = Some b" "callback (conns d b) = Some cb'" by (auto simp: waiting_def)
    then show "cb' \<in> waiting d'" using ne [OF b(1)] t(1) by (intro waitingI [of _ fd' b]) (auto simp: f m'(2))
  qed
  moreover have "cb \<in> waiting d'" using c by (intro waitingI [of _ fd a]) (simp_all add: f m'(2))
  ultimately show ?thesis using assms(2) by (auto simp: answered_def f)
qed

lemma Exec_inv:
  assumes "cl_inv {} d" and "answered ids d" and "Exec ok dr cb args d = Some (Done d')"
  shows "cl_inv {} d' \<and> answered (insert cb ids) d'"
proof (cases "fdIdle d")
  case (Cons a rest)
  then show ?thesis using fill_inv [OF assms(1) Cons assms(2), of ok cb args] assms(3) by (auto simp: Exec_def activateFreeConn_def)
next
  case Nil
  have df: "cl_inv {} (dial_failed x t cb d) \<and> answered (insert cb ids) (dial_failed x t cb d)" for x t
    using assms(1,2) by (cases x) (auto simp: dial_failed_def Let_def answered_def waiting_def intro!: cl_inv_emit)
  show ?thesis
  proof (cases dr)
    case (Dialed fd)
    then have "dialed fd cb args d = Some d'" using assms(3) Nil by (auto simp: Exec_def activateFreeConn_def split: if_splits)
    then show ?thesis by (rule dialed_inv [OF assms(1,2)])
  qed (use assms(3) Nil df in \<open>auto simp: Exec_def activateFreeConn_def split: if_splits\<close>)
qed

section \<open>Events\<close>

text \<open>A change of one connection that keeps its callback keeps what is answered.\<close>

lemma answered_set:
  assumes "answered ids d" and "callback c = callback (conns d a)"
  shows "answered ids (set_conn a c d)"
proof -
  have "waiting (set_conn a c d) = waiting d" using assms(2) by (auto simp: waiting_def split: if_splits)
  then show ?thesis using assms(1) by (simp add: answered_def)
qed

lemma answered_cong:
  "answered ids d \<Longrightarrow> fdConns d' = fdConns d \<Longrightarrow> conns d' = conns d \<Longrightarrow> called (cl_fx d) \<subseteq> called (cl_fx d') \<Longrightarrow> answered ids d'"
  by (auto simp: answered_def waiting_def)

lemma mod_good:
  assumes "cl_inv X d" and "is_open d a" and "answered ids d" and "fd = cc_fd (conns d a)" and "b = ModRead \<or> b = ModReadWrite"
  shows "\<exists>d'. cl_on_poll (b fd) d = Some d' \<and> cl_inv X d' \<and> answered ids d'"
proof -
  have "interest (cl_poll d) fd \<noteq> None" using cl_invD(6) [OF assms(1,2)] assms(4) by simp
  from cl_inv_mod [OF assms(1) this] assms(5) obtain d' where d': "cl_on_poll (b fd) d = Some d'" "cl_inv X d'" "conns d' = conns d"
    "fdConns d' = fdConns d" "cl_fx d' = cl_fx d" by auto
  moreover have "answered ids d'" by (rule answered_cong [OF assms(3)]) (use d' in simp_all)
  ultimately show ?thesis by blast
qed

lemma sent_good:
  assumes "cl_inv X d" and "is_open d a" and "answered ids d"
  shows "cl_inv X (cl_sent n c d)" and "is_open (cl_sent n c d) a" and "answered ids (cl_sent n c d)"
    "conns (cl_sent n c d) = conns d" "fdIdle (cl_sent n c d) = fdIdle d" "cl_Timeout (cl_sent n c d) = cl_Timeout d" "fdConns (cl_sent n c d) = fdConns d"
  using assms by (auto simp: cl_sent_def intro: cl_inv_emit elim!: answered_cong)

text \<open>A connection that works keeps working when only its buffers change.\<close>

lemma buffers_good:
  assumes "cl_inv {} d" and "is_open d a" and "a \<notin> set (fdIdle d)" and "answered ids d" and "c = (conns d a)\<lparr>cc_in := x, cc_out := y, authState := z\<rparr>"
  shows "cl_inv {} (set_conn a c d)" and "is_open (set_conn a c d) a" and "answered ids (set_conn a c d)"
proof -
  have "cl_inv (insert a {}) (set_conn a c d)" using assms(1) by (rule cl_inv_set) (simp add: assms(5))
  then show "cl_inv {} (set_conn a c d)"
    by (rule cl_inv_done) (use cl_invD(8) [OF assms(1,2)] assms(3,5) in \<open>auto simp: working_def\<close>)
  show "is_open (set_conn a c d) a" using assms(2) by (simp add: assms(5))
  show "answered ids (set_conn a c d)" using assms(4) by (rule answered_set) (simp add: assms(5))
qed

lemma out_tail_cases:
  assumes "cl_out_tail n c = Some c'" shows "\<exists>y. c' = c\<lparr>cc_in := cc_in c, cc_out := y, authState := authState c\<rparr>"
  using assms by (auto simp: cl_out_tail_def split: bind_splits)

text \<open>The kernel never takes more bytes than it was given.\<close>

definition write_ok :: "write_result \<Rightarrow> bytes \<Rightarrow> bool" where
  "write_ok wr out \<longleftrightarrow> (case wr of Wrote n \<Rightarrow> n \<le> length out | WriteErr n e \<Rightarrow> n \<le> int (length out))"

lemma writeConn_good:
  assumes "cl_inv {} d" and "is_open d a" and "a \<notin> set (fdIdle d)" and "answered ids d" and "write_ok wr (cc_out (conns d a))"
  shows "\<exists>d'. cl_writeConn ok a wr d = Some d' \<and> cl_inv {} d' \<and> answered ids d'"
proof -
  define c where "c = conns d a"
  have c: "c = conns d a" by (fact c_def)
  have mod: "\<exists>d'. cl_on_poll (b (cc_fd c)) (set_conn a (c\<lparr>cc_in := cc_in c, cc_out := y, authState := authState c\<rparr>) (cl_sent n c d)) = Some d' \<and> cl_inv {} d' \<and> answered ids d'"
    if "b = ModRead \<or> b = ModReadWrite" for b y n
  proof -
    note s = sent_good [OF assms(1,2,4), of n c]
    have "a \<notin> set (fdIdle (cl_sent n c d))" using assms(3) s(5) by simp
    note g = buffers_good [OF s(1,2) this s(3) refl, where x = "cc_in c" and y = y and z = "authState c", unfolded s(4) c [symmetric]]
    show ?thesis by (rule mod_good [OF g _ that]) (simp add: s(4))
  qed
  have ot: "\<exists>y. cl_out_tail n c = Some (c\<lparr>cc_in := cc_in c, cc_out := y, authState := authState c\<rparr>)" if "0 \<le> n" "n \<le> int (length (cc_out c))" for n
    using that by (intro exI [of _ "drop (nat n) (cc_out c)"]) (simp add: cl_out_tail_def gslice_def)
  have cls: "\<exists>d'. cl_closeConnWithError ok a ty True d = Some d' \<and> cl_inv {} d' \<and> answered ids d'" if "ty \<noteq> bs ''free''" for ty
    using close_answered [OF cl_inv_mono [OF assms(1)] assms(2,3,4), of "{}"] that by blast
  show ?thesis
  proof (cases "cc_out c = []")
    case True
    then show ?thesis using mod_good [OF assms(1,2,4), of "cc_fd c" ModRead] unfolding cl_writeConn_def c_def [symmetric] Let_def by (simp add: c_def)
  next
    case F: False
    show ?thesis
    proof (cases wr)
      case (WriteErr n e)
      show ?thesis
      proof (cases "e = EAGAIN")
        case True
        have "\<exists>y. (if n > 0 then cl_out_tail n c else Some c) = Some (c\<lparr>cc_in := cc_in c, cc_out := y, authState := authState c\<rparr>)"
          using ot [of n] assms(5) WriteErr by (auto simp: write_ok_def c_def intro: exI [of _ "cc_out (conns d a)"])
        then obtain y where "(if n > 0 then cl_out_tail n c else Some c) = Some (c\<lparr>cc_in := cc_in c, cc_out := y, authState := authState c\<rparr>)" by blast
        then show ?thesis using mod [of ModReadWrite y n] F WriteErr True unfolding cl_writeConn_def c_def [symmetric] Let_def by simp
      next
        case False
        then show ?thesis using cls [of "bs ''write''"] F WriteErr unfolding cl_writeConn_def c_def [symmetric] Let_def by (simp add: bs_def)
      qed
    next
      case (Wrote n)
      show ?thesis
      proof (cases "n = length (cc_out c)")
        case True
        then show ?thesis using mod [of ModRead "[]" "int n"] F Wrote unfolding cl_writeConn_def c_def [symmetric] Let_def by simp
      next
        case False
        then obtain y where "cl_out_tail (int n) c = Some (c\<lparr>cc_in := cc_in c, cc_out := y, authState := authState c\<rparr>)"
          using ot [of "int n"] assms(5) Wrote by (auto simp: write_ok_def c_def)
        then show ?thesis using mod [of ModReadWrite y "int n"] F Wrote False unfolding cl_writeConn_def c_def [symmetric] Let_def by simp
      qed
    qed
  qed
qed

lemma take_reply_Some:
  assumes "take_reply cb n c = Some (c', fs)"
  shows "\<exists>x z. c' = c\<lparr>cc_in := x, authState := z\<rparr> \<and> (z = 0 \<longrightarrow> cb \<in> called fs) \<and> called fs \<subseteq> {cb}"
proof (cases "authState c = 1")
  case True
  then obtain x where "c' = c\<lparr>authState := 2, cc_in := x\<rparr>" "fs = []"
    using assms by (auto simp: take_reply_def split: bind_splits)
  then show ?thesis by (intro exI [of _ x] exI [of _ "2 :: nat"]) simp
next
  case False
  then obtain x r e where "c' = c\<lparr>authState := 0, cc_in := x\<rparr>" "fs = [CReply cb r e]"
    using assms by (auto simp: take_reply_def split: bind_splits)
  then show ?thesis by (intro exI [of _ x] exI [of _ "0 :: nat"]) simp
qed

lemma reply_loop_Some:
  assumes "reply_loop cb c = Some (c', fs, e)"
  shows "\<exists>x z. c' = c\<lparr>cc_in := x, authState := z\<rparr>" and "called fs \<subseteq> {cb}"
    and "cc_in c \<noteq> [] \<Longrightarrow> cc_in c' = [] \<Longrightarrow> authState c' = 0 \<Longrightarrow> cb \<in> called fs"
proof -
  have "(\<exists>x z. c' = c\<lparr>cc_in := x, authState := z\<rparr>) \<and> called fs \<subseteq> {cb} \<and>
    (cc_in c \<noteq> [] \<longrightarrow> cc_in c' = [] \<longrightarrow> authState c' = 0 \<longrightarrow> cb \<in> called fs)"
    using assms
  proof (induction cb c arbitrary: c' fs e rule: reply_loop.induct)
    case (1 cb c)
    have self: "\<exists>x z. c = c\<lparr>cc_in := x, authState := z\<rparr>" by (intro exI [of _ "cc_in c"] exI [of _ "authState c"]) simp
    show ?case
    proof (cases "cc_in c = []")
      case True
      then show ?thesis using 1(2) self by (simp add: reply_loop.simps [of cb c])
    next
      case ne: False
      show ?thesis
      proof (cases "\<exists>n. readElement (cc_in c) = Some (Inr n)")
        case False
        then have "c' = c" "fs = []" using 1(2) ne by (auto simp: reply_loop.simps [of cb c] split: option.splits sum.splits)
        then show ?thesis using ne self by simp
      next
        case True
        then obtain n where n: "readElement (cc_in c) = Some (Inr n)" by blast
        then obtain c1 f1 g where t: "take_reply cb n c = Some (c1, f1)" and l: "reply_loop cb c1 = Some (c', g, e)" and fs: "fs = f1 @ g"
          using 1(2) ne by (auto simp: reply_loop.simps [of cb c] split: option.splits)
        from take_reply_Some [OF t] obtain x z where c1: "c1 = c\<lparr>cc_in := x, authState := z\<rparr>" "z = 0 \<longrightarrow> cb \<in> called f1" "called f1 \<subseteq> {cb}" by blast
        note ih = 1(1) [OF ne n refl t refl l]
        obtain x' z' where "c' = c1\<lparr>cc_in := x', authState := z'\<rparr>" using ih by (elim conjE exE)
        note c' = this ih [THEN conjunct2, THEN conjunct1] ih [THEN conjunct2, THEN conjunct2]
        have "\<exists>x z. c' = c\<lparr>cc_in := x, authState := z\<rparr>" unfolding c'(1) c1(1) by (intro exI [of _ x'] exI [of _ z']) simp
        moreover have "cb \<in> called fs" if "cc_in c' = []" "authState c' = 0"
        proof (cases "cc_in c1 = []")
          case True
          then have "c' = c1" using l by (simp add: reply_loop.simps [of cb c1])
          then show ?thesis using c1(1,2) that(2) fs by simp
        next
          case False
          then show ?thesis using c'(3) that fs by simp
        qed
        ultimately show ?thesis using c1(3) c'(2) fs by auto
      qed
    qed
  qed
  then show "\<exists>x z. c' = c\<lparr>cc_in := x, authState := z\<rparr>" and "called fs \<subseteq> {cb}"
    and "cc_in c \<noteq> [] \<Longrightarrow> cc_in c' = [] \<Longrightarrow> authState c' = 0 \<Longrightarrow> cb \<in> called fs" by blast+
qed


lemma idle_room:
  assumes "cl_inv X d" and "is_open d a" and "a \<notin> set (fdIdle d)"
  shows "int (length (fdIdle d)) < fd_Len (fdConns d)"
proof -
  note I = cl_invD [OF assms(1)]
  have o: "is_open d b" if "b \<in> set (a # fdIdle d)" for b using that I(3) assms(2) by auto
  have "inj_on (\<lambda>b. cc_fd (conns d b)) (set (a # fdIdle d))" using o by (intro inj_onI) (metis option.inject)
  then have "card ((\<lambda>b. cc_fd (conns d b)) ` set (a # fdIdle d)) = length (a # fdIdle d)"
    using assms(3) I(2) by (subst card_image) (simp_all add: distinct_card)
  moreover have "(\<lambda>b. cc_fd (conns d b)) ` set (a # fdIdle d) \<subseteq> dom (table (fdConns d))" using o by blast
  then have "card ((\<lambda>b. cc_fd (conns d b)) ` set (a # fdIdle d)) \<le> card (dom (table (fdConns d)))" by (rule card_mono [OF fm.finite_entries])
  ultimately show ?thesis using fm.len_law [OF I(1)] by simp
qed

lemma park_good:
  assumes "cl_inv {} d" and "is_open d a" and "a \<notin> set (fdIdle d)" and "answered ids d"
    and "cc_in (conns d a) = []" and "cc_out (conns d a) = []" and "authState (conns d a) = 0"
    and "set_option (callback (conns d a)) \<subseteq> called (cl_fx d)"
  shows "\<exists>d'. park ok a d = Some d' \<and> cl_inv {} d' \<and> answered ids d'"
proof (cases "fd_Len (fdConns d) \<le> poolSize d")
  case False
  then show ?thesis
    using close_answered [OF cl_inv_mono [OF assms(1)] assms(2,3,4), of "{}" "bs ''free''" ok False] assms(8)
    unfolding park_def Let_def by simp
next
  case True
  note I = cl_invD [OF assms(1)]
  have w: "working (cl_Timeout d) (conns d a)" using I(8) [OF assms(2)] assms(3) by simp
  define c where "c = (conns d a)\<lparr>callback := None, death := if cl_Timeout d > 0 then Stopped else NoTimer\<rparr>"
  have st: "(if death ((conns d a)\<lparr>callback := None\<rparr>) \<noteq> NoTimer then timer_Stop ((conns d a)\<lparr>callback := None\<rparr>)
      else ((conns d a)\<lparr>callback := None\<rparr>, True)) = (c, True)"
    using w by (cases "conns d a") (auto simp: working_def timer_Stop_def c_def)
  have room: "int (length (fdIdle d)) < poolSize d" using idle_room [OF assms(1-3)] True by simp
  define d' where "d' = (set_conn a c d)\<lparr>fdIdle := fdIdle d @ [a]\<rparr>"
  have p: "park ok a d = Some d'" unfolding park_def Let_def st using True room by (simp add: d'_def)
  have c: "cc_fd c = cc_fd (conns d a)" "resting (cl_Timeout d) c" using assms(5-7) by (simp_all add: c_def resting_def)
  have f: "fdConns d' = fdConns d" "fdIdle d' = fdIdle d @ [a]" "conns d' = (conns d)(a := c)" "cl_Timeout d' = cl_Timeout d"
    "cl_free d' = cl_free d" "cl_poll d' = cl_poll d" "cl_fx d' = cl_fx d" by (simp_all add: d'_def)
  have "cl_inv {} d'"
  proof (rule cl_invI)
    fix fd b assume "table (fdConns d') fd = Some b"
    then have b: "table (fdConns d) fd = Some b" by (simp add: f)
    show "cc_fd (conns d' b) = fd" "b < cl_free d'" "interest (cl_poll d') fd \<noteq> None"
      using I(4) [OF b] I(5) [OF b] I(6) [OF b] c(1) by (auto simp: f)
    show "resting (cl_Timeout d') (conns d' b)" if "b \<in> set (fdIdle d')" using I(7) [OF b] that c(2) by (cases "b = a") (auto simp: f)
    show "working (cl_Timeout d') (conns d' b)" if "b \<notin> set (fdIdle d')" using I(8) [OF b] that by (auto simp: f)
  next
    fix b assume "b \<in> set (fdIdle d')"
    then show "is_open d' b" using I(3) assms(2) c(1) by (cases "b = a") (auto simp: f)
  qed (use I(1,2,9) assms(3) in \<open>simp_all add: f\<close>)
  moreover have "waiting d \<subseteq> waiting d' \<union> called (cl_fx d')"
  proof
    fix cb assume "cb \<in> waiting d"
    then obtain fd b where b: "table (fdConns d) fd = Some b" "callback (conns d b) = Some cb" by (auto simp: waiting_def)
    show "cb \<in> waiting d' \<union> called (cl_fx d')"
    proof (cases "b = a")
      case True
      then show ?thesis using b(2) assms(8) by (auto simp: f)
    next
      case False
      then have "cb \<in> waiting d'" using b by (intro waitingI [of _ fd b]) (simp_all add: f)
      then show ?thesis ..
    qed
  qed
  ultimately show ?thesis using p assms(4) f(7) by (auto simp: answered_def)
qed

text \<open>
  What is asked of the server on an open connection: while the connection rests it is
  neither closed nor made writable, and a reply comes after the whole command was sent.
\<close>

definition courteous :: "cconn \<Rightarrow> bool \<Rightarrow> read_result \<Rightarrow> bool" where
  "courteous c writable rd \<longleftrightarrow>
     (if callback c = None then \<not> writable \<and> (rd = ReadErr EAGAIN \<or> (\<exists>x. rd = ReadN x \<and> x \<noteq> []))
      else writable \<or> (\<forall>x. rd = ReadN x \<longrightarrow> cc_out c = []))"

text \<open>What \<open>readConn\<close> needs of the input; the bytes of well-formed replies have it (\<open>reply_loop_total\<close>).\<close>

definition readable :: "cconn \<Rightarrow> read_result \<Rightarrow> bool" where
  "readable c rd \<longleftrightarrow> (case rd of ReadErr e \<Rightarrow> True
     | ReadN x \<Rightarrow> reply_loop (the (callback c)) (c\<lparr>cc_in := cc_in c @ x\<rparr>) \<noteq> None)"

lemma callback_idle:
  assumes "cl_inv {} d" and "table (fdConns d) fd = Some a"
  shows "callback (conns d a) = None \<longleftrightarrow> a \<in> set (fdIdle d)" and "is_open d a"
  using cl_invD(4) [OF assms] cl_invD(7) [OF assms] cl_invD(8) [OF assms] assms(2)
  by (cases "a \<in> set (fdIdle d)"; simp add: resting_def working_def)+

lemma readConn_good:
  assumes "cl_inv {} d" and "is_open d a" and "answered ids d" and "courteous (conns d a) False rd" and "readable (conns d a) rd"
  shows "\<exists>d'. cl_readConn lim ok a rd d = Some d' \<and> cl_inv {} d' \<and> answered ids d'"
proof (cases rd)
  case (ReadErr e)
  show ?thesis
  proof (cases "e = EAGAIN")
    case True
    then show ?thesis using mod_good [OF assms(1,2,3), of "cc_fd (conns d a)" ModRead] ReadErr by (simp add: cl_readConn_def Let_def)
  next
    case False
    then have "a \<notin> set (fdIdle d)" using assms(4) callback_idle [OF assms(1,2)] ReadErr by (auto simp: courteous_def split: if_splits)
    from close_answered [OF cl_inv_mono [OF assms(1)] assms(2) this assms(3), of "{}" "bs ''read''" ok True] ReadErr False
    show ?thesis by (simp add: cl_readConn_def Let_def bs_def)
  qed
next
  case (ReadN x)
  show ?thesis
  proof (cases "callback (conns d a)")
    case None
    then have "x \<noteq> []" using assms(4) ReadN by (auto simp: courteous_def)
    then have "cl_readConn lim ok a rd d = Some (cl_emit (CError (bs ''warning'')) d)" using None ReadN by (simp add: cl_readConn_def Let_def)
    moreover have "answered ids (cl_emit (CError (bs ''warning'')) d)" using assms(3) by (rule answered_cong) auto
    ultimately show ?thesis using cl_inv_emit [OF assms(1)] by blast
  next
    case (Some cb)
    then have ni: "a \<notin> set (fdIdle d)" and out: "cc_out (conns d a) = []"
      using callback_idle(1) [OF assms(1,2)] assms(4) ReadN by (auto simp: courteous_def)
    have cls: "\<exists>d'. cl_closeConnWithError ok a ty b d2 = Some d' \<and> cl_inv {} d' \<and> answered ids d'"
      if "cl_inv {} d2" "is_open d2 a" "answered ids d2" "fdIdle d2 = fdIdle d" "ty \<noteq> bs ''free''" for ty b d2
      using close_answered [OF cl_inv_mono [OF that(1)] that(2) _ that(3), of "{}" ty ok b] that(4,5) ni by simp
    show ?thesis
    proof (cases "x = []")
      case True
      then show ?thesis using cls [OF assms(1,2,3) refl, of "[]" False] ReadN by (simp add: cl_readConn_def Let_def bs_def)
    next
      case ne: False
      define c1 where "c1 = (conns d a)\<lparr>cc_in := cc_in (conns d a) @ x, cc_out := [], authState := authState (conns d a)\<rparr>"
      have c1: "c1 = (conns d a)\<lparr>cc_in := cc_in (conns d a) @ x\<rparr>" using out by (cases "conns d a") (simp add: c1_def)
      note g1 = buffers_good [OF assms(1,2) ni assms(3) c1_def]
      show ?thesis
      proof (cases "int (length (cc_in c1)) > lim")
        case True
        then show ?thesis using cls [OF g1, of "bs ''oversize''" True] ReadN ne Some unfolding c1
          by (simp add: cl_readConn_def Let_def bs_def)
      next
        case False
        obtain c2 fs e where r: "reply_loop cb c1 = Some (c2, fs, e)"
          using assms(5) ReadN Some unfolding readable_def c1 by (cases "reply_loop cb c1") (auto simp: c1)
        obtain y z where c2: "c2 = c1\<lparr>cc_in := y, authState := z\<rparr>" using reply_loop_Some(1) [OF r] by blast
        define d2 where "d2 = (set_conn a c2 (set_conn a c1 d))\<lparr>cl_fx := cl_fx d @ fs\<rparr>"
        have d2: "d2 = (set_conn a c2 d)\<lparr>cl_fx := cl_fx (set_conn a c2 d) @ fs\<rparr>" by (simp add: d2_def set_conn_def)
        have c2': "c2 = (conns d a)\<lparr>cc_in := y, cc_out := [], authState := z\<rparr>" by (simp add: c2 c1_def)
        note g2 = buffers_good [OF assms(1,2) ni assms(3) c2']
        have g3: "cl_inv {} d2" "is_open d2 a" "answered ids d2" "fdIdle d2 = fdIdle d"
          using cl_inv_fx [OF g2(1)] g2(2) answered_cong [OF g2(3), of d2] unfolding d2 by simp_all
        have eq: "cl_readConn lim ok a rd d =
          (if e \<noteq> None then cl_closeConnWithError ok a (bs ''read'') True d2 else if cc_in c2 = [] \<and> authState c2 = 0 then park ok a d2 else Some d2)"
          using ReadN ne Some False r unfolding cl_readConn_def Let_def c1 [symmetric] d2_def by (simp add: c1)
        consider "e \<noteq> None" | "e = None" "cc_in c2 = [] \<and> authState c2 = 0" | "e = None" "\<not> (cc_in c2 = [] \<and> authState c2 = 0)" by blast
        then show ?thesis
        proof cases
          case 1
          then show ?thesis unfolding eq using cls [OF g3, of "bs ''read''" True] by (simp add: bs_def)
        next
          case 2
          have ne1: "cc_in c1 \<noteq> []" using ne by (simp add: c1)
          have "cb \<in> called fs" using reply_loop_Some(3) [OF r ne1] 2(2) by simp
          then show ?thesis unfolding eq using 2 park_good [OF g3(1,2) _ g3(3), of ok] g3(4) ni Some
            by (simp add: d2_def c2')
        next
          case 3
          then show ?thesis unfolding eq using g3 by auto
        qed
      qed
    qed
  qed
qed

end
