(* ===== verification/Redis_Exec.thy ===== *)
theory Redis_Exec
  imports Redis_Pool
begin

text \<open>
  Whole runs of the pooled client (redis/client.go): reading replies, its states under a server that keeps to
  the protocol, what \<open>Exec\<close> sends and what its callback receives, and what happens under a
  server that closes or answers at the wrong time.
\<close>

section \<open>Replies\<close>

lemma reader_err_enc:
  assumes "resp_wf v"
  shows "reader_err (resp_enc v) = Some (case v of RErr s \<Rightarrow> (Some s, []) | _ \<Rightarrow> (None, resp_enc v))"
proof -
  have n: "Next (resp_enc v) = Some (any_of v, [])" using Next_enc [OF assms, of "[]"] by simp
  then obtain ty i s d where r: "readNext (resp_enc v) = Some ((ty, i, s, d), [])"
    "any_of v = (if ty = CHR ''s'' then AString (btos_opt s) else if ty = CHR ''i'' then AInt64 i
       else if ty = CHR ''e'' then AError (btos_opt s) else if ty = CHR ''n'' then ANil else AReader d)"
    by (auto simp: Next_def split: bind_splits)
  then show ?thesis by (cases v) (auto simp: reader_err_def split: if_splits)
qed

lemma partial_reply:
  assumes "resp_wf v" and "p @ q = resp_enc v" and "q \<noteq> []"
  shows "readElement p = Some (Inl RWaitMore)"
proof (rule ccontr)
  assume n: "readElement p \<noteq> Some (Inl RWaitMore)"
  from readElement_append(1) [OF n, of q] readElement_enc [OF assms(1), of "[]"] assms(2)
  have "readElement p = Some (Inr (length (resp_enc v)))" by simp
  from readElement_bound(1) [OF this] assms(2,3) show False by (metis append_Nil2 length_append length_greater_0_conv less_add_same_cancel1 not_le)
qed

text \<open>The call of the callback for the reply \<open>v\<close>: an error reply is passed as the error.\<close>

definition reply_of :: "nat \<Rightarrow> resp \<Rightarrow> ceffect" where
  "reply_of cb v = (case v of RErr s \<Rightarrow> CReply cb [] (Some s) | _ \<Rightarrow> CReply cb (resp_enc v) None)"

lemma take_reply_enc:
  assumes "resp_wf v" and "cc_in c = resp_enc v @ rest"
  shows "take_reply cb (length (resp_enc v)) c =
    (if authState c = 1 then Some (c\<lparr>authState := 2, cc_in := rest\<rparr>, []) else Some (c\<lparr>authState := 0, cc_in := rest\<rparr>, [reply_of cb v]))"
proof -
  obtain e r where "reader_err (resp_enc v) = Some (e, r)" "reply_of cb v = CReply cb r e"
    using reader_err_enc [OF assms(1)] by (cases v) (simp_all add: reply_of_def)
  moreover have "gslice (cc_in c) 0 (int (length (resp_enc v))) = Some (resp_enc v)"
    "gslice (cc_in c) (int (length (resp_enc v))) (int (length (cc_in c))) = Some rest"
    using assms(2) by (simp_all add: gslice_def)
  ultimately show ?thesis by (simp add: take_reply_def del: gslice_nat)
qed

lemma reply_loop_step:
  assumes "resp_wf v" and "cc_in c = resp_enc v @ rest" and "take_reply cb (length (resp_enc v)) c = Some (c1, fs)"
  shows "reply_loop cb c = map_option (\<lambda>(c, gs, e). (c, fs @ gs, e)) (reply_loop cb c1)"
  using readElement_enc [OF assms(1), of rest] assms(2,3) by (simp add: reply_loop.simps [of cb c])

text \<open>Bytes of well-formed replies, the last of which may be incomplete, are read without a panic.\<close>

lemma reply_loop_total:
  "list_all resp_wf vs \<Longrightarrow> prefix (cc_in c) (concat (map resp_enc vs)) \<Longrightarrow> reply_loop cb c \<noteq> None"
proof (induction vs arbitrary: c)
  case Nil
  then show ?case by (simp add: reply_loop.simps [of cb c])
next
  case (Cons v vs)
  then have wf: "resp_wf v" by simp
  show ?case
  proof (cases "prefix (resp_enc v) (cc_in c)")
    case True
    then obtain y where y: "cc_in c = resp_enc v @ y" by (auto simp: prefix_def)
    then have "prefix y (concat (map resp_enc vs))" using Cons.prems(2) by simp
    then have "reply_loop cb (c\<lparr>authState := n, cc_in := y\<rparr>) \<noteq> None" for n using Cons.IH [of "c\<lparr>authState := n, cc_in := y\<rparr>"] Cons.prems(1) by simp
    moreover obtain n fs where "take_reply cb (length (resp_enc v)) c = Some (c\<lparr>authState := n, cc_in := y\<rparr>, fs)"
      using take_reply_enc [OF wf y, of cb] by (cases "authState c = 1") auto
    ultimately show ?thesis using reply_loop_step [OF wf y, of cb] by simp
  next
    case False
    then have "strict_prefix (cc_in c) (resp_enc v)"
      using Cons.prems(2) by (metis concat.simps(2) list.simps(9) prefixI prefix_same_cases strict_prefix_def)
    then obtain q where "cc_in c @ q = resp_enc v" "q \<noteq> []" by (auto simp: strict_prefix_def prefix_def)
    from partial_reply [OF wf this] show ?thesis by (simp add: reply_loop.simps [of cb c])
  qed
qed

lemma reply_loop_one:
  assumes "resp_wf v" and "cc_in c @ q = resp_enc v" and "authState c \<noteq> 1"
  shows "reply_loop cb c = (if q = [] then Some (c\<lparr>authState := 0, cc_in := []\<rparr>, [reply_of cb v], None) else Some (c, [], None))"
proof (cases "q = []")
  case True
  then have c: "cc_in c = resp_enc v @ []" using assms(2) by simp
  show ?thesis using reply_loop_step [OF assms(1) c] take_reply_enc [OF assms(1) c] assms(3) True
    by (simp add: reply_loop.simps [of cb "c\<lparr>authState := 0, cc_in := []\<rparr>"])
next
  case False
  then show ?thesis using partial_reply [OF assms(1,2) False] by (simp add: reply_loop.simps [of cb c])
qed

lemma reply_loop_auth:
  assumes "resp_wf u" and "resp_wf v" and "cc_in c @ q = resp_enc u @ resp_enc v" and "authState c = 1"
  shows "\<exists>c1. reply_loop cb c = (if q = [] then Some (c\<lparr>authState := 0, cc_in := []\<rparr>, [reply_of cb v], None) else Some (c1, [], None)) \<and>
     (\<exists>x z. c1 = c\<lparr>cc_in := x, authState := z\<rparr> \<and> (x = [] \<longrightarrow> z \<noteq> 0) \<and> length x \<le> length (cc_in c) \<and>
       (z = 1 \<and> x @ q = resp_enc u @ resp_enc v \<or> z \<noteq> 1 \<and> x @ q = resp_enc v))"
proof (cases "length (cc_in c) < length (resp_enc u)")
  case True
  obtain r where r: "cc_in c @ r = resp_enc u" "r \<noteq> []" "q = r @ resp_enc v"
  proof
    show "cc_in c @ drop (length (cc_in c)) (resp_enc u) = resp_enc u" using assms(3) True
      by (metis append_eq_append_conv_if append_take_drop_id less_imp_le)
    show "drop (length (cc_in c)) (resp_enc u) \<noteq> []" using True by simp
    show "q = drop (length (cc_in c)) (resp_enc u) @ resp_enc v" using arg_cong [OF assms(3), of "drop (length (cc_in c))"] True by simp
  qed
  have "reply_loop cb c = Some (c, [], None)" using partial_reply [OF assms(1) r(1,2)] by (simp add: reply_loop.simps [of cb c])
  moreover have "q \<noteq> []" using r(3) by simp
  ultimately show ?thesis using assms(3,4)
    by (intro exI [of _ c] conjI) (simp, intro exI [of _ "cc_in c"] exI [of _ "1 :: nat"], simp)
next
  case False
  then have "take (length (resp_enc u)) (cc_in c) = resp_enc u"
    using arg_cong [OF assms(3), of "take (length (resp_enc u))"] by simp
  then obtain y where y1: "cc_in c = resp_enc u @ y" by (metis append_take_drop_id)
  then have y: "cc_in c = resp_enc u @ y" "y @ q = resp_enc v" using assms(3) by simp_all
  define c2 where "c2 = c\<lparr>authState := 2, cc_in := y\<rparr>"
  have l: "reply_loop cb c = reply_loop cb c2"
    using reply_loop_step [OF assms(1) y(1)] take_reply_enc [OF assms(1) y(1)] assms(4)
    by (cases "reply_loop cb c2") (auto simp: c2_def)
  have "cc_in c2 @ q = resp_enc v" using y(2) by (simp add: c2_def)
  from reply_loop_one [OF assms(2) this, of cb]
  have "reply_loop cb c = (if q = [] then Some (c\<lparr>authState := 0, cc_in := []\<rparr>, [reply_of cb v], None) else Some (c2, [], None))"
    unfolding l by (simp add: c2_def)
  then show ?thesis using y(2) by (intro exI [of _ c2] conjI) (simp, intro exI [of _ y] exI [of _ "2 :: nat"], simp add: c2_def y(1))
qed


text \<open>A connection after its reply has arrived.\<close>

definition parked :: "cconn \<Rightarrow> cconn" where
  "parked c = c\<lparr>cc_in := [], authState := 0, callback := None, death := if death c = Running then Stopped else death c\<rparr>"

definition replied :: "nat \<Rightarrow> ceffect \<Rightarrow> client \<Rightarrow> client" where
  "replied a e d = (set_conn a (parked (conns d a)) d)\<lparr>fdIdle := fdIdle d @ [a], cl_fx := cl_fx d @ [e]\<rparr>"

lemma reads_reply:
  assumes "resp_wf u" and "resp_wf v" and "callback (conns d a) = Some cb"
    and "authState (conns d a) = 1 \<and> cc_in (conns d a) @ concat segs = resp_enc u @ resp_enc v \<or>
      authState (conns d a) \<noteq> 1 \<and> cc_in (conns d a) @ concat segs = resp_enc v"
    and "segs \<noteq> []" and "[] \<notin> set segs" and "int (length (cc_in (conns d a) @ concat segs)) \<le> lim"
    and "fd_Len (fdConns d) \<le> poolSize d" and "int (length (fdIdle d)) < poolSize d" and "death (conns d a) \<in> {NoTimer, Running}"
  shows "fold (\<lambda>s d. d \<bind> cl_readConn lim ok a (ReadN s)) segs (Some d) = Some (replied a (reply_of cb v) d)"
  using assms(3-)
proof (induction segs arbitrary: d)
  case (Cons s rest)
  define c where "c = (conns d a)\<lparr>cc_in := cc_in (conns d a) @ s\<rparr>"
  have s: "s \<noteq> []" using Cons.prems(4) by auto
  have q: "concat rest = [] \<longleftrightarrow> rest = []" using Cons.prems(4) by (cases rest) auto
  have cs: "authState c = 1 \<and> cc_in c @ concat rest = resp_enc u @ resp_enc v \<or> authState c \<noteq> 1 \<and> cc_in c @ concat rest = resp_enc v"
    using Cons.prems(2) by (simp add: c_def)
  have lim: "\<not> int (length (cc_in c)) > lim" using Cons.prems(5) by (simp add: c_def)
  have rd: "cl_readConn lim ok a (ReadN s) d = reply_loop cb c \<bind> (\<lambda>(c', fs, e).
      let d = (set_conn a c' d)\<lparr>cl_fx := cl_fx d @ fs\<rparr> in
      if e \<noteq> None then cl_closeConnWithError ok a (bs ''read'') True d
      else if cc_in c' = [] \<and> authState c' = 0 then park ok a d else Some d)"
    using s Cons.prems(1) lim unfolding cl_readConn_def Let_def c_def by (simp add: set_conn_def cong: if_cong)
  have loop: "\<exists>c1. reply_loop cb c = (if concat rest = [] then Some (c\<lparr>authState := 0, cc_in := []\<rparr>, [reply_of cb v], None) else Some (c1, [], None)) \<and>
     (\<exists>x z. c1 = c\<lparr>cc_in := x, authState := z\<rparr> \<and> (x = [] \<longrightarrow> z \<noteq> 0) \<and> length x \<le> length (cc_in c) \<and>
       (z = 1 \<and> x @ concat rest = resp_enc u @ resp_enc v \<or> z \<noteq> 1 \<and> x @ concat rest = resp_enc v))"
  proof (cases "authState c = 1")
    case True
    then have "cc_in c @ concat rest = resp_enc u @ resp_enc v" using cs by simp
    from reply_loop_auth [OF assms(1,2) this True, of cb] show ?thesis .
  next
    case False
    then have e: "cc_in c @ concat rest = resp_enc v" using cs by simp
    have "c = c\<lparr>cc_in := cc_in c, authState := authState c\<rparr>" by simp
    then show ?thesis using reply_loop_one [OF assms(2) e False, of cb] e False s
      by (intro exI [of _ c] conjI) (simp, intro exI [of _ "cc_in c"] exI [of _ "authState c"], simp add: c_def)
  qed
  show ?case
  proof (cases "rest = []")
    case True
    then have r: "reply_loop cb c = Some (c\<lparr>authState := 0, cc_in := []\<rparr>, [reply_of cb v], None)" using loop unfolding q by simp
    define d1 where "d1 = (set_conn a (c\<lparr>authState := 0, cc_in := []\<rparr>) d)\<lparr>cl_fx := cl_fx d @ [reply_of cb v]\<rparr>"
    have "park ok a d1 = Some (replied a (reply_of cb v) d)"
      using Cons.prems(6,7,8) unfolding park_def Let_def replied_def parked_def
      by (auto simp: d1_def timer_Stop_def c_def set_conn_def fun_eq_iff intro!: client.equality cconn.equality)
    then show ?thesis using True unfolding fold_simps rd r by (simp add: d1_def rd r)
  next
    case False
    then obtain c1 x z where r: "reply_loop cb c = Some (c1, [], None)" and c1: "c1 = c\<lparr>cc_in := x, authState := z\<rparr>" "x = [] \<longrightarrow> z \<noteq> 0" "length x \<le> length (cc_in c)"
       "z = 1 \<and> x @ concat rest = resp_enc u @ resp_enc v \<or> z \<noteq> 1 \<and> x @ concat rest = resp_enc v"
      using loop unfolding q by (simp only: if_False) blast
    define d1 where "d1 = set_conn a c1 d"
    have "cl_readConn lim ok a (ReadN s) d = Some d1" unfolding rd r using c1(1,2) by (auto simp: d1_def set_conn_def)
    moreover have "fold (\<lambda>s d. d \<bind> cl_readConn lim ok a (ReadN s)) rest (Some d1) = Some (replied a (reply_of cb v) d1)"
    proof (rule Cons.IH)
      show "int (length (cc_in (conns d1 a) @ concat rest)) \<le> lim" using Cons.prems(5) c1(3) by (simp add: d1_def c1(1) c_def)
    qed (use Cons.prems False c1 in \<open>auto simp: d1_def c_def\<close>)
    moreover have "replied a (reply_of cb v) d1 = replied a (reply_of cb v) d"
      by (auto simp: replied_def d1_def parked_def c1(1) c_def set_conn_def fun_eq_iff intro!: client.equality cconn.equality)
    ultimately show ?thesis by simp
  qed
qed simp

section \<open>Events of the pool\<close>

text \<open>
  A server is polite when it keeps to the protocol: on a connection come only the bytes of well-formed replies, a reply
  comes after the whole command was sent, and a connection is not closed while it rests (\<open>courteous\<close>). It may close a
  connection that works. Of the kernel it is asked that it takes no more bytes than it was given.
\<close>

definition well_spoken :: "cconn \<Rightarrow> read_result \<Rightarrow> bool" where
  "well_spoken c rd \<longleftrightarrow> (case rd of ReadErr e \<Rightarrow> True
     | ReadN x \<Rightarrow> \<exists>vs. list_all resp_wf vs \<and> prefix (cc_in c @ x) (concat (map resp_enc vs)))"

definition polite :: "client \<Rightarrow> int \<Rightarrow> u32 \<Rightarrow> write_result \<Rightarrow> read_result \<Rightarrow> bool" where
  "polite d fd ev wr rd \<longleftrightarrow> (case table (fdConns d) fd of None \<Rightarrow> True
     | Some a \<Rightarrow> courteous (conns d a) (ev AND WRITE > 0) rd \<and> write_ok wr (cc_out (conns d a)) \<and>
         (ev AND WRITE > 0 \<or> well_spoken (conns d a) rd))"

lemma well_spoken_readable: "well_spoken c rd \<Longrightarrow> readable c rd"
  using reply_loop_total [where cb = "the (callback c)"] by (fastforce simp: well_spoken_def readable_def split: read_result.splits)

lemma cl_event_good:
  assumes "cl_inv {} d" and "answered ids d" and "0 \<le> fd" and "polite d fd ev wr rd"
  shows "\<exists>d'. cl_event lim ok fd ev wr rd d = Some d' \<and> cl_inv {} d' \<and> answered ids d'"
proof (cases "table (fdConns d) fd")
  case None
  have "answered ids (cl_emit (CError (bs ''warning'')) d)" using assms(2) by (rule answered_cong) auto
  then show ?thesis using None fm.get_law [OF assms(3), of "fdConns d"] cl_inv_emit [OF assms(1)] by (simp add: cl_event_def)
next
  case (Some a)
  note ci = callback_idle [OF assms(1) Some]
  have p: "courteous (conns d a) (ev AND WRITE > 0) rd" "write_ok wr (cc_out (conns d a))" "ev AND WRITE > 0 \<or> readable (conns d a) rd"
    using assms(4) Some well_spoken_readable by (auto simp: polite_def)
  have self: "set_conn a (conns d a) d = d" by (simp add: set_conn_def)
  have t: "(if callback (conns d a) \<noteq> None \<and> cl_Timeout d > 0
       then map_option (\<lambda>(c, was). (set_conn a c d, was)) (timer_Reset (conns d a)) else Some (d, True)) = Some (d, True)"
  proof (cases "callback (conns d a) \<noteq> None \<and> cl_Timeout d > 0")
    case True
    then have r: "death (conns d a) = Running" using cl_invD(8) [OF assms(1) Some] ci(1) by (simp add: working_def)
    then have "(conns d a)\<lparr>death := Running\<rparr> = conns d a" by (cases "conns d a") simp
    then have "timer_Reset (conns d a) = Some (conns d a, True)" using r by (simp only: timer_Reset_def) simp
    then show ?thesis using True by (simp add: self)
  next
    case False
    then show ?thesis by (simp only: if_False)
  qed
  have e: "cl_event lim ok fd ev wr rd d = (if ev AND WRITE > 0 then
       if callback (conns d a) = None then cl_closeConnWithError ok a (bs ''write'') True d else cl_writeConn ok a wr d
     else cl_readConn lim ok a rd d)"
    unfolding cl_event_def fm.get_law [OF assms(3)] Some using t by simp
  show ?thesis
  proof (cases "ev AND WRITE > 0")
    case True
    then have "callback (conns d a) \<noteq> None" using p(1) by (auto simp: courteous_def split: if_splits)
    then have "cl_event lim ok fd ev wr rd d = cl_writeConn ok a wr d" "a \<notin> set (fdIdle d)" using True ci(1) unfolding e by auto
    then show ?thesis using writeConn_good [OF assms(1) ci(2) _ assms(2) p(2), of ok] by simp
  next
    case False
    then show ?thesis using readConn_good [OF assms(1) ci(2) assms(2), of rd lim ok] p unfolding e by simp
  qed
qed

lemma timer_good:
  assumes "cl_inv {} d" and "answered ids d" and "is_open d a"
  shows "\<exists>d'. timer_fires ok a d = Some d' \<and> cl_inv {} d' \<and> answered ids d'"
proof (cases "death (conns d a) = Running")
  case True
  define d1 where "d1 = set_conn a ((conns d a)\<lparr>death := Fired\<rparr>) d"
  have 1: "cl_inv (insert a {}) d1" unfolding d1_def by (rule cl_inv_set [OF assms(1)]) simp
  have "a \<notin> set (fdIdle d)" using cl_invD(7) [OF assms(1,3)] True by (auto simp: resting_def split: if_splits)
  moreover have "is_open d1 a" using assms(3) by (simp add: d1_def)
  moreover have "answered ids d1" unfolding d1_def using assms(2) by (rule answered_set) simp
  ultimately show ?thesis using close_answered [OF 1, of ids "bs ''timeout''" ok True] True
    by (simp add: timer_fires_def d1_def bs_def)
qed (use assms in \<open>simp add: timer_fires_def\<close>)

text \<open>
  The steps of a client whose server is polite, with the callbacks issued so far. \<open>Exec\<close> is called from any goroutine;
  because its look at the number of connections and its dialing are not one step, a new connection can appear at
  any time. A timer that runs can fire at any time, whether its connection is open or not.
\<close>

inductive client_step :: "int \<Rightarrow> (int \<Rightarrow> bool) \<Rightarrow> nat set \<times> client \<Rightarrow> nat set \<times> client \<Rightarrow> bool" for lim ok where
  step_exec: "Exec ok dr cb args d = Some (Done d') \<Longrightarrow> client_step lim ok (ids, d) (insert cb ids, d')"
| step_dial: "dialed fd cb args d = Some d' \<Longrightarrow> client_step lim ok (ids, d) (insert cb ids, d')"
| step_turn: "Wait_nil evs (cl_poll d) = Some (calls, p, True) \<Longrightarrow> client_step lim ok (ids, d) (ids, d\<lparr>cl_poll := p\<rparr>)"
| step_event: "0 \<le> fd \<Longrightarrow> polite d fd ev wr rd \<Longrightarrow> cl_event lim ok fd ev wr rd d = Some d' \<Longrightarrow> client_step lim ok (ids, d) (ids, d')"
| step_timer: "timer_fires ok a d = Some d' \<Longrightarrow> client_step lim ok (ids, d) (ids, d')"

text \<open>
  Closing a connection does not stop its timer, which panics or closes another connection when it fires later
  (\<open>timer_after_close_panics\<close>). The runs below are those in which no connection is closed while its timer runs, unless by that timer. A
  client without a timeout, which is the default, has no timers, and all of its runs are among them.
\<close>

definition timely :: "client \<Rightarrow> bool" where
  "timely d \<longleftrightarrow> (\<forall>a. death (conns d a) = Running \<longrightarrow> is_open d a)"

inductive pooled :: "int \<Rightarrow> (int \<Rightarrow> bool) \<Rightarrow> nat set \<Rightarrow> client \<Rightarrow> bool" for lim ok where
  pooled_new: "NewClient n au timeout ep w = Some d \<Longrightarrow> pooled lim ok {} d"
| pooled_step: "pooled lim ok ids d \<Longrightarrow> client_step lim ok (ids, d) (ids', d') \<Longrightarrow> cl_Timeout d' \<le> 0 \<or> timely d' \<Longrightarrow> pooled lim ok ids' d'"

lemma step_good:
  assumes "client_step lim ok (ids, d) (ids', d')" and "cl_inv {} d" and "answered ids d" and "timely d"
  shows "cl_inv {} d' \<and> answered ids' d'"
  using assms(1)
proof cases
  case (step_exec dr cb args)
  then show ?thesis using Exec_inv [OF assms(2,3)] by simp
next
  case (step_dial fd cb args)
  then show ?thesis using dialed_inv [OF assms(2,3)] by simp
next
  case (step_turn evs calls p)
  note k = Wait_turn_kept [OF step_turn(3) cl_invD(9) [OF assms(2)]]
  have "\<exists>fds. pending p fds" using k(1) by blast
  from cl_inv_poll [OF assms(2) _ this] k(2) have "cl_inv {} d'" unfolding step_turn by simp
  moreover have "answered ids' d'" unfolding step_turn by (rule answered_cong [of ids d]) (use assms(3) in simp_all)
  ultimately show ?thesis by simp
next
  case (step_event fd ev wr rd)
  then show ?thesis using cl_event_good [OF assms(2,3) step_event(2,3), of lim ok] by auto
next
  case (step_timer a)
  show ?thesis
  proof (cases "death (conns d a) = Running")
    case True
    then have "is_open d a" using assms(4) by (simp add: timely_def)
    from timer_good [OF assms(2,3) this, of ok] show ?thesis using step_timer by auto
  next
    case False
    then show ?thesis using assms(2,3) step_timer by (simp add: timer_fires_def)
  qed
qed

subsection \<open>Clients without a timeout\<close>

text \<open>No step changes the timeout, and without one no connection has a timer.\<close>

definition clocked :: "int \<Rightarrow> client \<Rightarrow> bool" where
  "clocked t d \<longleftrightarrow> cl_Timeout d = t \<and> (t \<le> 0 \<longrightarrow> (\<forall>a. death (conns d a) = NoTimer))"

lemma clocked_simps [simp]:
  "clocked t (cl_emit e d) \<longleftrightarrow> clocked t d" "clocked t (OnFdCount d) \<longleftrightarrow> clocked t d" "clocked t (cl_sys_close b fd d) \<longleftrightarrow> clocked t d"
  "clocked t (d\<lparr>fdConns := m\<rparr>) \<longleftrightarrow> clocked t d" "clocked t (d\<lparr>cl_poll := p\<rparr>) \<longleftrightarrow> clocked t d" "clocked t (d\<lparr>fdIdle := xs\<rparr>) \<longleftrightarrow> clocked t d"
  "clocked t (d\<lparr>cl_fx := fs\<rparr>) \<longleftrightarrow> clocked t d" "clocked t (d\<lparr>cl_free := n\<rparr>) \<longleftrightarrow> clocked t d"
  by (simp_all add: clocked_def)

lemma clocked_set: "clocked t d \<Longrightarrow> t \<le> 0 \<longrightarrow> death c = NoTimer \<Longrightarrow> clocked t (set_conn a c d)"
  by (simp add: clocked_def)

lemma clockedD: "clocked t d \<Longrightarrow> cl_Timeout d = t" "clocked t d \<Longrightarrow> t \<le> 0 \<longrightarrow> death (conns d a) = NoTimer"
  by (simp_all add: clocked_def)

lemma clocked_close: "cl_closeConnWithError ok a ty f d = Some d' \<Longrightarrow> clocked t d \<Longrightarrow> clocked t d'"
  by (auto simp: cl_closeConnWithError_def Let_def split: bind_splits option.splits if_splits)

lemma clocked_poll: "cl_on_poll f d = Some d' \<Longrightarrow> clocked t d \<Longrightarrow> clocked t d'"
  by (auto simp: cl_on_poll_def split: bind_splits)

lemma clocked_trim: "trim_idle ok xs d = Some d' \<Longrightarrow> clocked t d \<Longrightarrow> clocked t d'"
  by (induction ok xs d rule: trim_idle.induct) (auto split: bind_splits if_splits dest: clocked_close)

lemma clocked_dialed:
  assumes "dialed fd cb args d = Some d'" and "clocked t d"
  shows "clocked t d'"
proof -
  define c where "c = (let c = new_cconn fd (Some cb);
      c = (if auth d \<noteq> [] then c\<lparr>authState := 1, cc_out := write_auth (auth d) (cc_out c)\<rparr> else c);
      c = c\<lparr>cc_out := write_command args (cc_out c)\<rparr>
    in if cl_Timeout d > 0 then c\<lparr>death := Running\<rparr> else c)"
  have "t \<le> 0 \<longrightarrow> death c = NoTimer" using clockedD(1) [OF assms(2)] by (simp add: c_def Let_def new_cconn_def)
  from clocked_set [OF _ this, of _ "cl_free d"] assms show ?thesis
    by (auto simp: dialed_def c_def [unfolded Let_def] Let_def split: bind_splits dest!: clocked_poll)
qed

lemma clocked_fill:
  assumes "fillIdleConn ok a cb args d = Some d'" and "clocked t d"
  shows "clocked t d'"
proof -
  define c where "c = (conns d a)\<lparr>callback := Some cb, cc_out := write_command args []\<rparr>"
  obtain c' where c': "(if cl_Timeout d > 0 then map_option fst (timer_Reset c) else Some c) = Some c'"
    and d: "trim_idle ok (fdIdle d) (set_conn a c' d) \<bind> (\<lambda>d. Some ((OnFdCount d)\<lparr>cl_poll := Trigger (cc_fd c') (cl_poll (OnFdCount d))\<rparr>)) = Some d'"
    using assms(1) by (auto simp: fillIdleConn_def Let_def c_def split: bind_splits if_splits)
  have "t \<le> 0 \<longrightarrow> death c' = NoTimer" using c' clockedD [OF assms(2)] by (auto simp: c_def split: if_splits)
  from clocked_set [OF assms(2) this, of a] d show ?thesis by (auto split: bind_splits dest: clocked_trim)
qed

lemma clocked_Exec:
  assumes "Exec ok dr cb args d = Some (Done d')" and "clocked t d"
  shows "clocked t d'"
proof -
  have "clocked t (dial_failed x e cb d)" for x e using assms(2) by (cases x) (simp_all add: dial_failed_def)
  then show ?thesis using assms clocked_dialed [of _ cb args d d' t] clocked_fill [of ok _ cb args _ d' t]
    by (auto simp: Exec_def activateFreeConn_def split: list.splits if_splits dial_result.splits)
qed

lemma clocked_write:
  assumes "cl_writeConn ok a wr d = Some d'" and "clocked t d"
  shows "clocked t d'"
  using assms clockedD(2) [OF assms(2)]
  by (auto simp: cl_writeConn_def Let_def cl_sent_def cl_out_tail_def split: if_splits write_result.splits bind_splits
    intro!: clocked_set dest!: clocked_close clocked_poll)

lemma clocked_park:
  assumes "park ok a d = Some d'" and "clocked t d"
  shows "clocked t d'"
  using assms clockedD(2) [OF assms(2), of a]
  by (auto simp: park_def Let_def timer_Stop_def split: if_splits intro!: clocked_set dest: clocked_close)

lemma clocked_read:
  assumes "cl_readConn lim ok a rd d = Some d'" and "clocked t d"
  shows "clocked t d'"
proof (cases "\<exists>data cb. rd = ReadN data \<and> data \<noteq> [] \<and> callback (conns d a) = Some cb")
  case False
  then show ?thesis using assms
    by (auto simp: cl_readConn_def Let_def split: read_result.splits if_splits option.splits dest: clocked_close clocked_poll)
next
  case True
  then obtain data cb where rd: "rd = ReadN data" "data \<noteq> []" "callback (conns d a) = Some cb" by blast
  define c where "c = (conns d a)\<lparr>cc_in := cc_in (conns d a) @ data\<rparr>"
  have c: "clocked t (set_conn a c d)" using assms(2) clockedD(2) [OF assms(2), of a] by (intro clocked_set) (simp_all add: c_def)
  have "clocked t ((set_conn a c' (set_conn a c d))\<lparr>cl_fx := fs\<rparr>)" if "reply_loop cb c = Some (c', gs, e)" for c' gs e fs
    using reply_loop_Some(1) [OF that] c clockedD(2) [OF assms(2), of a] by (auto simp: c_def intro!: clocked_set)
  then show ?thesis using assms(1) c rd
    by (auto simp: cl_readConn_def Let_def c_def [symmetric] split: if_splits bind_splits dest!: clocked_close clocked_park)
qed

lemma clocked_event:
  assumes "cl_event lim ok fd ev wr rd d = Some d'" and "clocked t d"
  shows "clocked t d'"
proof (cases "fd_Get fd (fdConns d)")
  case (Some found)
  show ?thesis
  proof (cases found)
    case None
    then show ?thesis using assms Some by (auto simp: cl_event_def)
  next
    case (Some a)
    obtain e alive where e: "(if callback (conns d a) \<noteq> None \<and> cl_Timeout d > 0
        then map_option (\<lambda>(c, was). (set_conn a c d, was)) (timer_Reset (conns d a)) else Some (d, True)) = Some (e, alive)"
      and r: "(if \<not> alive then Some e else if ev AND WRITE > 0 then if callback (conns e a) = None then cl_closeConnWithError ok a (bs ''write'') True e else cl_writeConn ok a wr e
         else cl_readConn lim ok a rd e) = Some d'"
      using assms(1) Some \<open>fd_Get fd (fdConns d) = Some found\<close> by (auto simp: cl_event_def split: bind_splits)
    have "clocked t e" using e assms(2) clockedD(1) [OF assms(2)] by (auto split: if_splits intro!: clocked_set)
    then show ?thesis using r by (auto split: if_splits dest: clocked_close clocked_write clocked_read)
  qed
qed (use assms in \<open>simp add: cl_event_def\<close>)

lemma clocked_timer:
  assumes "timer_fires ok a d = Some d'" and "clocked t d"
  shows "clocked t d'"
  using assms clockedD(2) [OF assms(2), of a] by (auto simp: timer_fires_def split: if_splits dest!: clocked_close intro: clocked_set)

lemma clocked_step:
  assumes "client_step lim ok (ids, d) (ids', d')" and "clocked t d"
  shows "clocked t d'"
  using assms(1) by cases (use assms(2) clocked_Exec clocked_dialed clocked_event clocked_timer in auto)

lemma pooled_good: "pooled lim ok ids d \<Longrightarrow> cl_inv {} d \<and> answered ids d \<and> timely d"
proof -
  assume "pooled lim ok ids d"
  then have "cl_inv {} d \<and> answered ids d \<and> timely d \<and> (\<exists>t. clocked t d)"
  proof (induction rule: pooled.induct)
    case (pooled_new n au timeout ep w d)
    then obtain p where p: "OpenPoll ep w = Some p" and d: "d = \<lparr>cl_poll = p, auth = au, fdConns = new_fd_map, fdIdle = [], poolSize = n, cl_Timeout = timeout,
         counts = (0, 0), conns = (\<lambda>_. new_cconn 0 None), cl_free = 0, cl_fx = []\<rparr>"
      by (auto simp: NewClient_def split: bind_splits)
    have "cl_inv {} d" by (rule cl_invI) (use pending_open [OF p] in \<open>auto simp: d\<close>)
    then show ?case by (simp add: answered_def timely_def clocked_def d new_cconn_def)
  next
    case (pooled_step ids d ids' d')
    then obtain t where t: "clocked t d'" using clocked_step by blast
    have "timely d'" using pooled_step.hyps(3) t by (auto simp: timely_def clocked_def)
    then show ?case using step_good [OF pooled_step.hyps(2)] pooled_step.IH t by blast
  qed
  then show ?thesis by simp
qed

text \<open>Every run of a client without a timeout is one of these runs.\<close>

lemma pooled_untimed:
  assumes "NewClient n au timeout ep w = Some d0" and "timeout \<le> 0" and "(client_step lim ok)\<^sup>*\<^sup>* ({}, d0) (ids, d)"
  shows "pooled lim ok ids d"
proof -
  have "clocked timeout d0" using assms(1) by (auto simp: NewClient_def clocked_def new_cconn_def split: bind_splits)
  moreover have "(client_step lim ok)\<^sup>*\<^sup>* x y \<Longrightarrow> pooled lim ok (fst x) (snd x) \<Longrightarrow> clocked timeout (snd x) \<Longrightarrow> pooled lim ok (fst y) (snd y) \<and> clocked timeout (snd y)" for x y
  proof (induction rule: rtranclp_induct)
    case (step y z)
    then have "clocked timeout (snd z)" using clocked_step [of lim ok "fst y" "snd y" "fst z" "snd z" timeout] by simp
    moreover have "cl_Timeout (snd z) \<le> 0" using clockedD(1) [OF calculation] assms(2) by simp
    ultimately show ?case using step pooled_step [of lim ok "fst y" "snd y" "fst z" "snd z"] by simp
  qed simp
  ultimately show ?thesis using pooled_new [OF assms(1), of lim ok] assms(3) by fastforce
qed

section \<open>Properties\<close>

text \<open>A client, one of its connections with a command to send, and with the command sent.\<close>

definition sample_client :: "int \<Rightarrow> client" where
  "sample_client timeout = the (NewClient 1 [] timeout (Some 3) (Some 4))"

definition sample_active :: "int \<Rightarrow> client" where
  "sample_active timeout = (case Exec (\<lambda>_. True) (Dialed 7) 0 [ArgString (bs ''PING'')] (sample_client timeout) of Some (Done d) \<Rightarrow> d)"

lemma sample_client_new: "NewClient 1 [] timeout (Some 3) (Some 4) = Some (sample_client timeout)"
  by (simp add: sample_client_def NewClient_def OpenPoll_def AddRead_def epoll_add_def)

lemma sample_client_simps [simp]:
  "fdIdle (sample_client timeout) = []" "fdConns (sample_client timeout) = new_fd_map" "poolSize (sample_client timeout) = 1"
  "cl_Timeout (sample_client timeout) = timeout" "cl_free (sample_client timeout) = 0" "auth (sample_client timeout) = []"
  "interest (cl_poll (sample_client timeout)) fd = (if fd = 4 then Some False else None)" "cl_fx (sample_client timeout) = []"
  by (simp_all add: sample_client_def NewClient_def OpenPoll_def AddRead_def epoll_add_def)

lemma sample_client_good: "cl_inv {} (sample_client timeout)" "answered {} (sample_client timeout)"
  using pooled_good [OF pooled_new [OF sample_client_new]] by simp_all

lemma sample_active_exec:
  "Exec (\<lambda>_. True) (Dialed 7) 0 [ArgString (bs ''PING'')] (sample_client timeout) = Some (Done (sample_active timeout))"
  "fdConns (sample_active timeout) = \<lparr>fds = replicate 7 None @ [Some 0], fd_count = 1\<rparr>"
  "conns (sample_active timeout) 0 = \<lparr>cc_fd = 7, callback = Some 0, cc_in = [], cc_out = resp_command [bs ''PING''],
     death = (if timeout > 0 then Running else NoTimer), authState = 0\<rparr>"
  "fdIdle (sample_active timeout) = []" "poolSize (sample_active timeout) = 1" "cl_Timeout (sample_active timeout) = timeout"
  "cl_fx (sample_active timeout) = []" "a \<noteq> 0 \<Longrightarrow> conns (sample_active timeout) a = new_cconn 0 None"
proof -
  have n: "conns (sample_client timeout) = (\<lambda>_. new_cconn 0 None)" by (simp add: sample_client_def NewClient_def OpenPoll_def AddRead_def epoll_add_def)
  have a: "fd_Add 7 0 new_fd_map = Some \<lparr>fds = replicate 7 None @ [Some (0 :: nat)], fd_count = 1\<rparr>" by code_simp
  then have "\<exists>d. Exec (\<lambda>_. True) (Dialed 7) 0 [ArgString (bs ''PING'')] (sample_client timeout) = Some (Done d) \<and>
    fdConns d = \<lparr>fds = replicate 7 None @ [Some 0], fd_count = 1\<rparr> \<and>
    conns d 0 = \<lparr>cc_fd = 7, callback = Some 0, cc_in = [], cc_out = resp_command [bs ''PING''],
     death = (if timeout > 0 then Running else NoTimer), authState = 0\<rparr> \<and> fdIdle d = [] \<and> poolSize d = 1 \<and> cl_Timeout d = timeout \<and> cl_fx d = [] \<and> (\<forall>a. a \<noteq> 0 \<longrightarrow> conns d a = new_cconn 0 None)"
    by (simp add: n Exec_def activateFreeConn_def dialed_def Let_def new_cconn_def cl_on_poll_def AddReadWrite_def epoll_add_def write_command_out)
  then show
    "Exec (\<lambda>_. True) (Dialed 7) 0 [ArgString (bs ''PING'')] (sample_client timeout) = Some (Done (sample_active timeout))"
    "fdConns (sample_active timeout) = \<lparr>fds = replicate 7 None @ [Some 0], fd_count = 1\<rparr>"
    "conns (sample_active timeout) 0 = \<lparr>cc_fd = 7, callback = Some 0, cc_in = [], cc_out = resp_command [bs ''PING''],
       death = (if timeout > 0 then Running else NoTimer), authState = 0\<rparr>"
    "fdIdle (sample_active timeout) = []" "poolSize (sample_active timeout) = 1" "cl_Timeout (sample_active timeout) = timeout"
    "cl_fx (sample_active timeout) = []" "a \<noteq> 0 \<Longrightarrow> conns (sample_active timeout) a = new_cconn 0 None"
    unfolding sample_active_def by auto
qed

lemma sample_active_pooled: "pooled lim (\<lambda>_. True) {0} (sample_active timeout)"
proof (rule pooled_step [OF pooled_new [OF sample_client_new]])
  show "client_step lim (\<lambda>_. True) ({}, sample_client timeout) ({0}, sample_active timeout)" using step_exec [OF sample_active_exec(1)] by simp
  have "death (conns (sample_active timeout) a) = Running \<Longrightarrow> a = 0" for a using sample_active_exec(8) [of a timeout] by (cases "a = 0") (simp_all add: new_cconn_def)
  then show "cl_Timeout (sample_active timeout) \<le> 0 \<or> timely (sample_active timeout)"
    unfolding timely_def by (force simp: sample_active_exec(2,3) table_def nth_append)
qed

lemma sample_active_good: "cl_inv {} (sample_active timeout)" "is_open (sample_active timeout) 0"
  using pooled_good [OF sample_active_pooled] by (simp_all add: sample_active_exec table_def nth_append)

lemma PING_bytes: "resp_command [bs ''PING''] = bs ''*1'' @ crlf @ bs ''$4'' @ crlf @ bs ''PING'' @ crlf"
  by code_simp

definition sample_written :: client where
  "sample_written = the (cl_writeConn (\<lambda>_. True) 0 (Wrote 14) (sample_active 0))"

lemma sample_written_good:
  "cl_inv {} sample_written" "is_open sample_written 0" "answered {0} sample_written"
  "conns sample_written 0 = \<lparr>cc_fd = 7, callback = Some 0, cc_in = [], cc_out = [], death = NoTimer, authState = 0\<rparr>"
  "fdConns sample_written = \<lparr>fds = replicate 7 None @ [Some 0], fd_count = 1\<rparr>" "fdIdle sample_written = []" "poolSize sample_written = 1"
  "called (cl_fx sample_written) = {}"
proof -
  have l: "write_ok (Wrote 14) (cc_out (conns (sample_active 0) 0))" by (simp add: write_ok_def sample_active_exec PING_bytes)
  have a: "answered {0} (sample_active 0)" using pooled_good [OF sample_active_pooled] by simp
  from writeConn_good [OF sample_active_good _ a l, of "\<lambda>_. True"] obtain d where
    d: "cl_writeConn (\<lambda>_. True) 0 (Wrote 14) (sample_active 0) = Some d" "cl_inv {} d" "answered {0} d" by (auto simp: sample_active_exec)
  have f: "conns d 0 = (conns (sample_active 0) 0)\<lparr>cc_out := []\<rparr>" "fdConns d = fdConns (sample_active 0)" "fdIdle d = []" "poolSize d = 1"
    "called (cl_fx d) = {}"
    using d(1) by (auto simp: cl_writeConn_def Let_def sample_active_exec PING_bytes cl_on_poll_def cl_sent_def split: bind_splits)
  have "sample_written = d" by (simp add: sample_written_def d(1))
  then show "cl_inv {} sample_written" "is_open sample_written 0" "answered {0} sample_written"
    "conns sample_written 0 = \<lparr>cc_fd = 7, callback = Some 0, cc_in = [], cc_out = [], death = NoTimer, authState = 0\<rparr>"
    "fdConns sample_written = \<lparr>fds = replicate 7 None @ [Some 0], fd_count = 1\<rparr>" "fdIdle sample_written = []" "poolSize sample_written = 1"
    "called (cl_fx sample_written) = {}"
    using d(2,3) f by (simp_all add: sample_active_exec table_def nth_append)
qed






text \<open>
  C29: a command that is not made to wait is written to an open connection that works for its
  callback, in the encoding of the protocol; on a new connection the password comes first.
  It waits only when all connections the pool may have are busy.
\<close>

theorem Exec_sends:
  assumes "cl_inv {} d" and "0 \<le> fd" and "interest (cl_poll d) fd = None"
  shows "\<exists>r. Exec ok (Dialed fd) cb args d = Some r \<and>
    (case r of Blocks \<Rightarrow> fdIdle d = [] \<and> fd_Len (fdConns d) \<ge> poolSize d
     | Done d' \<Rightarrow> \<exists>a. is_open d' a \<and> callback (conns d' a) = Some cb \<and>
         cc_out (conns d' a) = (if a = cl_free d \<and> auth d \<noteq> [] then resp_command [bs ''AUTH'', auth d] else []) @
           resp_command (map arg_text args))"
proof (cases "fdIdle d")
  case (Cons a rest)
  have "answered {} d" by (simp add: answered_def)
  from fill_inv [OF assms(1) Cons this, of ok cb args] obtain d' where
    d: "fillIdleConn ok a cb args (d\<lparr>fdIdle := rest\<rparr>) = Some d'" "cc_out (conns d' a) = write_command args []" "callback (conns d' a) = Some cb" "is_open d' a"
    by blast
  have "a \<noteq> cl_free d" using cl_invD(3,5) [OF assms(1)] Cons by fastforce
  then show ?thesis using d Cons by (intro exI [of _ "Done d'"]) (auto simp: Exec_def activateFreeConn_def write_command_out intro!: exI [of _ a])
next
  case Nil
  show ?thesis
  proof (cases "fd_Len (fdConns d) \<ge> poolSize d")
    case True
    then show ?thesis using Nil by (intro exI [of _ Blocks]) (simp add: Exec_def activateFreeConn_def)
  next
    case False
    have "table (fdConns d) fd = None" using cl_invD(6) [OF assms(1), of fd] assms(3) by (cases "table (fdConns d) fd") auto
    from fm.add_law [OF cl_invD(1) [OF assms(1)] assms(2) this, of "cl_free d"]
    obtain m where m: "fd_Add fd (cl_free d) (fdConns d) = Some m" "table m = (table (fdConns d))(fd \<mapsto> cl_free d)" by blast
    have "\<exists>d'. dialed fd cb args d = Some d' \<and> is_open d' (cl_free d) \<and> callback (conns d' (cl_free d)) = Some cb \<and>
      cc_out (conns d' (cl_free d)) = (if auth d \<noteq> [] then resp_command [bs ''AUTH'', auth d] else []) @ resp_command (map arg_text args)"
      using m assms(3)
      by (simp add: dialed_def Let_def new_cconn_def cl_on_poll_def AddReadWrite_def epoll_add_def write_command_out write_auth_out)
    then obtain d' where "dialed fd cb args d = Some d'" "is_open d' (cl_free d)" "callback (conns d' (cl_free d)) = Some cb"
      "cc_out (conns d' (cl_free d)) = (if auth d \<noteq> [] then resp_command [bs ''AUTH'', auth d] else []) @ resp_command (map arg_text args)" by blast
    then show ?thesis using Nil False
      by (intro exI [of _ "Done d'"]) (auto simp: Exec_def activateFreeConn_def intro!: exI [of _ "cl_free d"])
  qed
qed

theorem Exec_sends_witness:
  "\<exists>r. Exec (\<lambda>_. True) (Dialed 7) 0 [ArgString (bs ''GET''), ArgInt 12] (sample_client 0) = Some r \<and>
    (case r of Blocks \<Rightarrow> fdIdle (sample_client 0) = [] \<and> fd_Len (fdConns (sample_client 0)) \<ge> poolSize (sample_client 0)
     | Done d' \<Rightarrow> \<exists>a. is_open d' a \<and> callback (conns d' a) = Some 0 \<and>
         cc_out (conns d' a) = (if a = cl_free (sample_client 0) \<and> auth (sample_client 0) \<noteq> []
             then resp_command [bs ''AUTH'', auth (sample_client 0)] else []) @
           resp_command (map arg_text [ArgString (bs ''GET''), ArgInt 12]))"
  by (rule Exec_sends) (simp_all add: sample_client_good)

lemma replied_inv:
  assumes "cl_inv {} d" and "is_open d a" and "a \<notin> set (fdIdle d)" and "cc_out (conns d a) = []"
  shows "cl_inv {} (replied a e d)" and "resting (cl_Timeout d) (conns (replied a e d) a)"
proof -
  note I = cl_invD [OF assms(1)]
  have "working (cl_Timeout d) (conns d a)" using I(8) [OF assms(2)] assms(3) by simp
  then show r: "resting (cl_Timeout d) (conns (replied a e d) a)" using assms(4) by (auto simp: replied_def parked_def resting_def working_def)
  have c: "cc_fd (conns (replied a e d) b) = cc_fd (conns d b)" "b \<noteq> a \<Longrightarrow> conns (replied a e d) b = conns d b" for b
    by (simp_all add: replied_def parked_def)
  have f: "fdConns (replied a e d) = fdConns d" "fdIdle (replied a e d) = fdIdle d @ [a]" "cl_poll (replied a e d) = cl_poll d"
    "cl_free (replied a e d) = cl_free d" "cl_Timeout (replied a e d) = cl_Timeout d" by (simp_all add: replied_def)
  show "cl_inv {} (replied a e d)"
  proof (rule cl_invI)
    show "\<And>b. b \<in> set (fdIdle (replied a e d)) \<Longrightarrow> is_open (replied a e d) b" using I(3) assms(2) by (auto simp: c(1) f)
    fix fd b assume b: "table (fdConns (replied a e d)) fd = Some b"
    then have b': "table (fdConns d) fd = Some b" by (simp add: f)
    show "resting (cl_Timeout (replied a e d)) (conns (replied a e d) b)" if "b \<in> set (fdIdle (replied a e d))"
      using that r I(7) [OF b'] by (cases "b = a") (simp_all add: c f)
    show "working (cl_Timeout (replied a e d)) (conns (replied a e d) b)" if "b \<notin> set (fdIdle (replied a e d))"
      using that I(8) [OF b'] by (simp add: c f)
  qed (use I assms(3) in \<open>auto simp: c(1) f\<close>)
qed

text \<open>
  C28: once the command has been sent, the reply of the server reaches its callback, once, however
  it is cut into reads, after the answer to the password if one was sent; error replies arrive
  as errors. The connection then rests at the end of the channel, the pool is in order, and
  the next command is accepted.
\<close>

theorem Exec_reply:
  assumes "cl_inv {} d" and "is_open d a" and "callback (conns d a) = Some cb" and "cc_in (conns d a) = []" and "cc_out (conns d a) = []"
    and "resp_wf u" and "resp_wf v" and "concat segs = (if authState (conns d a) = 1 then resp_enc u else []) @ resp_enc v"
    and "[] \<notin> set segs" and "int (length (concat segs)) \<le> lim" and "fd_Len (fdConns d) \<le> poolSize d"
  shows "\<exists>d'. fold (\<lambda>s d. d \<bind> cl_readConn lim ok a (ReadN s)) segs (Some d) = Some d' \<and> cl_fx d' = cl_fx d @ [reply_of cb v] \<and>
    cl_inv {} d' \<and> fdIdle d' = fdIdle d @ [a] \<and> is_open d' a \<and> resting (cl_Timeout d') (conns d' a) \<and>
    (\<exists>d2. Exec ok dr cb' args d' = Some (Done d2))"
proof -
  let ?d = "replied a (reply_of cb v) d"
  have ni: "a \<notin> set (fdIdle d)" using callback_idle(1) [OF assms(1,2)] assms(3) by simp
  have "working (cl_Timeout d) (conns d a)" using cl_invD(8) [OF assms(1,2)] ni by simp
  then have "death (conns d a) \<in> {NoTimer, Running}" by (simp add: working_def)
  moreover have "int (length (fdIdle d)) < poolSize d" using idle_room [OF assms(1,2) ni] assms(11) by simp
  moreover have "segs \<noteq> []" using assms(8) by auto
  ultimately have f: "fold (\<lambda>s d. d \<bind> cl_readConn lim ok a (ReadN s)) segs (Some d) = Some ?d"
    using assms(3-11) by (intro reads_reply [where u = u]) auto
  note r = replied_inv [OF assms(1,2) ni assms(5), of "reply_of cb v"]
  have i: "fdIdle ?d = fdIdle d @ [a]" by (simp add: replied_def)
  then obtain b rest where b: "fdIdle ?d = b # rest" by (cases "fdIdle d") auto
  have "answered {} ?d" by (simp add: answered_def)
  from fill_inv [OF r(1) b this, of ok cb' args] b have "\<exists>d2. Exec ok dr cb' args ?d = Some (Done d2)"
    by (auto simp: Exec_def activateFreeConn_def)
  moreover have "is_open ?d a" using assms(2) by (simp add: replied_def parked_def)
  moreover have "cl_fx ?d = cl_fx d @ [reply_of cb v]" "cl_Timeout ?d = cl_Timeout d" by (simp_all add: replied_def)
  ultimately show ?thesis using f r i by (intro exI [of _ ?d]) simp
qed

theorem Exec_reply_witness:
  "\<exists>d'. fold (\<lambda>s d. d \<bind> cl_readConn 1000 (\<lambda>_. True) 0 (ReadN s)) [bs ''+PO'', bs ''NG'' @ crlf] (Some sample_written) = Some d' \<and>
    cl_fx d' = cl_fx sample_written @ [reply_of 0 (RSimple (bs ''PONG''))] \<and>
    cl_inv {} d' \<and> fdIdle d' = fdIdle sample_written @ [0] \<and> is_open d' 0 \<and> resting (cl_Timeout d') (conns d' 0) \<and>
    (\<exists>d2. Exec (\<lambda>_. True) SocketErr 1 [ArgInt 3] d' = Some (Done d2))"
  by (rule Exec_reply [OF sample_written_good(1,2), where u = RNull])
    (simp_all add: sample_written_good fd_Len_def resp_line_def crlf_def bs_def format_int_def format_uint.simps digit_char_def)

lemma Exec_idle:
  assumes "cl_inv {} d" and "fdIdle d = a # rest" and "fd_Len (fdConns d) \<le> poolSize d"
  shows "\<exists>d'. Exec ok dr cb args d = Some (Done d') \<and> cl_inv {} d' \<and> is_open d' a \<and> a \<notin> set (fdIdle d') \<and> fdConns d' = fdConns d \<and> poolSize d' = poolSize d \<and>
    cl_fx d' = cl_fx d \<and> callback (conns d' a) = Some cb \<and> cc_in (conns d' a) = [] \<and> authState (conns d' a) = 0 \<and> cc_fd (conns d' a) = cc_fd (conns d a) \<and>
    cc_out (conns d' a) = resp_command (map arg_text args)"
proof -
  note I = cl_invD [OF assms(1)]
  have a: "is_open d a" "a \<notin> set rest" "resting (cl_Timeout d) (conns d a)"
    using I(2,3) I(7) [of "cc_fd (conns d a)" a] assms(2) by auto
  have "answered {} d" by (simp add: answered_def)
  from fill_inv [OF assms(1,2) this, of ok cb args] obtain d' where
    d: "fillIdleConn ok a cb args (d\<lparr>fdIdle := rest\<rparr>) = Some d'" "cl_inv {} d'" "cc_out (conns d' a) = write_command args []"
      "callback (conns d' a) = Some cb" "is_open d' a" by blast
  have t: "trim_idle ok xs e = Some e" if "fd_Len (fdConns e) \<le> poolSize e" for xs e using that by (cases xs) simp_all
  have "fdConns d' = fdConns d \<and> poolSize d' = poolSize d \<and> fdIdle d' = rest \<and> cl_fx d' = cl_fx d \<and>
     cc_in (conns d' a) = [] \<and> authState (conns d' a) = 0 \<and> cc_fd (conns d' a) = cc_fd (conns d a)"
    using d(1) a(3) assms(3) by (auto simp: fillIdleConn_def Let_def t timer_Reset_def resting_def split: if_splits)
  then show ?thesis using d a(2) assms(2) by (intro exI [of _ d']) (simp add: Exec_def activateFreeConn_def write_command_out)
qed

lemma write_all:
  assumes "cl_inv {} d" and "is_open d a" and "a \<notin> set (fdIdle d)" and "cc_out (conns d a) \<noteq> []"
  shows "\<exists>d'. cl_writeConn ok a (Wrote (length (cc_out (conns d a)))) d = Some d' \<and> cl_inv {} d' \<and> fdConns d' = fdConns d \<and> poolSize d' = poolSize d \<and>
    fdIdle d' = fdIdle d \<and> conns d' a = (conns d a)\<lparr>cc_out := []\<rparr> \<and> cl_fx d' = cl_fx d @ [CWrite (cc_fd (conns d a)) (cc_out (conns d a))]"
proof -
  have "write_ok (Wrote (length (cc_out (conns d a)))) (cc_out (conns d a))" by (simp add: write_ok_def)
  moreover have "answered {} d" by (simp add: answered_def)
  ultimately obtain d' where d: "cl_writeConn ok a (Wrote (length (cc_out (conns d a)))) d = Some d'" "cl_inv {} d'"
    using writeConn_good [OF assms(1-3)] by blast
  then show ?thesis using assms(4)
    by (auto simp: cl_writeConn_def Let_def cl_on_poll_def cl_sent_def cl_emit_def split: bind_splits)
qed

section \<open>What an impolite server can do\<close>

lemma deleted_panics:
  assumes "is_open d a" and "fd_ok (fdConns d)" and "fd_Delete (cc_fd (conns d a)) (fdConns d) = Some m"
  shows "fd_Delete (cc_fd (conns d a)) m = None"
proof -
  have fd: "0 \<le> cc_fd (conns d a)" "cc_fd (conns d a) < int (length (fds (fdConns d)))" using assms(1) by (auto simp: table_def split: if_splits)
  moreover have "length (fds m) = length (fds (fdConns d))" using assms(3) by (auto simp: fd_Delete_def split: bind_splits if_splits)
  ultimately show ?thesis using fd_Delete_table(2) [OF fd(1) assms(3)] fd_Delete_table(1) [OF fd(1), of m] by simp
qed

text \<open>
  C39: with a timeout set, closing a connection that works for a command, for whatever
  reason, leaves its timer running; when the timer fires, the connection is closed again
  and the program panics.
\<close>

theorem timer_after_close_panics:
  assumes "cl_inv {} d" and "is_open d a" and "a \<notin> set (fdIdle d)" and "cl_Timeout d > 0"
  shows "\<exists>d'. cl_closeConnWithError ok a ty failed d = Some d' \<and> death (conns d' a) = Running \<and> timer_fires ok a d' = None"
proof -
  have w: "death (conns d a) = Running" using cl_invD(8) [OF assms(1,2)] assms(3,4) by (simp add: working_def)
  from fm.del_law [OF cl_invD(1) [OF assms(1)]] assms(2) obtain m where m: "fd_Delete (cc_fd (conns d a)) (fdConns d) = Some m" by auto
  from cl_close_shape [OF m, of ok ty failed] obtain d' where
    d: "cl_closeConnWithError ok a ty failed d = Some d'" "fdConns d' = m" "conns d' = conns d" by blast
  have "timer_fires ok a d' = None"
    using w deleted_panics [OF assms(2) cl_invD(1) [OF assms(1)] m] by (simp add: timer_fires_def d cl_closeConnWithError_def)
  then show ?thesis using d w by auto
qed

theorem timer_after_close_panics_witness:
  "\<exists>d'. cl_closeConnWithError (\<lambda>_. True) 0 [] False (sample_active 100) = Some d' \<and> death (conns d' 0) = Running \<and>
     timer_fires (\<lambda>_. True) 0 d' = None"
  by (rule timer_after_close_panics [OF sample_active_good]) (simp_all add: sample_active_exec)

text \<open>\<open>Exec\<close> with a resting connection in the channel, whether it is still open or not.\<close>

lemma Exec_from_channel:
  assumes "fdIdle d = a # rest" and "resting (cl_Timeout d) (conns d a)" and "fd_Len (fdConns d) \<le> poolSize d"
  shows "\<exists>d'. Exec ok dr cb args d = Some (Done d') \<and> fdConns d' = fdConns d \<and> cl_fx d' = cl_fx d \<and> (\<forall>b. b \<noteq> a \<longrightarrow> conns d' b = conns d b)"
proof -
  have trim: "trim_idle ok xs d' = Some d'" if "fdConns d' = fdConns d" "poolSize d' = poolSize d" for d' xs
    using that assms(3) by (cases xs) auto
  define c2 where "c2 = (conns d a)\<lparr>callback := Some cb, cc_out := write_command args []\<rparr>"
  define c3 where "c3 = (if cl_Timeout d > 0 then c2\<lparr>death := Running\<rparr> else c2)"
  have c3: "(if cl_Timeout d > 0 then map_option fst (timer_Reset c2) else Some c2) = Some c3"
    using assms(2) by (simp add: timer_Reset_def c2_def c3_def resting_def)
  define d2 where "d2 = (let d = OnFdCount (set_conn a c3 (d\<lparr>fdIdle := rest\<rparr>)) in d\<lparr>cl_poll := Trigger (cc_fd c3) (cl_poll d)\<rparr>)"
  have "Exec ok dr cb args d = map_option Done ((if cl_Timeout d > 0 then map_option fst (timer_Reset c2) else Some c2) \<bind> (\<lambda>c.
      trim_idle ok rest (set_conn a c (d\<lparr>fdIdle := rest\<rparr>)) \<bind> (\<lambda>d.
        Some ((OnFdCount d)\<lparr>cl_poll := Trigger (cc_fd c) (cl_poll (OnFdCount d))\<rparr>))))"
    using assms(1,2) unfolding Exec_def activateFreeConn_def fillIdleConn_def c2_def resting_def Let_def by simp
  also have "\<dots> = Some (Done d2)" unfolding c3 using trim by (simp add: d2_def Let_def)
  finally show ?thesis by (simp add: d2_def Let_def)
qed

text \<open>
  C38: when the server closes a resting connection, the connection stays in the channel. The
  next command is given to it and is lost: its callback is not called and no open connection
  works for it, and the event that should send it finds no connection.
\<close>

theorem closed_idle_loses_command:
  assumes "cl_inv {} d" and "fdIdle d = a # rest" and "fd_Len (fdConns d) \<le> poolSize d" and "cb \<notin> called (cl_fx d) \<union> waiting d"
  shows "\<exists>d1 d2 d3. cl_event lim ok (cc_fd (conns d a)) READ wr (ReadN []) d = Some d1 \<and> Exec ok dr cb args d1 = Some (Done d2) \<and>
     cb \<notin> called (cl_fx d2) \<union> waiting d2 \<and>
     cl_event lim ok (cc_fd (conns d a)) WRITE wr rd d2 = Some d3 \<and> cl_fx d3 = cl_fx d2 @ [CError (bs ''warning'')]"
proof -
  note I = cl_invD [OF assms(1)]
  define fd where "fd = cc_fd (conns d a)"
  have o: "is_open d a" and r: "resting (cl_Timeout d) (conns d a)"
    using I(3) I(7) [of "cc_fd (conns d a)" a] assms(2) by auto
  have fd: "0 \<le> fd" using o by (auto simp: table_def fd_def split: if_splits)
  from fm.del_law [OF I(1)] o obtain m where m: "fd_Delete fd (fdConns d) = Some m" "fd_ok m" "table m = (table (fdConns d))(fd := None)"
    by (auto simp: fd_def)
  from cl_close_shape [OF m(1) [unfolded fd_def], of ok "[]" False] obtain d1 where
    c: "cl_closeConnWithError ok a [] False d = Some d1" and d1: "fdConns d1 = m" "conns d1 = conns d" "fdIdle d1 = a # rest" "cl_Timeout d1 = cl_Timeout d"
    "poolSize d1 = poolSize d" "called (cl_fx d1) = called (cl_fx d)"
    using r assms(2) by (auto simp: resting_def)
  have e1: "cl_event lim ok fd READ wr (ReadN []) d = Some d1"
    using o r c unfolding cl_event_def fm.get_law [OF fd] by (simp add: fd_def resting_def cl_readConn_def Let_def)
  have "fd_Len m \<le> fd_Len (fdConns d)"
    unfolding fm.len_law [OF I(1)] fm.len_law [OF m(2)] m(3) by (simp add: card_mono [OF fm.finite_entries] subset_iff)
  then have len: "\<not> fd_Len m > poolSize d" using assms(3) by simp
  from Exec_from_channel [of d1 a rest ok dr cb args] r d1 len obtain d2 where
    e2: "Exec ok dr cb args d1 = Some (Done d2)" and d2: "fdConns d2 = m" "cl_fx d2 = cl_fx d1" "\<And>b. b \<noteq> a \<Longrightarrow> conns d2 b = conns d b" by auto
  have na: "b \<noteq> a" if "table m x = Some b" for x b using that I(4) [of x b] unfolding m(3) fd_def by (auto split: if_splits)
  have "cb \<notin> waiting d2"
  proof
    assume "cb \<in> waiting d2"
    then obtain x b where b: "table m x = Some b" "callback (conns d2 b) = Some cb" by (auto simp: waiting_def d2(1))
    then have "table (fdConns d) x = Some b" "callback (conns d b) = Some cb" using na [OF b(1)] d2(3) by (auto simp: m(3) split: if_splits)
    then show False using assms(4) waitingI by blast
  qed
  moreover have "cl_event lim ok fd WRITE wr rd d2 = Some (cl_emit (CError (bs ''warning'')) d2)"
    unfolding cl_event_def fm.get_law [OF fd] d2(1) m(3) by simp
  ultimately show ?thesis using e1 e2 assms(4) d1(6) d2(2)
    by (intro exI [of _ d1] exI [of _ d2] exI [of _ "cl_emit (CError (bs ''warning'')) d2"]) (simp add: fd_def)
qed

text \<open>
  A reply that comes before the whole command was sent puts a connection with unsent
  bytes into the channel; the next command then panics.
\<close>

lemma early_reply_panics:
  assumes "cl_inv {} d" and "is_open d a" and "callback (conns d a) = Some cb" and "cc_in (conns d a) = []" and "authState (conns d a) = 0"
    and "resp_wf v" and "int (length (resp_enc v)) \<le> lim" and "fd_Len (fdConns d) \<le> poolSize d" and "fdIdle d = []" and "cc_out (conns d a) \<noteq> []"
  shows "\<exists>d'. cl_readConn lim ok a (ReadN (resp_enc v)) d = Some d' \<and> Exec ok dr cb' args d' = None"
proof -
  have w: "death (conns d a) \<in> {NoTimer, Running}"
    using cl_invD(8) [OF assms(1,2)] assms(9) by (simp add: working_def)
  have "0 < poolSize d" using idle_room [OF assms(1,2)] assms(8,9) by simp
  have "fold (\<lambda>s d. d \<bind> cl_readConn lim ok a (ReadN s)) [resp_enc v] (Some d) = Some (replied a (reply_of cb v) d)"
    by (rule reads_reply [where u = RNull]) (use assms w \<open>0 < poolSize d\<close> resp_enc_not_Nil [of v] in \<open>auto simp del: resp_enc_not_Nil\<close>)
  then show ?thesis using assms(9,10)
    by (auto simp: Exec_def activateFreeConn_def replied_def fillIdleConn_def parked_def)
qed


text \<open>A client whose only connection rests.\<close>

definition sample_resting :: client where
  "sample_resting = replied 0 (reply_of 0 (RSimple (bs ''PONG''))) sample_written"

lemma sample_resting_good:
  "cl_inv {} sample_resting" "fdIdle sample_resting = [0]" "fd_Len (fdConns sample_resting) \<le> poolSize sample_resting"
  "1 \<notin> called (cl_fx sample_resting) \<union> waiting sample_resting"
proof -
  let ?v = "RSimple (bs ''PONG'')"
  have wf: "resp_wf ?v" by (simp add: bs_def)
  have "fold (\<lambda>s d. d \<bind> cl_readConn 1000 (\<lambda>_. True) 0 (ReadN s)) [resp_enc ?v] (Some sample_written) = Some sample_resting"
    unfolding sample_resting_def
    by (rule reads_reply [where u = RNull]) (use wf in \<open>simp_all add: sample_written_good fd_Len_def resp_line_def\<close>)
  then have r: "cl_readConn 1000 (\<lambda>_. True) 0 (ReadN (resp_enc ?v)) sample_written = Some sample_resting" by simp
  have "readable (conns sample_written 0) (ReadN (resp_enc ?v))"
    using reply_loop_one [OF wf, of "(conns sample_written 0)\<lparr>cc_in := resp_enc ?v\<rparr>" "[]" 0] by (simp add: readable_def sample_written_good)
  moreover have "courteous (conns sample_written 0) False (ReadN (resp_enc ?v))" by (simp add: courteous_def sample_written_good)
  ultimately show "cl_inv {} sample_resting"
    using readConn_good [OF sample_written_good(1,2,3), of "ReadN (resp_enc ?v)" 1000 "\<lambda>_. True"] r by auto
  show "fdIdle sample_resting = [0]" "fd_Len (fdConns sample_resting) \<le> poolSize sample_resting"
    by (simp_all add: sample_resting_def replied_def sample_written_good fd_Len_def)
  have "table (fdConns sample_written) fd = Some a \<Longrightarrow> a = 0" for fd a
    by (auto simp: sample_written_good table_def nth_append nth_Cons split: if_splits nat.splits)
  then show "1 \<notin> called (cl_fx sample_resting) \<union> waiting sample_resting"
    by (auto simp: waiting_def sample_resting_def replied_def parked_def sample_written_good reply_of_def)
qed

theorem closed_idle_loses_command_witness:
  "\<exists>d1 d2 d3. cl_event 1000 (\<lambda>_. True) (cc_fd (conns sample_resting 0)) READ (Wrote 0) (ReadN []) sample_resting = Some d1 \<and>
     Exec (\<lambda>_. True) SocketErr 1 [ArgString (bs ''PING'')] d1 = Some (Done d2) \<and> 1 \<notin> called (cl_fx d2) \<union> waiting d2 \<and>
     cl_event 1000 (\<lambda>_. True) (cc_fd (conns sample_resting 0)) WRITE (Wrote 0) (ReadErr EAGAIN) d2 = Some d3 \<and>
     cl_fx d3 = cl_fx d2 @ [CError (bs ''warning'')]"
  by (rule closed_idle_loses_command [OF sample_resting_good])

end
