(* ===== verification/Multi_Clients.thy ===== *)
theory Multi_Clients
  imports Redis_Exec
begin

text \<open>
  redis/multi_clients.go: several clients used in turn. The counts that the \<open>OnFdCount\<close> of
  each client records are kept in the client.
\<close>

section \<open>Operations\<close>

record multi =
  clients :: "client list"
  ctr :: int

text \<open>Go's division and remainder: the quotient is cut towards 0, the remainder has the sign of the dividend.\<close>

definition go_div :: "int \<Rightarrow> int \<Rightarrow> int" where
  "go_div x n = sgn x * sgn n * (\<bar>x\<bar> div \<bar>n\<bar>)"

definition go_rem :: "int \<Rightarrow> int \<Rightarrow> int option" where
  "go_rem x n = (if n = 0 then None else Some (sgn x * (\<bar>x\<bar> mod \<bar>n\<bar>)))"

text \<open>
  \<open>NewMultiCoreClients\<close> with the descriptors of each client's poller. The size of a client's pool is
  computed in the loop, so that no client is no division by 0.
\<close>

fun new_clients :: "int \<Rightarrow> bytes \<Rightarrow> int \<Rightarrow> (int option \<times> int option) list \<Rightarrow> client list option" where
  "new_clients n au timeout [] = Some []"
| "new_clients n au timeout ((ep, w) # ps) = do {
     c \<leftarrow> NewClient n au timeout ep w;
     cs \<leftarrow> new_clients n au timeout ps;
     Some (c # cs) }"

definition NewMultiCoreClients :: "int \<Rightarrow> bytes \<Rightarrow> int \<Rightarrow> (int option \<times> int option) list \<Rightarrow> multi option" where
  "NewMultiCoreClients npool au timeout ps = do {
     cs \<leftarrow> new_clients (go_div npool (int (length ps)) + 1) au timeout ps;
     Some \<lparr>clients = cs, ctr = 0\<rparr> }"

definition mc_Exec :: "(int \<Rightarrow> bool) \<Rightarrow> dial_result \<Rightarrow> nat \<Rightarrow> arg list \<Rightarrow> multi \<Rightarrow> (multi \<times> bool) option" where
  "mc_Exec ok dr cb args c = do {
     let k = i64 (ctr c + 1);
     let c = c\<lparr>ctr := k\<rparr>;
     i \<leftarrow> go_rem k (int (length (clients c)));
     cc \<leftarrow> gat (clients c) i;
     r \<leftarrow> Exec ok dr cb args cc;
     (case r of
        Blocks \<Rightarrow> Some (c, False)
      | Done cc' \<Rightarrow> Some (c\<lparr>clients := (clients c)[nat i := cc']\<rparr>, True)) }"

fun close_all :: "(int \<Rightarrow> bool) \<Rightarrow> client list \<Rightarrow> client list option" where
  "close_all ok [] = Some []"
| "close_all ok (c # cs) = do {
     c \<leftarrow> cl_Close ok c;
     cs \<leftarrow> close_all ok cs;
     Some (c # cs) }"

definition mc_Close :: "(int \<Rightarrow> bool) \<Rightarrow> multi \<Rightarrow> multi option" where
  "mc_Close ok c = do { cs \<leftarrow> close_all ok (clients c); Some (c\<lparr>clients := cs\<rparr>) }"

definition mc_IdleCount :: "multi \<Rightarrow> int" where
  "mc_IdleCount c = sum_list (map (fst \<circ> counts) (clients c))"

definition mc_ActiveCount :: "multi \<Rightarrow> int" where
  "mc_ActiveCount c = sum_list (map (snd \<circ> counts) (clients c))"

section \<open>Closing a client\<close>



section \<open>Properties\<close>



lemma mc_Exec_turn:
  assumes "0 \<le> ctr c" and "ctr c + 1 < 2 ^ 63" and "i = nat ((ctr c + 1) mod int (length (clients c)))" and "clients c \<noteq> []"
    and "Exec ok dr cb args (clients c ! i) = Some (Done d)"
  shows "mc_Exec ok dr cb args c = Some (c\<lparr>ctr := ctr c + 1, clients := (clients c)[i := d]\<rparr>, True)"
proof -
  have k: "i64 (ctr c + 1) = ctr c + 1" using assms(1,2) by (intro i64_id) simp
  have r: "go_rem (ctr c + 1) (int (length (clients c))) = Some (int i)"
    using assms(1,3,4) by (simp add: go_rem_def)
  have "i < length (clients c)" using assms(3,4) by (simp add: nat_less_iff)
  then show ?thesis unfolding mc_Exec_def Let_def k using r assms(5) by simp
qed

text \<open>
  The clients take turns. As long as the counter has not overflowed, each of any
  consecutive calls goes to the next client, so that of as many calls as there are clients
  each client gets exactly one.
\<close>

lemma mc_round_robin:
  assumes "0 \<le> ctr c" and "ctr c + 1 < 2 ^ 63" and "clients c \<noteq> []"
    and "Exec ok dr cb args (clients c ! nat ((ctr c + 1) mod int (length (clients c)))) = Some (Done d)"
  shows "mc_Exec ok dr cb args c =
      Some (c\<lparr>ctr := ctr c + 1, clients := (clients c)[nat ((ctr c + 1) mod int (length (clients c))) := d]\<rparr>, True) \<and>
    bij_betw (\<lambda>j. nat ((ctr c + int j) mod int (length (clients c)))) {..<length (clients c)} {..<length (clients c)}"
proof -
  let ?n = "length (clients c)" and ?f = "\<lambda>j. nat ((ctr c + int j) mod int (length (clients c)))"
  have n: "0 < ?n" using assms(3) by simp
  have "inj_on ?f {..<?n}"
  proof (rule inj_onI)
    fix x y assume xy: "x \<in> {..<?n}" "y \<in> {..<?n}" "?f x = ?f y"
    then have "(ctr c + int x) mod int ?n = (ctr c + int y) mod int ?n" using n by (simp add: nat_eq_iff2)
    then have "int ?n dvd (ctr c + int x) - (ctr c + int y)" by (simp add: mod_eq_dvd_iff)
    then have "int ?n dvd int x - int y" by simp
    then show "x = y" using xy(1,2) zdvd_imp_le [of "int ?n" "int x - int y"] zdvd_imp_le [of "int ?n" "int y - int x"]
      by (cases "x = y") (auto simp: dvd_diff_commute linorder_neq_iff)
  qed
  moreover have "?f ` {..<?n} \<subseteq> {..<?n}" using n by (auto simp: nat_less_iff)
  ultimately have "bij_betw ?f {..<?n} {..<?n}" by (simp add: bij_betw_def endo_inj_surj)
  then show ?thesis using mc_Exec_turn [OF assms(1,2) refl assms(3,4)] by simp
qed

text \<open>
  After \<open>2^63 - 1\<close> calls the counter overflows to a negative number, and with three clients
  the next call panics.
\<close>

lemma mc_counter_overflow:
  "mc_Exec ok dr cb args \<lparr>clients = [c1, c2, c3], ctr = 2 ^ 63 - 1\<rparr> = None"
proof -
  have "i64 (2 ^ 63 - 1 + 1) = - (2 ^ 63)" by (simp add: i64_def)
  moreover have "go_rem (- (2 ^ 63)) 3 = Some (- 2)" by (simp add: go_rem_def)
  ultimately show ?thesis unfolding mc_Exec_def Let_def by (simp add: gat_def)
qed

end
