(* ===== verification/Spec2Isabelle.thy ===== *)
theory Spec2Isabelle
  imports Listener_Ws Http_Query Ssl Go_Handler Poll_Kqueue Sockets Multi_Clients
begin

text \<open>
  \<^bold>\<open>resh\<close> is an event-driven network library in Go: a server that speaks RESP (the Redis protocol),
  HTTP/1.1 and WebSocket on one port, optionally over TLS, and a pooled Redis client. This development is a model of
  the sources under \<^verbatim>\<open>src/\<close> and the theorems that make them correct.

  \<^bold>\<open>The program.\<close> \<open>Listener.Serve\<close> (\<^verbatim>\<open>server.go\<close>) runs one loop over a poller
  (\<^verbatim>\<open>internal/internal_linux.go\<close> over epoll, \<^verbatim>\<open>internal/internal_bsd.go\<close> over kqueue). An event accepts a
  connection, or reads and writes one; after it, connections that have been silent for too long are closed. What
  is read is appended to the input buffer of the connection (\<^verbatim>\<open>conn.go\<close>) and given to its parser: \<open>process\<close> of
  \<^verbatim>\<open>state.go\<close> for commands and HTTP requests (\<^verbatim>\<open>redis.go\<close>, \<^verbatim>\<open>http.go\<close>), \<open>parse\<close> of \<^verbatim>\<open>ws.go\<close> once the connection
  has been upgraded. A complete request is handed to a handler of the application, which writes its answer to the
  output buffer. Other goroutines may write too; they ask the loop to look at a connection through a lock-free queue
  (\<^verbatim>\<open>internal/lockqueue.go\<close>). TLS puts OpenSSL (\<^verbatim>\<open>ssl_cgo.go\<close>) in place of the system calls. The client
  (\<^verbatim>\<open>redis/client.go\<close>) has a loop of its own, a table of connections (\<^verbatim>\<open>redis/fd_map.go\<close>), a channel of idle ones and
  a parser of replies (\<^verbatim>\<open>redis/parser.go\<close>); \<^verbatim>\<open>redis/multi_clients.go\<close> uses several clients in turn.

  \<^bold>\<open>How code becomes definitions.\<close> A byte is an \<open>8 word\<close>, and slices and strings are lists of bytes; the fixed-width
  fields of structs are words, so that their wrap-around is that of Go, and Go's int is an \<open>int\<close> with \<open>i64\<close> where an
  overflow can happen. A struct is a record; pointers to connections are addresses in a store. An operation has the
  name of its function and takes and returns the state it changes. \<open>None\<close> is a run-time panic (an index out of range, a nil
  pointer, \<open>panic\<close>) or a loop or lock that does not return; errors are values. Results of system calls, the clock,
  the timers that fire and the handlers of the application are arguments (the records \<open>io\<close> and \<open>env\<close> for the server),
  so every theorem is for all of them; what leaves the process is recorded as a list of effects.

  \<^bold>\<open>Theories, in the order of their imports.\<close>
  \<^item> \<open>Resh_Prelude\<close>: bytes, slices and searches of Go's package bytes, and two interfaces: \<open>incremental\<close>, a parser that
    is called again with more input, and \<open>codec\<close>, an encoding whose values can be told apart in a stream.
  \<^item> \<open>Go_Strconv\<close>, \<open>Go_Crypto\<close>: the functions of the standard library the sources use for numbers and for the handshake
    of WebSocket (SHA-1, base64).
  \<^item> \<open>Resh_Util\<close> (\<^verbatim>\<open>util.go\<close>): the reader of RESP header lines, percent-decoding in place, the response recorder.
  \<^item> \<open>HTTP_Request\<close> (\<^verbatim>\<open>http.go\<close>, requests): \<open>parse\<close>, \<open>Method\<close>, \<open>Body\<close>, \<open>ForeachHeader\<close>, \<open>GetHeader\<close>,
    \<open>ForeachQuery\<close>, \<open>URL\<close>; the parser against a description of request texts.
  \<^item> \<open>Resp_Format\<close>: the RESP encoding as a reference for both ends.
  \<^item> \<open>Server_State\<close> (\<^verbatim>\<open>state.go\<close>, \<^verbatim>\<open>redis.go\<close>): \<open>process\<close> and the accessors of a command. A command or a request is
    parsed to exactly its parts whatever follows it, the same for every segmentation, with no panic on input
    without negative numbers, and the state keeps the types its stage promises.
  \<^item> \<open>Websocket\<close> (\<^verbatim>\<open>ws.go\<close>, frames): parsing and writing frames, against RFC 6455.
  \<^item> \<open>Resh_Conn\<close> (\<^verbatim>\<open>conn.go\<close>, writers of \<^verbatim>\<open>redis.go\<close> and \<^verbatim>\<open>ws.go\<close>): output under the spin lock. The interface \<open>appender\<close> is
    what all writers share.
  \<^item> \<open>HTTP_Response\<close> (\<^verbatim>\<open>http.go\<close>, responses): full and chunked responses, redirects, the upgrade; a reference reader of
    responses gets back what was written.
  \<^item> \<open>Lock_Queue\<close> (\<^verbatim>\<open>internal/lockqueue.go\<close>): the queue one call at a time, with the interface \<open>wake_queue\<close>, and as
    an interleaving of single accesses by any number of producers: nothing is lost or handed out twice, and everybody can finish.
  \<^item> \<open>Poll\<close>, \<open>Poll_Kqueue\<close>, \<open>Sockets\<close> (the rest of \<^verbatim>\<open>internal\<close>, \<open>Listen\<close> and \<open>Close\<close> of \<^verbatim>\<open>server.go\<close>): both pollers in any state
    they can reach (\<open>polling\<close>, \<open>both\<close>), what kqueue registers of what epoll reports and what it misses, addresses, socket options,
    descriptors opened and closed.
  \<^item> \<open>Listener\<close> (\<^verbatim>\<open>server.go\<close>, \<open>onWebsocket\<close>): the event loop. \<open>Listener_Inv\<close>, \<open>Listener_Runs\<close> and \<open>Listener_Serve\<close>: its
    invariant under every event, the list of connections as a list ordered by use (interface \<open>lru_list\<close>), time-outs.
  \<^item> \<open>Listener_Ws\<close>, \<open>Listener_Http\<close>: from the socket to the answer, for WebSocket sessions and for conversations
    of commands and requests on one connection. The interface \<open>protocol\<close> is what a protocol has to
    promise; both protocols and their union are instances.
  \<^item> \<open>Http_Query\<close>, \<open>Go_Handler\<close> (\<^verbatim>\<open>http.go\<close>): queries, and handlers of net/http. \<open>Ssl\<close> (\<^verbatim>\<open>ssl_cgo.go\<close>): TLS.
  \<^item> \<open>Resp_Reader\<close> (\<^verbatim>\<open>redis/parser.go\<close>): framing and reading replies. \<open>Fd_Map\<close> (\<^verbatim>\<open>redis/fd_map.go\<close>): the table, as an
    instance of the interface \<open>conn_table\<close>.
  \<^item> \<open>Redis_Client\<close> (\<^verbatim>\<open>redis/client.go\<close>), \<open>Redis_Pool\<close>, \<open>Redis_Exec\<close>: the client, the invariant of its pool, and runs: no
    callback is lost and nothing panics under a server that keeps to the protocol, and what goes wrong otherwise.
  \<^item> \<open>Multi_Clients\<close> (\<^verbatim>\<open>redis/multi_clients.go\<close>): several clients, and closing.
  \<^item> This theory: properties of the client and the server together.

  \<^bold>\<open>Loops.\<close> There is no fuel. Loops over a buffer are functions with a termination proof. The three loops whose end
  depends on the state (the loop over frames in \<open>readConn\<close>, the time-out loop, the walk over the queue) are partial
  functions where \<open>None\<close> includes not returning; \<open>ws_session_delivers\<close>, \<open>sweep_closes_expired\<close> and
  \<open>triggers_delivered\<close> state that they return. The loops around \<open>poll.Wait\<close> run until waiting fails, since the callbacks of this program never return an error, so a
  run is a sequence of events (\<open>serving\<close>, \<open>pooled\<close>), and properties of it are invariants.

  \<^bold>\<open>What some theorems assume.\<close> A conversation is one where the client waits for the answer before it sends the next
  request; \<open>pipelined_command_waits\<close> shows why. The path of a request whose headers are looked up does not decode to a carriage return,
  since it is decoded in front of them. The runs of the client (\<open>pooled\<close>) are those with a polite server: its bytes are those of well-formed replies, a reply comes after
  the whole command was sent, and it does not close resting connections. They leave out that a connection is closed while its timer runs,
  be it by a polite server, by an error or by the pool itself: the timer is not stopped, and the client panics or closes another connection
  when it fires (\<open>timer_after_close_panics\<close>). A client without a timeout, the default, has no timers, so this excludes none of its
  runs (\<open>pooled_untimed\<close>). \<open>closed_idle_loses_command\<close> is a run with a server that is not polite. The order in which Go visits the
  entries of a map is arbitrary everywhere. A write of the whole output is assumed where a theorem says that an answer has been sent.

  \<^bold>\<open>Not modelled.\<close> The example programs, the stubs for builds without cgo (an error or a panic each), debugging output
  and \<open>String\<close> methods, handlers the application forgot to install (\<open>OnError\<close>, \<open>OnWSClose\<close>), the counters \<open>ShortWriteEmitter\<close> and \<open>WriteRaceEmitter\<close>, and the creation of a TLS context (\<open>X_init\<close>), its ALPN callback
  and its freeing, which only call OpenSSL. Buffers that a request shares with its connection are values here, so that
  a handler which keeps them after it returned is outside the model. Writers on other goroutines are modelled at the
  queue and as operations on a connection between the steps of the loop, not inside them; concurrent access to the client's table is
  not modelled. \<open>url.Parse\<close>, \<open>URL.String\<close>, the map of the package plru, OpenSSL and the handlers of net/http/pprof are
  arguments, with what the code relies on as hypotheses.
\<close>

section \<open>Client and server\<close>

text \<open>
  C4: the client of this library and the server of this library agree. A command given to \<open>Exec\<close>
  while a connection is idle is written by the client, read by the server in any number of
  pieces, answered by the application with a value computed from exactly the arguments of the
  command, and this answer, again cut in any way, reaches the callback of the command as
  that value; afterwards both ends are ready for the next command.
\<close>

theorem client_server_exchange:
  assumes "cl_inv {} d" and "fdIdle d = a # rest" and "fd_Len (fdConns d) \<le> poolSize d"
    and "redis_app E f" and "between b [] ln" and "command_ok (map arg_text args)" and "resp_wf (f (map arg_text args))"
    and "arrives out_segs (resp_command (map arg_text args)) []" and "int (length (concat out_segs)) \<le> e_max E"
    and "arrives in_segs (resp_enc (f (map arg_text args))) []" and "int (length (concat in_segs)) \<le> lim"
  shows "\<exists>d1 d2 l.
      Exec ok dr cb args d = Some (Done d1) \<and>
      cl_writeConn ok a (Wrote (length (cc_out (conns d1 a)))) d1 = Some d2 \<and>
      cl_fx d2 = cl_fx d @ [CWrite (cc_fd (conns d a)) (concat out_segs)] \<and>
      reads E b (Wrote (length (concat in_segs))) out_segs ln = Some l \<and> between b [] l \<and>
      outputs (fx l) = outputs (fx ln) @ [concat in_segs] \<and>
      fold (\<lambda>s d. d \<bind> cl_readConn lim ok a (ReadN s)) in_segs (Some d2) = Some (replied a (reply_of cb (f (map arg_text args))) d2)"
proof -
  let ?v = "f (map arg_text args)" and ?cmd = "resp_command (map arg_text args)"
  obtain d1 where 1: "Exec ok dr cb args d = Some (Done d1)" "cl_inv {} d1" "is_open d1 a" "a \<notin> set (fdIdle d1)" "fdConns d1 = fdConns d"
    "poolSize d1 = poolSize d" "cl_fx d1 = cl_fx d" "callback (conns d1 a) = Some cb" "cc_in (conns d1 a) = []" "authState (conns d1 a) = 0"
    "cc_fd (conns d1 a) = cc_fd (conns d a)" "cc_out (conns d1 a) = ?cmd"
    using Exec_idle [OF assms(1-3), of ok dr cb args] by blast
  have "cc_out (conns d1 a) \<noteq> []" using 1(12) by (simp add: resp_command_def)
  from write_all [OF 1(2-4) this, of ok] obtain d2 where
    2: "cl_writeConn ok a (Wrote (length (cc_out (conns d1 a)))) d1 = Some d2" "cl_inv {} d2" "fdConns d2 = fdConns d1" "poolSize d2 = poolSize d1"
      "fdIdle d2 = fdIdle d1" "conns d2 a = (conns d1 a)\<lparr>cc_out := []\<rparr>" "cl_fx d2 = cl_fx d1 @ [CWrite (cc_fd (conns d1 a)) (cc_out (conns d1 a))]"
    by blast
  have o2: "is_open d2 a" "a \<notin> set (fdIdle d2)" using 1(3,4) 2(3,5,6) by simp_all
  have "working (cl_Timeout d2) (conns d2 a)" using cl_invD(8) [OF 2(2) o2(1)] o2(2) by simp
  then have dt: "death (conns d2 a) \<in> {NoTimer, Running}" by (simp add: working_def)
  have room: "fd_Len (fdConns d2) \<le> poolSize d2" using 1(5,6) 2(3,4) assms(3) by simp
  have "int (length (fdIdle d2)) < poolSize d2" using idle_room [OF 2(2) o2] room by simp
  then have "fold (\<lambda>s d. d \<bind> cl_readConn lim ok a (ReadN s)) in_segs (Some d2) = Some (replied a (reply_of cb ?v) d2)"
    using assms(7,10,11) 1(8,9,10) 2(6) room dt by (intro reads_reply [where u = RNull]) (simp_all add: arrives_def)
  moreover obtain l where "reads E b (Wrote (length (resp_enc ?v))) out_segs ln = Some l" "between b [] l" "outputs (fx l) = outputs (fx ln) @ [resp_enc ?v]"
    using command_answered [OF assms(4,6,5,8,9)] by blast
  ultimately show ?thesis using 1 2 assms(8,10) by (intro exI [of _ d1] exI [of _ d2] exI [of _ l]) (simp add: arrives_def)
qed

theorem client_server_exchange_witness:
  "\<exists>d1 d2 l.
      Exec (\<lambda>_. True) SocketErr 1 [ArgString (bs ''PING'')] sample_resting = Some (Done d1) \<and>
      cl_writeConn (\<lambda>_. True) 0 (Wrote (length (cc_out (conns d1 0)))) d1 = Some d2 \<and>
      cl_fx d2 = cl_fx sample_resting @ [CWrite (cc_fd (conns sample_resting 0)) (concat [bs ''*1'' @ crlf, bs ''$4'' @ crlf @ bs ''PING'' @ crlf])] \<and>
      reads sample_env 2 (Wrote (length (concat [bs '':1'', crlf]))) [bs ''*1'' @ crlf, bs ''$4'' @ crlf @ bs ''PING'' @ crlf] sample_waiting = Some l \<and> between 2 [] l \<and>
      outputs (fx l) = outputs (fx sample_waiting) @ [concat [bs '':1'', crlf]] \<and>
      fold (\<lambda>s d. d \<bind> cl_readConn 1000 (\<lambda>_. True) 0 (ReadN s)) [bs '':1'', crlf] (Some d2) =
        Some (replied 0 (reply_of 1 (sample_values (map arg_text [ArgString (bs ''PING'')]))) d2)"
proof (rule client_server_exchange [OF sample_resting_good(1-3) sample_apps(1) sample_waiting_between])
  have p: "resp_command (map arg_text [ArgString (bs ''PING'')]) = bs ''*1'' @ crlf @ bs ''$4'' @ crlf @ bs ''PING'' @ crlf" by code_simp
  have v: "resp_enc (sample_values (map arg_text [ArgString (bs ''PING'')])) = bs '':1'' @ crlf" by code_simp
  show "command_ok (map arg_text [ArgString (bs ''PING'')])" unfolding command_ok_def p by (simp add: bs_def)
  show "resp_wf (sample_values (map arg_text [ArgString (bs ''PING'')]))" by (simp add: sample_values_def)
  show "arrives [bs ''*1'' @ crlf, bs ''$4'' @ crlf @ bs ''PING'' @ crlf] (resp_command (map arg_text [ArgString (bs ''PING'')])) []"
    unfolding p by (simp add: arrives_def bs_def)
  show "arrives [bs '':1'', crlf] (resp_enc (sample_values (map arg_text [ArgString (bs ''PING'')]))) []"
    unfolding v by (simp add: arrives_def bs_def crlf_def)
qed (simp_all add: bs_def sample_env_def quiet_env_def)

section \<open>From a request to a WebSocket\<close>

text \<open>The application upgrades every request that asks for it.\<close>

definition upgrader :: "env \<Rightarrow> header \<Rightarrow> bool" where
  "upgrader E hdr \<longleftrightarrow> list_all entry_ok hdr \<and>
     (\<forall>h c. e_http E h c = map_option (\<lambda>(c', ok, trs). (c', trs, True)) (UpgradeWebsocket hdr h c))"

definition client_key :: "http_request \<Rightarrow> bytes" where
  "client_key q = (case map_of (List.map_filter header_pair (rq_headers q)) (bs ''sec-websocket-key'') of None \<Rightarrow> [] | Some v \<Rightarrow> v)"

lemma upgrade_served:
  assumes "upgrader E hdr" and "request_ok (e_max E) q" and "wsUpgrade (rq_fields (e_max E) q)" and "13 \<notin> set (decoded_line (rq_method q) (rq_target q) (rq_version q))"
    and "between a [] ln" and "arrives segs (rq_head q @ rq_body q) rest" and "int (length (concat segs)) \<le> e_max E"
  defines "out \<equiv> lines_text (upgrade_answer hdr (client_key q)) @ crlf"
  shows "\<exists>l. reads E a (Wrote (length out)) segs ln = Some l \<and> ws_ready a None l \<and> conn_in (store l a) = rest \<and> outputs (fx l) = outputs (fx ln) @ [out]"
proof -
  let ?c = "store ln a"
  have b: "\<not> lock ?c" "\<not> conn_closed ?c" "conn_out ?c = []" using assms(5) by (simp_all add: between_def)
  obtain s h inp where p: "process (e_url E) (e_max E) new_srs ((rq_head q @ rq_body q) @ rest) = Some (s, inp, None)"
      "length (request_data s) = length (rq_head q @ rq_body q)" "wsUpgrade h = wsUpgrade (rq_fields (e_max E) q)"
      "http_data h = decoded_head (rq_method q) (rq_target q) (rq_version q) (rq_headers q) @ rq_body q"
    and srv: "\<forall>wr. serve_request E a s wr (received a s inp ln) = do {
       (c', trs, more) \<leftarrow> e_http E h (?c\<lparr>conn_srs := s, conn_in := rest\<rparr>);
       let l = triggers trs (put a (api (?c\<lparr>conn_srs := s, conn_in := rest\<rparr>) c') (emit (FxHTTP (conn_fd ?c) h) ln));
       (if \<not> more then Some (closeConnWithError E a [] NoErr l) else finish_read E a wr l) }"
    using request_parsed [OF assms(2) b(1), of rest] by blast
  have hd: "list_all plain_line (rq_headers q)" using assms(2) by (simp add: request_ok_def)
  have ok: "snd (parse_headers (e_max E) (target_request (rq_method q) (rq_target q) (length (rq_head q))) (rq_headers q)) = None"
    using assms(2) by (simp add: request_ok_def split: prod.splits)
  have key: "GetHeader h (bs ''sec-websocket-key'') = Some (client_key q)"
    using GetHeader_request [OF p(4) assms(4) hd ok] by (simp add: client_key_def)
  have up: "list_all entry_ok hdr" using assms(1) by (simp add: upgrader_def)
  have "e_http E h (?c\<lparr>conn_srs := s, conn_in := rest\<rparr>) =
      Some (?c\<lparr>conn_srs := s, conn_in := rest, conn_ws := Some new_websocket, conn_out := out\<rparr>, [conn_fd ?c], True)"
    using assms(1) upgrade_append [OF _ _ up key, of "?c\<lparr>conn_srs := s, conn_in := rest\<rparr>"] b p(3) assms(3)
    by (simp add: upgrader_def out_def)
  then have "serve_request E a s wr (received a s inp ln) = finish_read E a wr
      (triggers [conn_fd ?c] (put a (?c\<lparr>conn_srs := s, conn_in := rest, conn_out := out, conn_ws := Some new_websocket\<rparr>) (emit (FxHTTP (conn_fd ?c) h) ln)))" for wr
    unfolding spec [OF srv] by (simp add: api_def)
  moreover have "out \<noteq> []" "\<not> ws_closed new_websocket" by (simp_all add: out_def new_websocket_def)
  ultimately have "\<exists>l. reads E a (Wrote (length out)) segs ln = Some l \<and> store l a = ?c\<lparr>conn_in := rest, conn_ws := Some new_websocket\<rparr> \<and>
      interest (ln_poll l) (conn_fd ?c) \<noteq> None \<and> outputs (fx l) = outputs (fx ln) @ [out]"
    using p(1,2) by (intro request_served [OF assms(5-7)]) auto
  then show ?thesis using b(1) by (auto simp: ws_ready_def new_websocket_def)
qed

text \<open>
  C3: a WebSocket session from its beginning. A client that asks for an upgrade is answered with
  status 101, the accept key of its own key and a connection in WebSocket mode; the masked
  frames it sends then, holding messages in any fragmentation with pings and pongs between,
  reach the application as exactly these messages.
\<close>

theorem upgrade_then_messages:
  assumes "upgrader E hdr" and "ws_handler E" and "request_ok (e_max E) q" and "wsUpgrade (rq_fields (e_max E) q)"
    and "13 \<notin> set (decoded_line (rq_method q) (rq_target q) (rq_version q))"
    and "between a [] ln" and "arrives segs (rq_head q @ rq_body q) []" and "int (length (concat segs)) \<le> e_max E"
    and "list_all (message_ok (e_max E)) ms" and "map cframe_view fs = concat (map (\<lambda>m. fragments (fst m) (snd m)) ms)"
    and "list_all cframe_ok fs" and "fs \<noteq> []" and "int (length (concat (map cframe_bytes fs))) \<le> e_max E"
  shows "\<exists>l out l2. reads E a (Wrote (length out)) segs ln = Some l \<and> outputs (fx l) = outputs (fx ln) @ [out] \<and>
      read_response out = Some (upgrade_answer hdr (client_key q), []) \<and>
      readConn E a (ReadN (concat (map cframe_bytes fs))) wr l = finish_read E a wr l2 \<and> ws_ready a None l2 \<and>
      messages (fx l2) = messages (fx l) @ map message_data ms"
proof -
  let ?out = "lines_text (upgrade_answer hdr (client_key q)) @ crlf"
  obtain l where l: "reads E a (Wrote (length ?out)) segs ln = Some l" "ws_ready a None l" "conn_in (store l a) = []" "outputs (fx l) = outputs (fx ln) @ [?out]"
    using upgrade_served [OF assms(1,3-8)] by blast
  have r: "read_response ?out = Some (upgrade_answer hdr (client_key q), [])"
    using assms(1) by (simp add: upgrader_def upgrade_answer_read)
  have ne: "concat (map cframe_bytes fs) \<noteq> []" using assms(12)
    by (cases fs) (auto simp: client_frame_def frame_prefix_def)
  obtain l2 where l2: "parse_next E a (concat (map cframe_bytes fs)) wr l = finish_read E a wr l2" "ws_ready a None l2"
      "messages (fx l2) = messages (fx l) @ map message_data ms"
    using parse_next_frames [OF assms(2,11) _ _ l(2), of "[]" "concat (map cframe_bytes fs)" "map message_data ms" None wr]
      assms(10,12,13) l(3) ws_session_messages [OF assms(9)] by (auto simp: cframe_part_def)
  then have "readConn E a (ReadN (concat (map cframe_bytes fs))) wr l = finish_read E a wr l2" using ne by (auto simp: readConn_def)
  then show ?thesis using l(1,4) r l2(2,3) by blast
qed

definition sample_join :: http_request where
  "sample_join = \<lparr>rq_method = bs ''GET'', rq_target = bs ''/chat'', rq_version = bs ''HTTP/1.1'',
     rq_headers = [bs ''Upgrade: WebSocket'', bs ''Sec-WebSocket-Key: abc''], rq_body = []\<rparr>"

definition sample_room :: env where
  "sample_room = quiet_env\<lparr>e_http := \<lambda>h c. map_option (\<lambda>(c', ok, trs). (c', trs, True)) (UpgradeWebsocket [] h c)\<rparr>"

lemma sample_join_fields:
  "snd (parse_headers 1048576 (target_request (bs ''GET'') (bs ''/chat'') (length (rq_head sample_join))) (rq_headers sample_join)) = None"
  "unat (bodyLen (rq_fields 1048576 sample_join)) = 0" "wsUpgrade (rq_fields 1048576 sample_join)"
  "length (rq_head sample_join) = 66" "prefix (bs ''/'') (rq_path sample_join)"
  "13 \<notin> set (decoded_line (rq_method sample_join) (rq_target sample_join) (rq_version sample_join))"
  by code_simp+

lemma sample_join_ok: "request_ok 1048576 sample_join"
proof -
  have s: "rq_method sample_join = bs ''GET''" "rq_target sample_join = bs ''/chat''" "rq_version sample_join = bs ''HTTP/1.1''" "rq_body sample_join = []"
    "rq_headers sample_join = [bs ''Upgrade: WebSocket'', bs ''Sec-WebSocket-Key: abc'']" by (simp_all add: sample_join_def)
  have f: "parse_headers 1048576 (target_request (bs ''GET'') (bs ''/chat'') (length (rq_head sample_join))) (rq_headers sample_join) = (rq_fields 1048576 sample_join, None)"
    using sample_join_fields(1) by (simp add: rq_fields_def s(1,2) prod_eq_iff)
  show ?thesis unfolding request_ok_def s(1-4) f prod.case sample_join_fields(2) using sample_join_fields(4,5) s(5)
    by (simp add: bs_def plain_line_def)
qed

theorem upgrade_then_messages_witness:
  "\<exists>l out l2. reads sample_room 2 (Wrote (length out)) [rq_head sample_join] sample_waiting = Some l \<and> outputs (fx l) = outputs (fx sample_waiting) @ [out] \<and>
      read_response out = Some (upgrade_answer [] (client_key sample_join), []) \<and>
      readConn sample_room 2 (ReadN (concat (map cframe_bytes sample_frames))) (Wrote 0) l = finish_read sample_room 2 (Wrote 0) l2 \<and> ws_ready 2 None l2 \<and>
      messages (fx l2) = messages (fx l) @ map message_data [sample_message]"
proof (rule upgrade_then_messages [OF _ _ _ _ sample_join_fields(6) sample_waiting_between])
  show "upgrader sample_room []" by (simp add: upgrader_def sample_room_def)
  show "ws_handler sample_room" by (simp add: ws_handler_def sample_room_def quiet_env_def)
  show "request_ok (e_max sample_room) sample_join" "wsUpgrade (rq_fields (e_max sample_room) sample_join)"
    using sample_join_ok sample_join_fields(3) by (simp_all add: sample_room_def quiet_env_def)
  have "rq_head sample_join \<noteq> []" using sample_join_fields(4) by auto
  then show "arrives [rq_head sample_join] (rq_head sample_join @ rq_body sample_join) []" by (simp add: arrives_def sample_join_def)
  show "int (length (concat [rq_head sample_join])) \<le> e_max sample_room" using sample_join_fields(4) by (simp add: sample_room_def quiet_env_def)
qed (simp_all add: sample_room_def quiet_env_def sample_frames_def sample_message_def message_ok_def bs_def client_frame_def frame_prefix_def)

end
